(* ===== verification/OS_Prelude.thy ===== *)
theory OS_Prelude
  imports Main "HOL-Library.Monad_Syntax"
begin

section \<open>Shared prelude\<close>

text \<open>
  What the components of the development share.

  \<^item> Undefined behaviour (a NULL or dangling dereference, a signed overflow, a write past the
    end of an array, a double free) is the value \<^const>\<open>None\<close> of an \<open>option\<close>; the \<open>do\<close>
    notation of \<open>Monad_Syntax\<close> sequences statements that may have it. An error return of the C
    code (\<open>-1\<close>, \<open>NULL\<close>) is an ordinary value.
  \<^item> \<open>run\<close> tells a normal return from a call of \<open>exit\<close>, which ends the whole process, and from
    undefined behaviour, in code that can do both.
  \<^item> A pointer is an \<open>addr option\<close>, \<^const>\<open>None\<close> being \<open>NULL\<close>; a heap of cells is a partial
    map. \<open>rd\<close>, \<open>upd\<close> and \<open>free\<close> are the dereference, the store and the \<open>free\<close> of C.
  \<^item> The formatted output of C: decimal numbers, zero padding and bounded buffers.
\<close>

named_theorems heap_simps \<open>reading and updating the heap\<close>
named_theorems cdefs \<open>small C helpers to be unfolded\<close>

subsection \<open>Machine integers\<close>

definition INT_MAX :: int where "INT_MAX = 2 ^ 31 - 1"

definition in_int :: "int \<Rightarrow> bool" where
  "in_int x \<longleftrightarrow> - (2 ^ 31) \<le> x \<and> x \<le> INT_MAX"

text \<open>The result of a signed \<open>int\<close> operation: undefined when it does not fit.\<close>

definition cint :: "int \<Rightarrow> int option" where
  "cint x = (if in_int x then Some x else None)"

text \<open>Conversion to a signed or an unsigned type of \<open>w\<close> bits.\<close>

definition to_signed :: "nat \<Rightarrow> int \<Rightarrow> int" where
  "to_signed w x = (x + 2 ^ (w - 1)) mod 2 ^ w - 2 ^ (w - 1)"

definition to_unsigned :: "nat \<Rightarrow> int \<Rightarrow> nat" where
  "to_unsigned w x = nat (x mod 2 ^ w)"

lemma cint_Some [simp]: "cint x = Some y \<longleftrightarrow> in_int x \<and> y = x"
  by (auto simp: cint_def)

lemma cint_eq: "in_int x \<Longrightarrow> cint x = Some x"
  by (simp add: cint_def)

lemma to_signed_id: "0 < w \<Longrightarrow> - (2 ^ (w - 1)) \<le> x \<Longrightarrow> x < 2 ^ (w - 1) \<Longrightarrow> to_signed w x = x"
  by (cases w) (auto simp: to_signed_def)

lemma to_signed_range:
  assumes "0 < w"
  shows "- (2 ^ (w - 1)) \<le> to_signed w x \<and> to_signed w x < 2 ^ (w - 1)"
proof -
  have "(0::int) < 2 ^ w" by simp
  then have "0 \<le> (x + 2 ^ (w - 1)) mod 2 ^ w" "(x + 2 ^ (w - 1)) mod 2 ^ w < 2 ^ w"
    by (auto intro: pos_mod_bound)
  moreover have "(2::int) ^ w = 2 * 2 ^ (w - 1)"
    using assms by (cases w) auto
  ultimately show ?thesis
    unfolding to_signed_def by linarith
qed

subsection \<open>Process outcomes\<close>

datatype 'a run = Done 'a | Exited | Fault

fun run_bind :: "'a run \<Rightarrow> ('a \<Rightarrow> 'b run) \<Rightarrow> 'b run" where
  "run_bind (Done x) f = f x"
| "run_bind Exited f = Exited"
| "run_bind Fault f = Fault"

text \<open>A statement that may be undefined, as an outcome.\<close>

fun run_of :: "'a option \<Rightarrow> 'a run" where
  "run_of None = Fault"
| "run_of (Some x) = Done x"

lemma run_bind_Done: "run_bind m f = Done y \<longleftrightarrow> (\<exists>x. m = Done x \<and> f x = Done y)"
  by (cases m) auto

lemma run_of_Done [simp]: "run_of x = Done y \<longleftrightarrow> x = Some y"
  by (cases x) auto

lemma run_of_not_Exited [simp]: "run_of x \<noteq> Exited"
  by (cases x) auto

subsection \<open>Heaps of cells\<close>

type_synonym addr = nat

type_synonym 'c heap = "addr \<rightharpoonup> 'c"

fun rd :: "'c heap \<Rightarrow> addr option \<Rightarrow> 'c option" where
  "rd h None = None"
| "rd h (Some a) = h a"

fun upd :: "'c heap \<Rightarrow> addr option \<Rightarrow> ('c \<Rightarrow> 'c) \<Rightarrow> 'c heap option" where
  "upd h None f = None"
| "upd h (Some a) f = (case h a of None \<Rightarrow> None | Some c \<Rightarrow> Some (h(a \<mapsto> f c)))"

fun free :: "'c heap \<Rightarrow> addr option \<Rightarrow> 'c heap option" where
  "free h None = Some h"
| "free h (Some a) = (case h a of None \<Rightarrow> None | Some c \<Rightarrow> Some (h(a := None)))"

lemma rd_Some [heap_simps]: "rd h p = Some c \<longleftrightarrow> (\<exists>a. p = Some a \<and> h a = Some c)"
  by (cases p) auto

lemma upd_Some [heap_simps]:
  "upd h p f = Some h' \<longleftrightarrow> (\<exists>a c. p = Some a \<and> h a = Some c \<and> h' = h(a \<mapsto> f c))"
  by (cases p) (auto split: option.splits)

lemma free_Some_addr [heap_simps]:
  "free h (Some a) = Some h' \<longleftrightarrow> (\<exists>c. h a = Some c \<and> h' = h(a := None))"
  by (auto split: option.splits)

text \<open>\<open>memset\<close> on the bytes of a process.\<close>

definition memset :: "(addr \<Rightarrow> char) \<Rightarrow> addr \<Rightarrow> char \<Rightarrow> nat \<Rightarrow> addr \<Rightarrow> char" where
  "memset bs p v n = (\<lambda>a. if p \<le> a \<and> a < p + n then v else bs a)"

subsection \<open>C strings and formatted output\<close>

definition NUL :: char where "NUL = CHR 0x00"

text \<open>The C string stored in an array: everything before the first NUL.\<close>

definition cstr :: "char list \<Rightarrow> string" where
  "cstr buf = takeWhile (\<lambda>c. c \<noteq> NUL) buf"

text \<open>Storing \<open>bs\<close> from the start of an array leaves the rest of the array as it was.\<close>

definition overlay :: "char list \<Rightarrow> char list \<Rightarrow> char list" where
  "overlay bs buf = bs @ drop (length bs) buf"

lemma length_overlay: "length bs \<le> length buf \<Longrightarrow> length (overlay bs buf) = length buf"
  by (simp add: overlay_def)

lemma cstr_overlay:
  assumes "NUL \<notin> set s" shows "cstr (overlay (s @ [NUL]) buf) = s"
proof -
  have "\<forall>c\<in>set s. c \<noteq> NUL" using assms by auto
  then show ?thesis
    by (simp add: cstr_def overlay_def takeWhile_append2)
qed

definition digit :: "nat \<Rightarrow> char" where
  "digit n = char_of (48 + n)"

fun fmt_nat :: "nat \<Rightarrow> string" where
  "fmt_nat n = (if n < 10 then [digit n] else fmt_nat (n div 10) @ [digit (n mod 10)])"

declare fmt_nat.simps [simp del]

lemma length_fmt_nat: "n < 10 ^ Suc k \<Longrightarrow> length (fmt_nat n) \<le> Suc k"
proof (induction n arbitrary: k rule: fmt_nat.induct)
  case (1 n)
  show ?case
  proof (cases "n < 10")
    case True
    then show ?thesis by (simp add: fmt_nat.simps)
  next
    case False
    then obtain j where j: "k = Suc j" using "1.prems" by (cases k) auto
    have "n div 10 < 10 ^ Suc j" using "1.prems" j by (simp add: less_mult_imp_div_less)
    then have "length (fmt_nat (n div 10)) \<le> Suc j" using "1.IH" False by blast
    then show ?thesis using False j by (simp add: fmt_nat.simps [of n])
  qed
qed

text \<open>\<open>%d\<close> and \<open>%lu\<close> of C, and zero padding as in \<open>%06lu\<close>.\<close>

definition fmt_d :: "int \<Rightarrow> string" where
  "fmt_d x = (if x < 0 then CHR ''-'' # fmt_nat (nat (- x)) else fmt_nat (nat x))"

definition fmt_lu :: "int \<Rightarrow> string" where
  "fmt_lu x = fmt_nat (to_unsigned 64 x)"

definition pad0 :: "nat \<Rightarrow> string \<Rightarrow> string" where
  "pad0 w s = replicate (w - length s) (CHR ''0'') @ s"

text \<open>\<open>sprintf\<close> into an array of \<open>n\<close> bytes: undefined unless the text and its NUL fit.\<close>

definition sprintf_into :: "nat \<Rightarrow> string \<Rightarrow> string option" where
  "sprintf_into n s = (if length s < n then Some s else None)"

lemma sprintf_into_Some [simp]: "sprintf_into n s = Some t \<longleftrightarrow> length s < n \<and> t = s"
  by (auto simp: sprintf_into_def)

lemma length_fmt_lu: "length (fmt_lu x) \<le> 20"
proof -
  have "x mod 2 ^ 64 < 2 ^ 64" by simp
  then have "to_unsigned 64 x < 2 ^ 64" by (simp add: to_unsigned_def nat_less_iff)
  then have "to_unsigned 64 x < 10 ^ Suc 19" by simp
  from length_fmt_nat [OF this] show ?thesis by (simp add: fmt_lu_def)
qed

lemma length_fmt_d:
  assumes "in_int x" shows "length (fmt_d x) \<le> 11"
proof -
  have "nat x < 10 ^ Suc 9" "nat (- x) < 10 ^ Suc 9"
    using assms by (auto simp: in_int_def INT_MAX_def)
  from this [THEN length_fmt_nat] show ?thesis by (auto simp: fmt_d_def)
qed

lemma length_pad0: "length (pad0 w s) = max w (length s)"
  by (simp add: pad0_def)

definition CRLF :: string where "CRLF = [CHR 0x0D, CHR 0x0A]"

text \<open>\<open>strstr(s, t) != NULL\<close>: \<open>t\<close> occurs in \<open>s\<close>.\<close>

fun is_prefix :: "string \<Rightarrow> string \<Rightarrow> bool" where
  "is_prefix [] s = True"
| "is_prefix (c # t) [] = False"
| "is_prefix (c # t) (d # s) = (c = d \<and> is_prefix t s)"

fun strstr :: "string \<Rightarrow> string \<Rightarrow> bool" where
  "strstr [] t = is_prefix t []"
| "strstr (c # s) t = (is_prefix t (c # s) \<or> strstr s t)"

lemma is_prefix_iff: "is_prefix t s \<longleftrightarrow> (\<exists>r. s = t @ r)"
  by (induction t s rule: is_prefix.induct) auto

lemma strstr_iff: "strstr s t \<longleftrightarrow> (\<exists>a b. s = a @ t @ b)"
proof (induction s)
  case Nil
  show ?case by (auto simp: is_prefix_iff)
next
  case (Cons c s)
  show ?case (is "?l \<longleftrightarrow> ?r")
  proof
    assume ?l
    then consider r where "c # s = t @ r" | a b where "s = a @ t @ b"
      using Cons.IH by (auto simp: is_prefix_iff)
    then show ?r
    proof cases
      case 1
      then have "c # s = [] @ t @ r" by simp
      then show ?thesis by blast
    next
      case 2
      then have "c # s = (c # a) @ t @ b" by simp
      then show ?thesis by blast
    qed
  next
    assume ?r
    then obtain a b where ab: "c # s = a @ t @ b" by blast
    show ?l
    proof (cases a)
      case Nil
      with ab have "is_prefix t (c # s)" by (auto simp: is_prefix_iff)
      then show ?thesis by simp
    next
      case (Cons d a')
      with ab have "s = a' @ t @ b" by simp
      then show ?thesis using Cons.IH by auto
    qed
  qed
qed

subsection \<open>Reading numbers\<close>

definition isspace :: "char \<Rightarrow> bool" where
  "isspace c \<longleftrightarrow> c \<in> {CHR '' '', CHR 0x09, CHR 0x0A, CHR 0x0B, CHR 0x0C, CHR 0x0D}"

text \<open>The leading digits of a string, and their value.\<close>

definition is_digit :: "char \<Rightarrow> bool" where
  "is_digit c \<longleftrightarrow> 48 \<le> (of_char c :: nat) \<and> (of_char c :: nat) \<le> 57"

fun atoi_digits :: "int \<Rightarrow> string \<Rightarrow> int" where
  "atoi_digits acc [] = acc"
| "atoi_digits acc (c # s) =
     (let n = of_char c :: nat in
      if 48 \<le> n \<and> n \<le> 57 then atoi_digits (10 * acc + (int n - 48)) s else acc)"

lemma of_char_digit: "n < 10 \<Longrightarrow> (of_char (digit n) :: nat) = 48 + n"
  by (simp add: digit_def of_char_of)

lemma fmt_nat_digits: "\<forall>c\<in>set (fmt_nat n). is_digit c"
  by (induction n rule: fmt_nat.induct) (subst fmt_nat.simps, auto simp: is_digit_def of_char_digit)

lemma fmt_nat_nonempty: "fmt_nat n \<noteq> []"
  by (subst fmt_nat.simps) simp

lemma atoi_digits_append:
  "\<forall>c\<in>set s. is_digit c \<Longrightarrow> atoi_digits acc (s @ t) = atoi_digits (atoi_digits acc s) t"
  by (induction acc s rule: atoi_digits.induct) (auto simp: is_digit_def Let_def)

lemma atoi_fmt_nat: "atoi_digits 0 (fmt_nat n) = int n"
proof (induction n rule: fmt_nat.induct)
  case (1 n)
  show ?case
  proof (cases "n < 10")
    case True
    then show ?thesis by (subst fmt_nat.simps) (simp add: of_char_digit)
  next
    case False
    then have "fmt_nat n = fmt_nat (n div 10) @ [digit (n mod 10)]" by (simp add: fmt_nat.simps [of n])
    then have "atoi_digits 0 (fmt_nat n) = 10 * int (n div 10) + int (n mod 10)"
      using 1 [OF False] fmt_nat_digits of_char_digit [of "n mod 10"]
      by (simp add: atoi_digits_append Let_def)
    then show ?thesis by presburger
  qed
qed

end
