(* ===== verification/Segel.thy ===== *)
theory Segel
  imports OS_Prelude
begin

section \<open>The robust I/O package and the system call wrappers (OS_HW3/segel.c)\<close>

text \<open>
  The kernel's side of a descriptor is a script: the list of what the coming \<open>read\<close> calls will do
  (deliver bytes, be interrupted by a signal, fail), an exhausted script being the end of the
  stream. Every way the kernel may cut the input into pieces and every sequence of interruptions
  is a script, and the theorems quantify over all of them. The same holds for \<open>write\<close>.

  The Rio functions follow the source: \<open>rio_t\<close> with its count, buffer pointer and buffer, the
  refill loop of \<open>rio_read\<close>, and the loops built on it. The results are proved against the
  abstract stream: the unread bytes of the buffer followed by the bytes of the script.
\<close>

subsection \<open>The kernel's side of a descriptor\<close>

datatype rd_event = RBytes "char list" | RIntr | RErr

text \<open>What \<open>read\<close> returned: the bytes (none: end of file), or \<open>-1\<close> with \<open>errno = EINTR\<close> or not.\<close>

datatype rd_res = RGot "char list" | RFail bool

fun sys_read :: "rd_event list \<Rightarrow> nat \<Rightarrow> rd_res \<times> rd_event list" where
  "sys_read [] n = (RGot [], [])"
| "sys_read (RIntr # es) n = (RFail True, es)"
| "sys_read (RErr # es) n = (RFail False, es)"
| "sys_read (RBytes bs # es) n =
     (if bs = [] then sys_read es n
      else if length bs \<le> n then (RGot bs, es)
      else (RGot (take n bs), RBytes (drop n bs) # es))"

text \<open>
  The script of \<open>write\<close>: \<open>WOk k\<close> accepts at most \<open>k + 1\<close> bytes, \<open>WFail b\<close> returns a value
  \<open>\<le> 0\<close> with \<open>errno = EINTR\<close> (\<open>b\<close>) or not; past its end everything is accepted.
\<close>

datatype wr_event = WOk nat | WFail bool

fun sys_write :: "wr_event list \<Rightarrow> nat \<Rightarrow> (bool + nat) \<times> wr_event list" where
  "sys_write [] n = (Inr n, [])"
| "sys_write (WOk k # ws) n = (Inr (min (Suc k) n), ws)"
| "sys_write (WFail b # ws) n = (Inl b, ws)"

subsection \<open>Error handling: the process exits\<close>

definition unix_error :: "'a run" where "unix_error = Exited"

definition posix_error :: "'a run" where "posix_error = Exited"

definition dns_error :: "'a run" where "dns_error = Exited"

definition app_error :: "'a run" where "app_error = Exited"

subsection \<open>Wrappers: the argument is what the system call returned\<close>

definition Gethostname :: "int \<Rightarrow> int run" where "Gethostname rc = (if rc < 0 then unix_error else Done rc)"

definition Setenv :: "int \<Rightarrow> int run" where "Setenv rc = (if rc < 0 then unix_error else Done rc)"

definition Fork :: "int \<Rightarrow> int run" where "Fork pid = (if pid < 0 then unix_error else Done pid)"

definition Execve :: "int \<Rightarrow> unit run" where "Execve rc = (if rc < 0 then unix_error else Done ())"

definition Wait :: "int \<Rightarrow> int run" where "Wait pid = (if pid < 0 then unix_error else Done pid)"

definition WaitPid :: "int \<Rightarrow> int run" where "WaitPid pid = (if pid < 0 then unix_error else Done pid)"

definition Open :: "int \<Rightarrow> int run" where "Open rc = (if rc < 0 then unix_error else Done rc)"

definition Read :: "int \<Rightarrow> int run" where "Read rc = (if rc < 0 then unix_error else Done rc)"

definition Write :: "int \<Rightarrow> int run" where "Write rc = (if rc < 0 then unix_error else Done rc)"

definition Lseek :: "int \<Rightarrow> int run" where "Lseek rc = (if rc < 0 then unix_error else Done rc)"

definition Close :: "int \<Rightarrow> unit run" where "Close rc = (if rc < 0 then unix_error else Done ())"

definition Select :: "int \<Rightarrow> int run" where "Select rc = (if rc < 0 then unix_error else Done rc)"

definition Dup2 :: "int \<Rightarrow> int run" where "Dup2 rc = (if rc < 0 then unix_error else Done rc)"

text \<open>\<open>stat\<close> and \<open>fstat\<close> fill a structure of some type when they succeed.\<close>

definition Stat :: "int \<Rightarrow> 'st \<Rightarrow> 'st run" where "Stat rc buf = (if rc < 0 then unix_error else Done buf)"

definition Fstat :: "int \<Rightarrow> 'st \<Rightarrow> 'st run" where "Fstat rc buf = (if rc < 0 then unix_error else Done buf)"

text \<open>The result of \<open>mmap\<close>: \<^const>\<open>None\<close> for \<open>(void *) -1\<close>.\<close>

definition Mmap :: "'p option \<Rightarrow> 'p run" where
  "Mmap ptr = (case ptr of None \<Rightarrow> unix_error | Some p \<Rightarrow> Done p)"

definition Munmap :: "int \<Rightarrow> unit run" where "Munmap rc = (if rc < 0 then unix_error else Done ())"

definition Socket :: "int \<Rightarrow> int run" where "Socket rc = (if rc < 0 then unix_error else Done rc)"

definition Setsockopt :: "int \<Rightarrow> unit run" where "Setsockopt rc = (if rc < 0 then unix_error else Done ())"

definition Bind :: "int \<Rightarrow> unit run" where "Bind rc = (if rc < 0 then unix_error else Done ())"

definition Listen :: "int \<Rightarrow> unit run" where "Listen rc = (if rc < 0 then unix_error else Done ())"

definition Accept :: "int \<Rightarrow> int run" where "Accept rc = (if rc < 0 then unix_error else Done rc)"

definition Connect :: "int \<Rightarrow> unit run" where "Connect rc = (if rc < 0 then unix_error else Done ())"

text \<open>The result of a name lookup: \<^const>\<open>None\<close> for NULL.\<close>

definition Gethostbyname :: "'h option \<Rightarrow> 'h run" where
  "Gethostbyname p = (case p of None \<Rightarrow> dns_error | Some h \<Rightarrow> Done h)"

definition Gethostbyaddr :: "'h option \<Rightarrow> 'h run" where
  "Gethostbyaddr p = (case p of None \<Rightarrow> dns_error | Some h \<Rightarrow> Done h)"

subsection \<open>Unbuffered robust reads and writes\<close>

lemma sys_read_RFail_less: "sys_read es n = (RFail b, es') \<Longrightarrow> length es' < length es"
  by (induction es n rule: sys_read.induct) (auto split: if_splits)

lemma sys_read_RGot_le: "sys_read es n = (RGot bs, es') \<Longrightarrow> length es' \<le> length es"
  by (induction es n rule: sys_read.induct) (auto split: if_splits)

lemma sys_read_RGot_progress:
  assumes "sys_read es n = (RGot bs, es')" "bs \<noteq> []" "0 < n"
  shows "length es' + (n - length bs) < length es + n"
proof -
  have "0 < length bs" using assms(2) by simp
  then show ?thesis using sys_read_RGot_le [OF assms(1)] assms(3) by linarith
qed

text \<open>
  \<open>rio_readn\<close>: returns the count (or \<open>-1\<close>), the bytes stored from \<open>usrbuf\<close> on and the script left.
  \<open>acc\<close> is what is stored already and \<open>nleft\<close> what is still wanted.
\<close>

function readn_loop :: "rd_event list \<Rightarrow> nat \<Rightarrow> char list \<Rightarrow> int \<times> char list \<times> rd_event list" where
  "readn_loop es nleft acc =
     (if nleft > 0 then
        (case sys_read es nleft of
           (RFail intr, es') \<Rightarrow>
             if intr then readn_loop es' nleft acc else (- 1, acc, es')
         | (RGot bs, es') \<Rightarrow>
             if bs = [] then (int (length acc), acc, es')
             else readn_loop es' (nleft - length bs) (acc @ bs))
      else (int (length acc), acc, es))"
  by pat_completeness auto
termination
  by (relation "measure (\<lambda>(es, nleft, acc). length es + nleft)")
    (auto dest: sys_read_RFail_less [OF sym] sys_read_RGot_progress [OF sym])

definition rio_readn :: "rd_event list \<Rightarrow> nat \<Rightarrow> int \<times> char list \<times> rd_event list" where
  "rio_readn es n = readn_loop es n []"

text \<open>
  \<open>rio_writen\<close>: returns \<open>n\<close> or \<open>-1\<close>, the bytes handed to the kernel and the script left.
\<close>

lemma sys_write_Inl_less: "sys_write ws n = (Inl b, ws') \<Longrightarrow> length ws' < length ws"
  by (cases "(ws, n)" rule: sys_write.cases) auto

lemma sys_write_Inr:
  "sys_write ws n = (Inr k, ws') \<Longrightarrow> k \<le> n \<and> (0 < n \<longrightarrow> 0 < k) \<and> length ws' \<le> length ws"
  by (cases "(ws, n)" rule: sys_write.cases) auto

lemma sys_write_Inr_progress:
  assumes "sys_write ws n = (Inr k, ws')" "0 < n"
  shows "length ws' + (n - k) < length ws + n"
proof -
  have "0 < k" "length ws' \<le> length ws" using sys_write_Inr [OF assms(1)] assms(2) by auto
  then show ?thesis using assms(2) by linarith
qed

function writen_loop :: "wr_event list \<Rightarrow> char list \<Rightarrow> char list \<Rightarrow> bool \<times> char list \<times> wr_event list" where
  "writen_loop ws left sent =
     (if length left > 0 then
        (case sys_write ws (length left) of
           (Inl intr, ws') \<Rightarrow> if intr then writen_loop ws' left sent else (False, sent, ws')
         | (Inr k, ws') \<Rightarrow> writen_loop ws' (drop k left) (sent @ take k left))
      else (True, sent, ws))"
  by pat_completeness auto
termination
  by (relation "measure (\<lambda>(ws, left, sent). length ws + length left)")
    (auto dest: sys_write_Inl_less [OF sym] sys_write_Inr_progress [OF sym])

definition rio_writen :: "wr_event list \<Rightarrow> char list \<Rightarrow> int \<times> char list \<times> wr_event list" where
  "rio_writen ws bytes =
     (let (ok, sent, ws') = writen_loop ws bytes [] in
      (if ok then int (length bytes) else - 1, sent, ws'))"

subsection \<open>The buffered reader\<close>

definition RIO_BUFSIZE :: nat where "RIO_BUFSIZE = 8192"

definition MAXLINE :: nat where "MAXLINE = 8192"

definition MAXBUF :: nat where "MAXBUF = 8192"

record rio_t =
  rio_fd :: int
  rio_cnt :: int
  rio_bufptr :: nat
  rio_buf :: "char list"

text \<open>The refill loop of \<open>rio_read\<close>; \<open>Some rc\<close> is an early return with \<open>rc\<close>.\<close>

function rio_refill :: "rd_event list \<Rightarrow> rio_t \<Rightarrow> int option \<times> rio_t \<times> rd_event list" where
  "rio_refill es rp =
     (if rio_cnt rp \<le> 0 then
        (case sys_read es RIO_BUFSIZE of
           (RFail intr, es') \<Rightarrow>
             if \<not> intr then (Some (- 1), rp\<lparr>rio_cnt := - 1\<rparr>, es')
             else rio_refill es' (rp\<lparr>rio_cnt := - 1\<rparr>)
         | (RGot bs, es') \<Rightarrow>
             if bs = [] then (Some 0, rp\<lparr>rio_cnt := 0\<rparr>, es')
             else (None, rp\<lparr>rio_cnt := int (length bs), rio_buf := overlay bs (rio_buf rp),
                            rio_bufptr := 0\<rparr>, es'))
      else (None, rp, es))"
  by pat_completeness auto
termination
  by (relation "measure (\<lambda>(es, rp). length es)") (auto dest: sys_read_RFail_less [OF sym])

definition rio_read ::
  "rd_event list \<Rightarrow> rio_t \<Rightarrow> nat \<Rightarrow> int \<times> char list \<times> rio_t \<times> rd_event list" where
  "rio_read es rp n =
     (case rio_refill es rp of
        (Some rc, rp', es') \<Rightarrow> (rc, [], rp', es')
      | (None, rp', es') \<Rightarrow>
          let cnt = (if rio_cnt rp' < int n then rio_cnt rp' else int n) in
          (cnt, take (nat cnt) (drop (rio_bufptr rp') (rio_buf rp')),
           rp'\<lparr>rio_bufptr := rio_bufptr rp' + nat cnt, rio_cnt := rio_cnt rp' - cnt\<rparr>, es'))"

text \<open>The contents of the buffer of an uninitialised \<open>rio_t\<close> is the argument \<open>junk\<close>.\<close>

definition rio_readinitb :: "char list \<Rightarrow> int \<Rightarrow> rio_t" where
  "rio_readinitb junk fd = \<lparr>rio_fd = fd, rio_cnt = 0, rio_bufptr = 0, rio_buf = junk\<rparr>"

text \<open>
  \<open>rio_readnb\<close>. \<open>rio_read\<close> only returns \<open>-1\<close> when \<open>errno\<close> is not \<open>EINTR\<close>, so the test of \<open>errno\<close>
  after it always takes the branch that returns \<open>-1\<close>.
\<close>

function readnb_loop ::
  "rd_event list \<Rightarrow> rio_t \<Rightarrow> nat \<Rightarrow> char list \<Rightarrow> int \<times> char list \<times> rio_t \<times> rd_event list" where
  "readnb_loop es rp nleft acc =
     (if nleft > 0 then
        (case rio_read es rp nleft of (nread, bs, rp', es') \<Rightarrow>
           if nread < 0 then (- 1, acc, rp', es')
           else if nread = 0 then (int (length acc), acc, rp', es')
           else readnb_loop es' rp' (nleft - nat nread) (acc @ bs))
      else (int (length acc), acc, rp, es))"
  by pat_completeness auto
termination
  by (relation "measure (\<lambda>(es, rp, nleft, acc). nleft)") auto

definition rio_readnb ::
  "rd_event list \<Rightarrow> rio_t \<Rightarrow> nat \<Rightarrow> int \<times> char list \<times> rio_t \<times> rd_event list" where
  "rio_readnb es rp n = readnb_loop es rp n []"

text \<open>
  The loop of \<open>rio_readlineb\<close>: \<open>n\<close> is the loop variable, \<open>acc\<close> the bytes stored so far. The
  result is the return value and the bytes stored from \<open>usrbuf\<close> on, with the final NUL when the
  code stores it.
\<close>

function readline_loop ::
  "rd_event list \<Rightarrow> rio_t \<Rightarrow> nat \<Rightarrow> nat \<Rightarrow> char list \<Rightarrow> int \<times> char list \<times> rio_t \<times> rd_event list" where
  "readline_loop es rp maxlen n acc =
     (if n < maxlen then
        (case rio_read es rp 1 of (rc, bs, rp', es') \<Rightarrow>
           if rc = 1 then
             (if bs = [CHR 0x0A] then (int n, acc @ bs @ [NUL], rp', es')
              else readline_loop es' rp' maxlen (n + 1) (acc @ bs))
           else if rc = 0 then
             (if n = 1 then (0, acc, rp', es') else (int n, acc @ [NUL], rp', es'))
           else (- 1, acc, rp', es'))
      else (int n, acc @ [NUL], rp, es))"
  by pat_completeness auto
termination
  by (relation "measure (\<lambda>(es, rp, maxlen, n, acc). maxlen - n)") auto

definition rio_readlineb ::
  "rd_event list \<Rightarrow> rio_t \<Rightarrow> nat \<Rightarrow> int \<times> char list \<times> rio_t \<times> rd_event list" where
  "rio_readlineb es rp maxlen = readline_loop es rp maxlen 1 []"

declare readn_loop.simps [simp del] writen_loop.simps [simp del] rio_refill.simps [simp del]
  readnb_loop.simps [simp del] readline_loop.simps [simp del]

subsection \<open>Wrappers of the robust I/O routines\<close>

definition Rio_readn :: "rd_event list \<Rightarrow> nat \<Rightarrow> (int \<times> char list \<times> rd_event list) run" where
  "Rio_readn es n =
     (case rio_readn es n of (rc, bs, es') \<Rightarrow> if rc < 0 then unix_error else Done (rc, bs, es'))"

definition Rio_writen :: "wr_event list \<Rightarrow> char list \<Rightarrow> (char list \<times> wr_event list) run" where
  "Rio_writen ws bytes =
     (case rio_writen ws bytes of (rc, sent, ws') \<Rightarrow>
        if rc \<noteq> int (length bytes) then unix_error else Done (sent, ws'))"

definition Rio_readinitb :: "char list \<Rightarrow> int \<Rightarrow> rio_t" where
  "Rio_readinitb junk fd = rio_readinitb junk fd"

definition Rio_readnb ::
  "rd_event list \<Rightarrow> rio_t \<Rightarrow> nat \<Rightarrow> (int \<times> char list \<times> rio_t \<times> rd_event list) run" where
  "Rio_readnb es rp n =
     (case rio_readnb es rp n of (rc, r) \<Rightarrow> if rc < 0 then unix_error else Done (rc, r))"

definition Rio_readlineb ::
  "rd_event list \<Rightarrow> rio_t \<Rightarrow> nat \<Rightarrow> (int \<times> char list \<times> rio_t \<times> rd_event list) run" where
  "Rio_readlineb es rp maxlen =
     (case rio_readlineb es rp maxlen of (rc, r) \<Rightarrow> if rc < 0 then unix_error else Done (rc, r))"

subsection \<open>Connection helpers\<close>

text \<open>The arguments are the results of \<open>socket\<close>, \<open>gethostbyname\<close> (found or not) and \<open>connect\<close>.\<close>

definition open_clientfd :: "int \<Rightarrow> bool \<Rightarrow> int \<Rightarrow> int" where
  "open_clientfd sock found conn =
     (if sock < 0 then - 1 else if \<not> found then - 2 else if conn < 0 then - 1 else sock)"

text \<open>The arguments are the results of \<open>socket\<close>, \<open>setsockopt\<close>, \<open>bind\<close> and \<open>listen\<close>.\<close>

definition open_listenfd :: "int \<Rightarrow> int \<Rightarrow> int \<Rightarrow> int \<Rightarrow> int" where
  "open_listenfd sock sso bnd lst =
     (if sock < 0 then - 1 else if sso < 0 then - 1 else if bnd < 0 then - 1
      else if lst < 0 then - 1 else sock)"

definition Open_clientfd :: "int \<Rightarrow> bool \<Rightarrow> int \<Rightarrow> int run" where
  "Open_clientfd sock found conn =
     (let rc = open_clientfd sock found conn in
      if rc < 0 then (if rc = - 1 then unix_error else dns_error) else Done rc)"

definition Open_listenfd :: "int \<Rightarrow> int \<Rightarrow> int \<Rightarrow> int \<Rightarrow> int run" where
  "Open_listenfd sock sso bnd lst =
     (let rc = open_listenfd sock sso bnd lst in if rc < 0 then unix_error else Done rc)"

subsection \<open>The abstract stream\<close>

definition no_err :: "rd_event list \<Rightarrow> bool" where
  "no_err es \<longleftrightarrow> RErr \<notin> set es"

fun stream :: "rd_event list \<Rightarrow> char list" where
  "stream [] = []"
| "stream (RBytes bs # es) = bs @ stream es"
| "stream (RIntr # es) = stream es"
| "stream (RErr # es) = []"

definition unread :: "rio_t \<Rightarrow> char list" where
  "unread rp = take (nat (rio_cnt rp)) (drop (rio_bufptr rp) (rio_buf rp))"

definition rio_ok :: "rio_t \<Rightarrow> bool" where
  "rio_ok rp \<longleftrightarrow> length (rio_buf rp) = RIO_BUFSIZE \<and> rio_bufptr rp + nat (rio_cnt rp) \<le> RIO_BUFSIZE"

definition avail :: "rio_t \<Rightarrow> rd_event list \<Rightarrow> char list" where
  "avail rp es = unread rp @ stream es"

text \<open>The first line of a stream, cut off after at most \<open>k\<close> bytes.\<close>

fun line_of :: "nat \<Rightarrow> char list \<Rightarrow> char list" where
  "line_of 0 s = []"
| "line_of (Suc k) [] = []"
| "line_of (Suc k) (c # s) = (if c = CHR 0x0A then [c] else c # line_of k s)"

definition ends_nl :: "char list \<Rightarrow> bool" where
  "ends_nl l \<longleftrightarrow> l \<noteq> [] \<and> last l = CHR 0x0A"

lemma no_err_simps [simp]: "no_err []" "no_err (RBytes bs # es) = no_err es"
  "no_err (RIntr # es) = no_err es" "\<not> no_err (RErr # es)"
  by (auto simp: no_err_def)

lemma sys_read_stream:
  assumes "no_err es" "0 < n" "sys_read es n = (r, es')"
  shows "no_err es' \<and> (case r of
      RFail b \<Rightarrow> b \<and> stream es' = stream es
    | RGot bs \<Rightarrow> length bs \<le> n \<and> stream es = bs @ stream es' \<and> (bs = [] \<longrightarrow> stream es = []))"
  using assms by (induction es n rule: sys_read.induct) (auto split: if_splits rd_res.splits)

lemma readn_loop_stream:
  assumes "no_err es"
  shows "\<exists>es'. readn_loop es nleft acc =
      (int (length acc + min nleft (length (stream es))), acc @ take nleft (stream es), es')
    \<and> no_err es' \<and> stream es' = drop nleft (stream es)"
  using assms
proof (induction es nleft acc rule: readn_loop.induct)
  case (1 es nleft acc)
  show ?case
  proof (cases "nleft > 0")
    case False
    then show ?thesis using "1.prems" by (simp add: readn_loop.simps)
  next
    case True
    obtain r es1 where r: "sys_read es nleft = (r, es1)" by (cases "sys_read es nleft")
    note sr = sys_read_stream [OF "1.prems" True r]
    show ?thesis
    proof (cases r)
      case (RFail b)
      then have "b" "no_err es1" "stream es1 = stream es" using sr by auto
      then show ?thesis
        using "1.IH"(2) [OF True r [symmetric] RFail] True r RFail
        by (simp add: readn_loop.simps [of es nleft acc])
    next
      case (RGot bs)
      show ?thesis
      proof (cases "bs = []")
        case True
        then show ?thesis using sr r RGot \<open>nleft > 0\<close>
          by (auto simp: readn_loop.simps [of es nleft acc])
      next
        case False
        have "readn_loop es nleft acc = readn_loop es1 (nleft - length bs) (acc @ bs)"
          using False r RGot True by (simp add: readn_loop.simps [of es nleft acc])
        moreover have "length bs \<le> nleft" "no_err es1" "stream es = bs @ stream es1"
          using sr RGot by auto
        ultimately show ?thesis
          using "1.IH"(1) [OF True r [symmetric] RGot False] by (auto simp: min_def)
      qed
    qed
  qed
qed

text \<open>A refill of the empty buffer by a read that succeeds.\<close>

lemma rio_refill_got:
  assumes "rio_ok rp" "rio_cnt rp \<le> 0" "sys_read es RIO_BUFSIZE = (RGot bs, es1)" "rio_refill es rp = (x, rp', es')"
    and bs: "length bs \<le> RIO_BUFSIZE" "no_err es1" "stream es = bs @ stream es1" "bs = [] \<Longrightarrow> stream es = []"
  shows "no_err es' \<and> rio_ok rp' \<and> avail rp' es' = avail rp es
    \<and> (x = None \<longrightarrow> 0 < rio_cnt rp') \<and> (x \<noteq> None \<longrightarrow> x = Some 0 \<and> avail rp es = [])"
proof -
  have ur: "unread rp = []" using assms(2) by (simp add: unread_def)
  show ?thesis
  proof (cases "bs = []")
    case True
    then show ?thesis using assms(1-4) bs ur
      by (auto simp: rio_refill.simps [of es rp] avail_def unread_def rio_ok_def)
  next
    case False
    then have eq: "x = None" "es' = es1" "rp' = rp\<lparr>rio_cnt := int (length bs),
        rio_buf := overlay bs (rio_buf rp), rio_bufptr := 0\<rparr>"
      using assms(2-4) by (auto simp: rio_refill.simps [of es rp])
    moreover have "rio_ok rp'" using assms(1) eq bs(1) by (simp add: rio_ok_def length_overlay)
    moreover have "unread rp' = bs" using eq by (simp add: unread_def overlay_def)
    ultimately show ?thesis using False bs(2,3) ur by (simp add: avail_def)
  qed
qed

lemma rio_refill_avail:
  assumes "no_err es" "rio_ok rp" "rio_refill es rp = (x, rp', es')"
  shows "no_err es' \<and> rio_ok rp' \<and> avail rp' es' = avail rp es
    \<and> (x = None \<longrightarrow> 0 < rio_cnt rp') \<and> (x \<noteq> None \<longrightarrow> x = Some 0 \<and> avail rp es = [])"
  using assms
proof (induction es rp arbitrary: x rp' es' rule: rio_refill.induct)
  case (1 es rp)
  show ?case
  proof (cases "rio_cnt rp \<le> 0")
    case False
    then show ?thesis using "1.prems" by (auto simp: rio_refill.simps)
  next
    case True
    obtain r es1 where r: "sys_read es RIO_BUFSIZE = (r, es1)" by (cases "sys_read es RIO_BUFSIZE")
    have pos: "0 < RIO_BUFSIZE" by (simp add: RIO_BUFSIZE_def)
    note sr = sys_read_stream [OF "1.prems"(1) pos r]
    show ?thesis
    proof (cases r)
      case (RFail b)
      then have b: "b" "no_err es1" "stream es1 = stream es" using sr by auto
      have ok: "rio_ok (rp\<lparr>rio_cnt := - 1\<rparr>)" using "1.prems"(2) by (auto simp: rio_ok_def)
      have ref: "rio_refill es1 (rp\<lparr>rio_cnt := - 1\<rparr>) = (x, rp', es')"
        using "1.prems"(3) True r RFail b(1) by (simp add: rio_refill.simps [of es rp])
      have "avail (rp\<lparr>rio_cnt := - 1\<rparr>) es1 = avail rp es"
        using b(3) True by (simp add: avail_def unread_def)
      then show ?thesis
        using "1.IH" [OF True r [symmetric] RFail _ b(2) ok ref] b(1) by auto
    next
      case (RGot bs)
      then show ?thesis using rio_refill_got [OF "1.prems"(2) True _ "1.prems"(3)] r sr by auto
    qed
  qed
qed

lemma rio_read_avail:
  assumes "no_err es" "rio_ok rp" "0 < n"
  shows "\<exists>k rp' es'. rio_read es rp n = (int k, take k (avail rp es), rp', es')
    \<and> k \<le> n \<and> k \<le> length (avail rp es) \<and> (k = 0 \<longleftrightarrow> avail rp es = [])
    \<and> no_err es' \<and> rio_ok rp' \<and> avail rp' es' = drop k (avail rp es)"
proof -
  obtain x rp1 es1 where ref: "rio_refill es rp = (x, rp1, es1)" by (cases "rio_refill es rp")
  note ra = rio_refill_avail [OF assms(1,2) ref]
  show ?thesis
  proof (cases x)
    case (Some rc)
    then show ?thesis using ra ref by (auto simp: rio_read_def)
  next
    case None
    then have c: "0 < rio_cnt rp1" "avail rp1 es1 = avail rp es" "no_err es1" "rio_ok rp1"
      using ra by auto
    define k where "k = min (nat (rio_cnt rp1)) n"
    have cnt: "(if rio_cnt rp1 < int n then rio_cnt rp1 else int n) = int k"
      using c(1) by (auto simp: k_def)
    let ?rp = "rp1\<lparr>rio_bufptr := rio_bufptr rp1 + k, rio_cnt := rio_cnt rp1 - int k\<rparr>"
    have len: "length (unread rp1) = nat (rio_cnt rp1)"
      using c(4) by (auto simp: unread_def rio_ok_def)
    have "k \<le> nat (rio_cnt rp1)" by (simp add: k_def)
    then have kl: "k \<le> length (unread rp1)" using len by simp
    have "take k (drop (rio_bufptr rp1) (rio_buf rp1)) = take k (unread rp1)"
      by (simp add: unread_def k_def min_def)
    also have "\<dots> = take k (avail rp1 es1)" using kl by (simp add: avail_def)
    also have "\<dots> = take k (avail rp es)" by (simp only: c(2))
    finally have out: "take k (drop (rio_bufptr rp1) (rio_buf rp1)) = take k (avail rp es)" .
    have "nat (rio_cnt rp1 - int k) = nat (rio_cnt rp1) - k" by (simp add: nat_diff_distrib')
    then have "unread ?rp = drop k (unread rp1)"
      by (simp add: unread_def drop_take add.commute)
    then have "avail ?rp es1 = drop k (avail rp es)"
      using kl c(2) [symmetric] by (simp add: avail_def)
    moreover have "rio_ok ?rp" using c(4) kl len by (auto simp: rio_ok_def)
    moreover have "k \<le> length (avail rp es)" using kl c(2) [symmetric] by (simp add: avail_def)
    moreover have "0 < k" using c(1) assms(3) by (simp add: k_def)
    ultimately show ?thesis
      using ref None cnt out c(3) by (auto simp: rio_read_def Let_def k_def)
  qed
qed

lemma readnb_loop_avail:
  assumes "no_err es" "rio_ok rp"
  shows "\<exists>rp' es'. readnb_loop es rp nleft acc =
      (int (length acc + min nleft (length (avail rp es))), acc @ take nleft (avail rp es), rp', es')
    \<and> no_err es' \<and> rio_ok rp' \<and> avail rp' es' = drop nleft (avail rp es)"
  using assms
proof (induction es rp nleft acc rule: readnb_loop.induct)
  case (1 es rp nleft acc)
  show ?case
  proof (cases "nleft > 0")
    case False
    then show ?thesis using "1.prems" by (simp add: readnb_loop.simps)
  next
    case True
    obtain k rp1 es1 where k: "rio_read es rp nleft = (int k, take k (avail rp es), rp1, es1)"
      "k \<le> nleft" "k \<le> length (avail rp es)" "k = 0 \<longleftrightarrow> avail rp es = []"
      "no_err es1" "rio_ok rp1" "avail rp1 es1 = drop k (avail rp es)"
      using rio_read_avail [OF "1.prems" True] by blast
    show ?thesis
    proof (cases "k = 0")
      case z: True
      then show ?thesis using True k by (auto simp: readnb_loop.simps [of es rp nleft acc])
    next
      case False
      have "readnb_loop es rp nleft acc = readnb_loop es1 rp1 (nleft - k) (acc @ take k (avail rp es))"
        using False True k(1) by (simp add: readnb_loop.simps [of es rp nleft acc])
      moreover have "take k (avail rp es) @ take (nleft - k) (drop k (avail rp es)) = take nleft (avail rp es)"
        using k(2) by (metis le_add_diff_inverse take_add)
      ultimately show ?thesis
        using "1.IH" [OF True k(1) [symmetric] refl refl _ _ k(5,6)] k False
        by (auto simp: min_def)
    qed
  qed
qed

lemma line_of_Cons: "0 < k \<Longrightarrow> line_of k (c # s) = (if c = CHR 0x0A then [c] else c # line_of (k - 1) s)"
  by (cases k) auto

lemma line_of_Nil [simp]: "line_of k [] = []"
  by (cases k) auto

lemma length_line_of: "length (line_of k s) \<le> k"
  by (induction k s rule: line_of.induct) auto

lemma line_of_prefix: "s = line_of k s @ drop (length (line_of k s)) s"
  by (induction k s rule: line_of.induct) auto

lemma readline_loop_avail:
  assumes "no_err es" "rio_ok rp" "1 \<le> n" "n \<le> maxlen"
    and "L = line_of (maxlen - n) (avail rp es)"
  shows "\<exists>rp' es'. readline_loop es rp maxlen n acc =
      (if n = 1 \<and> n < maxlen \<and> avail rp es = [] then (0, acc, rp', es')
       else (int (n + length L) - (if ends_nl L then 1 else 0), acc @ L @ [NUL], rp', es'))
    \<and> no_err es' \<and> rio_ok rp' \<and> avail rp' es' = drop (length L) (avail rp es)"
  using assms
proof (induction es rp maxlen n acc arbitrary: L rule: readline_loop.induct)
  case (1 es rp maxlen n acc)
  show ?case
  proof (cases "n < maxlen")
    case False
    then show ?thesis using "1.prems" by (simp add: readline_loop.simps ends_nl_def)
  next
    case True
    obtain k rp1 es1 where k: "rio_read es rp 1 = (int k, take k (avail rp es), rp1, es1)"
      "k \<le> 1" "k \<le> length (avail rp es)" "k = 0 \<longleftrightarrow> avail rp es = []"
      "no_err es1" "rio_ok rp1" "avail rp1 es1 = drop k (avail rp es)"
      using rio_read_avail [OF "1.prems"(1,2), of 1] by auto
    show ?thesis
    proof (cases "avail rp es")
      case Nil
      then have "k = 0" using k(4) by simp
      then show ?thesis using Nil True k "1.prems"(3,5)
        by (auto simp: readline_loop.simps [of es rp maxlen n acc] ends_nl_def)
    next
      case (Cons c s)
      then have k1: "k = 1" using k(2,4) by auto
      have rr: "rio_read es rp 1 = (1, [c], rp1, es1)" using k(1) k1 Cons by simp
      have av: "avail rp1 es1 = s" using k(7) k1 Cons by simp
      have L: "L = (if c = CHR 0x0A then [c] else c # line_of (maxlen - (n + 1)) s)"
        using "1.prems"(5) Cons True by (simp add: line_of_Cons)
      show ?thesis
      proof (cases "c = CHR 0x0A")
        case nl: True
        then show ?thesis using True rr L k(5,6) av Cons
          by (auto simp: readline_loop.simps [of es rp maxlen n acc] ends_nl_def)
      next
        case False
        have eq: "readline_loop es rp maxlen n acc = readline_loop es1 rp1 maxlen (n + 1) (acc @ [c])"
          using True False rr by (simp add: readline_loop.simps [of es rp maxlen n acc])
        have "ends_nl (c # l) = ends_nl l" for l using False by (auto simp: ends_nl_def)
        then show ?thesis
          using "1.IH" [OF True rr [symmetric] refl refl refl _ k(5,6), of "line_of (maxlen - (n + 1)) s"]
            False "1.prems"(3) True eq L Cons av by auto
      qed
    qed
  qed
qed

lemma writen_loop_sent:
  "writen_loop ws left sent = (ok, out, ws') \<Longrightarrow>
     (\<exists>k. out = sent @ take k left \<and> (ok \<longleftrightarrow> out = sent @ left))"
proof (induction ws left sent rule: writen_loop.induct)
  case (1 ws left sent)
  show ?case
  proof (cases "left = []")
    case True
    then show ?thesis using "1.prems" by (auto simp: writen_loop.simps)
  next
    case False
    then have pos: "length left > 0" by simp
    obtain r ws1 where r: "sys_write ws (length left) = (r, ws1)" by (cases "sys_write ws (length left)")
    show ?thesis
    proof (cases r)
      case (Inl b)
      show ?thesis
      proof (cases b)
        case True
        then show ?thesis
          using "1.IH"(1) [OF pos r [symmetric] Inl] "1.prems" pos r Inl
          by (simp add: writen_loop.simps [of ws left])
      next
        case nb: False
        then have "ok = False" "out = sent" using "1.prems" pos r Inl
          by (simp_all add: writen_loop.simps [of ws left])
        then show ?thesis using False by (intro exI [of _ 0]) simp
      qed
    next
      case (Inr k)
      then obtain j where "out = (sent @ take k left) @ take j (drop k left)"
        "ok \<longleftrightarrow> out = (sent @ take k left) @ drop k left"
        using "1.IH"(2) [OF pos r [symmetric] Inr] "1.prems" pos r
        by (auto simp: writen_loop.simps [of ws left])
      then show ?thesis by (intro exI [of _ "k + j"]) (simp add: take_add)
    qed
  qed
qed

lemma writen_loop_ok:
  "WFail False \<notin> set ws \<Longrightarrow> \<exists>ws'. writen_loop ws left sent = (True, sent @ left, ws') \<and> WFail False \<notin> set ws'"
proof (induction ws left sent rule: writen_loop.induct)
  case (1 ws left sent)
  show ?case
  proof (cases "left = []")
    case True
    then show ?thesis using "1.prems" by (simp add: writen_loop.simps)
  next
    case False
    then have pos: "length left > 0" by simp
    obtain r ws1 where r: "sys_write ws (length left) = (r, ws1)" by (cases "sys_write ws (length left)")
    have ws1: "WFail False \<notin> set ws1" and nf: "r \<noteq> Inl False"
      using r "1.prems" by (cases "(ws, length left)" rule: sys_write.cases; auto)+
    show ?thesis
    proof (cases r)
      case (Inl b)
      then have b: b using nf by simp
      then have "writen_loop ws left sent = writen_loop ws1 left sent"
        using pos r Inl by (simp add: writen_loop.simps [of ws left])
      then show ?thesis using "1.IH"(1) [OF pos r [symmetric] Inl b ws1] by simp
    next
      case (Inr k)
      have "writen_loop ws left sent = writen_loop ws1 (drop k left) (sent @ take k left)"
        using pos r Inr by (simp add: writen_loop.simps [of ws left])
      then show ?thesis using "1.IH"(2) [OF pos r [symmetric] Inr ws1] by simp
    qed
  qed
qed

subsection \<open>Properties of the robust I/O package\<close>

text \<open>
  C3. \<open>rio_readlineb\<close> reads exactly the next line of the stream (cut off at \<open>maxlen - 1\<close> bytes)
  and NUL-terminates it, however the kernel cuts the input into pieces and however often \<open>read\<close> is
  interrupted; what it leaves is the rest of the stream. At the end of the stream it returns 0
  and stores nothing. The returned count is the number of bytes stored only when the line ends in
  a newline: when the line was cut off, or ended with the stream, it is one more.
\<close>

theorem rio_readlineb_next_line:
  assumes "no_err es" "rio_ok rp" "1 < maxlen"
  shows "\<exists>rp' es'. rio_readlineb es rp maxlen =
      (let L = line_of (maxlen - 1) (avail rp es) in
       if L = [] then (0, [], rp', es')
       else (if ends_nl L then int (length L) else int (length L) + 1, L @ [NUL], rp', es'))
    \<and> no_err es' \<and> rio_ok rp'
    \<and> avail rp' es' = drop (length (line_of (maxlen - 1) (avail rp es))) (avail rp es)"
proof -
  have "line_of (maxlen - 1) (avail rp es) = [] \<longleftrightarrow> avail rp es = []"
    using assms(3) by (cases "avail rp es") (auto simp: line_of_Cons)
  then show ?thesis
    using readline_loop_avail [OF assms(1,2) order_refl _ refl, of maxlen "[]"] assms(3)
    by (auto simp: rio_readlineb_def Let_def)
qed

definition ex_script :: "rd_event list" where
  "ex_script = [RBytes ''GE'', RIntr, RBytes ''T / x'', RBytes [CHR 0x0A, CHR 0x41], RIntr]"

definition ex_rio :: rio_t where
  "ex_rio = rio_readinitb (replicate RIO_BUFSIZE NUL) 4"

lemma ex_rio_ok: "rio_ok ex_rio" and ex_script_avail: "avail ex_rio ex_script = ''GET / x'' @ [CHR 0x0A, CHR 0x41]"
  by (simp_all add: rio_ok_def ex_rio_def rio_readinitb_def avail_def unread_def ex_script_def)

theorem rio_readlineb_next_line_witness:
  "no_err ex_script \<and> rio_ok ex_rio \<and> (1::nat) < 100
   \<and> (\<exists>rp' es'. rio_readlineb ex_script ex_rio 100 =
        (8, ''GET / x'' @ [CHR 0x0A, NUL], rp', es') \<and> avail rp' es' = ''A'')"
proof -
  have h: "no_err ex_script" "(1::nat) < 100" by (simp_all add: ex_script_def)
  have l: "line_of 99 (avail ex_rio ex_script) = ''GET / x'' @ [CHR 0x0A]"
    unfolding ex_script_avail by (simp add: line_of_Cons)
  show ?thesis
    using rio_readlineb_next_line [OF h(1) ex_rio_ok h(2)] h ex_rio_ok l
    by (auto simp: ends_nl_def ex_script_avail)
qed

text \<open>
  \<open>rio_readnb\<close> returns the next \<open>n\<close> bytes of the stream, or all that are left, and leaves the
  rest, whatever the state of the internal buffer.
\<close>

theorem rio_readnb_take:
  assumes "no_err es" "rio_ok rp"
  shows "\<exists>rp' es'. rio_readnb es rp n =
      (int (min n (length (avail rp es))), take n (avail rp es), rp', es')
    \<and> no_err es' \<and> rio_ok rp' \<and> avail rp' es' = drop n (avail rp es)"
  using readnb_loop_avail [OF assms, of n "[]"] by (simp add: rio_readnb_def)

theorem rio_readnb_take_witness:
  "no_err ex_script \<and> rio_ok ex_rio
   \<and> (\<exists>rp' es'. rio_readnb ex_script ex_rio 3 = (3, ''GET'', rp', es'))"
proof -
  have h: "no_err ex_script" by (simp add: ex_script_def)
  show ?thesis using rio_readnb_take [OF h ex_rio_ok, of 3] h ex_rio_ok by (auto simp: ex_script_avail)
qed

text \<open>
  C5. \<open>rio_writen\<close> hands the kernel a prefix of the buffer in order, without gaps or repetitions;
  it returns the length of the buffer exactly when all of it was sent and \<open>-1\<close> otherwise; and it
  sends everything unless some \<open>write\<close> fails for another reason than a signal.
\<close>

theorem rio_writen_prefix:
  assumes "rio_writen ws bytes = (rc, sent, ws')"
  shows "(\<exists>k. sent = take k bytes) \<and> (rc = (if sent = bytes then int (length bytes) else - 1))
    \<and> (WFail False \<notin> set ws \<longrightarrow> sent = bytes)"
proof -
  obtain ok where w: "writen_loop ws bytes [] = (ok, sent, ws')"
    "rc = (if ok then int (length bytes) else - 1)"
    using assms by (auto simp: rio_writen_def split: prod.splits)
  have "WFail False \<notin> set ws \<Longrightarrow> sent = bytes"
    using writen_loop_ok [of ws bytes "[]"] w(1) by auto
  then show ?thesis using writen_loop_sent [OF w(1)] w(2) by auto
qed

theorem rio_writen_prefix_witness:
  "rio_writen [WOk 1, WFail True, WOk 0, WFail False] ''hello'' = (- 1, ''hel'', [])
   \<and> (\<exists>k. ''hel'' = take k ''hello'') \<and> ''hel'' \<noteq> ''hello''"
proof -
  have r: "rio_writen [WOk 1, WFail True, WOk 0, WFail False] ''hello'' = (- 1, ''hel'', [])"
    by (simp add: rio_writen_def writen_loop.simps)
  show ?thesis using rio_writen_prefix [OF r] r by simp
qed

end
