(* ===== verification/ReqQ.thy ===== *)
theory ReqQ
  imports OS_Prelude
begin

section \<open>The request queue of the web server (OS_HW3/reqQ.c)\<close>

text \<open>
  A bounded FIFO of connection descriptors as a doubly linked list of malloc-ed nodes. The model
  keeps the nodes in a heap \<open>req_heap\<close>, follows the source's pointer assignments one by one and is
  undefined (\<^const>\<open>None\<close>) where the C code would dereference NULL or a freed node, or overflow
  \<open>cur_size\<close>. The result of a \<open>malloc\<close> call is an argument: \<^const>\<open>None\<close> for NULL, otherwise an
  address together with the indeterminate contents of the new node, so that the field \<open>previous\<close>,
  which \<open>createRequest\<close> does not initialise, really is arbitrary.

  The representation predicate \<open>q_rep\<close> relates a queue to the list of its nodes; the locale
  \<open>fifo_queue\<close> states what the clients of the queue rely on.
\<close>

subsection \<open>Data\<close>

record timeval =
  tv_sec :: int
  tv_usec :: int

text \<open>
  A \<open>struct timeval *\<close> is malloc-ed, filled once by \<open>gettimeofday\<close> and never written again, so the
  model stores the value (or \<^const>\<open>None\<close> for NULL) instead of the pointer.
\<close>

type_synonym Req = "addr option"

record req =
  insertion_time :: "timeval option"
  data :: int
  next_req :: Req
  previous :: Req

type_synonym req_heap = "req heap"

record req_q =
  max_size :: int
  cur_size :: int
  head :: Req
  tail :: Req

type_synonym ReqQ = "req_q option"

text \<open>What one call of \<open>malloc(sizeof(struct req))\<close> returned.\<close>

type_synonym malloc_req = "(addr \<times> req) option"

definition malloc_fresh :: "req_heap \<Rightarrow> malloc_req \<Rightarrow> bool" where
  "malloc_fresh h mal \<longleftrightarrow> (case mal of None \<Rightarrow> False | Some (a, junk) \<Rightarrow> h a = None)"

subsection \<open>Creation\<close>

definition createRequest :: "malloc_req \<Rightarrow> req_heap \<Rightarrow> int \<Rightarrow> Req \<times> req_heap" where
  "createRequest mal h fd =
     (case mal of
        None \<Rightarrow> (None, h)
      | Some (a, junk) \<Rightarrow> (Some a, h(a \<mapsto> junk\<lparr>data := fd, next_req := None\<rparr>)))"

text \<open>\<open>ok\<close> tells whether \<open>malloc\<close> succeeded.\<close>

definition createReqQueue :: "bool \<Rightarrow> int \<Rightarrow> ReqQ" where
  "createReqQueue ok limit =
     (if \<not> ok then None
      else Some \<lparr>max_size = limit, cur_size = 0, head = None, tail = None\<rparr>)"

subsection \<open>Size related functions\<close>

definition isQnull :: "ReqQ \<Rightarrow> bool" where
  "isQnull cur_q = (cur_q = None)"

definition isQfull :: "ReqQ \<Rightarrow> bool" where
  "isQfull cur_q =
     (case cur_q of None \<Rightarrow> False | Some c \<Rightarrow> cur_size c = max_size c)"

definition isQempty :: "ReqQ \<Rightarrow> bool" where
  "isQempty cur_q = (case cur_q of None \<Rightarrow> True | Some c \<Rightarrow> cur_size c = 0)"

definition getQsize :: "ReqQ \<Rightarrow> int" where
  "getQsize cur_q = (case cur_q of None \<Rightarrow> - 1 | Some c \<Rightarrow> cur_size c)"

definition incSize :: "ReqQ \<Rightarrow> ReqQ option" where
  "incSize cur_q =
     (case cur_q of
        None \<Rightarrow> Some None
      | Some c \<Rightarrow> do { n \<leftarrow> cint (cur_size c + 1); Some (Some (c\<lparr>cur_size := n\<rparr>)) })"

definition decSize :: "ReqQ \<Rightarrow> ReqQ option" where
  "decSize cur_q =
     (case cur_q of
        None \<Rightarrow> Some None
      | Some c \<Rightarrow> do { n \<leftarrow> cint (cur_size c - 1); Some (Some (c\<lparr>cur_size := n\<rparr>)) })"

subsection \<open>Insert and remove\<close>

definition insertReq ::
  "malloc_req \<Rightarrow> req_heap \<Rightarrow> ReqQ \<Rightarrow> int \<Rightarrow> timeval option \<Rightarrow> (req_heap \<times> ReqQ) option" where
  "insertReq mal h cur_q file_id tt =
     (case cur_q of
        None \<Rightarrow> Some (h, cur_q)
      | Some c \<Rightarrow>
          if isQfull cur_q then Some (h, cur_q)
          else let (r, h1) = createRequest mal h file_id in
            do {
              h2 \<leftarrow> upd h1 r (\<lambda>n. n\<lparr>insertion_time := tt\<rparr>);
              if isQempty cur_q then
                do { q1 \<leftarrow> incSize (Some (c\<lparr>head := r, tail := r\<rparr>)); Some (h2, q1) }
              else
                do {
                  h3 \<leftarrow> upd h2 (tail c) (\<lambda>n. n\<lparr>next_req := r\<rparr>);
                  h4 \<leftarrow> upd h3 r (\<lambda>n. n\<lparr>previous := tail c\<rparr>);
                  q1 \<leftarrow> incSize (Some (c\<lparr>tail := r\<rparr>));
                  Some (h4, q1)
                }
            })"

definition removeFirstReq :: "req_heap \<Rightarrow> ReqQ \<Rightarrow> (int \<times> req_heap \<times> ReqQ) option" where
  "removeFirstReq h cur_q =
     (case cur_q of
        None \<Rightarrow> Some (- 1, h, cur_q)
      | Some c \<Rightarrow>
          if isQempty cur_q then Some (- 1, h, cur_q)
          else do {
            hr \<leftarrow> rd h (head c);
            if cur_size c = 1 then
              do {
                h1 \<leftarrow> free h (head c);
                q1 \<leftarrow> decSize (Some (c\<lparr>head := None, tail := None\<rparr>));
                Some (data hr, h1, q1)
              }
            else
              do {
                h1 \<leftarrow> free h (head c);
                h2 \<leftarrow> upd h1 (next_req hr) (\<lambda>n. n\<lparr>previous := None\<rparr>);
                q1 \<leftarrow> decSize (Some (c\<lparr>head := next_req hr\<rparr>));
                Some (data hr, h2, q1)
              }
          })"

text \<open>The loop \<open>for (i = 0; i < index; i++) tmp = tmp->next\<close>.\<close>

fun walk :: "req_heap \<Rightarrow> Req \<Rightarrow> nat \<Rightarrow> Req option" where
  "walk h tmp 0 = Some tmp"
| "walk h tmp (Suc n) = do { r \<leftarrow> rd h tmp; walk h (next_req r) n }"

definition removeReq :: "req_heap \<Rightarrow> ReqQ \<Rightarrow> int \<Rightarrow> (int \<times> req_heap \<times> ReqQ) option" where
  "removeReq h cur_q index =
     (case cur_q of
        None \<Rightarrow> Some (- 1, h, cur_q)
      | Some c \<Rightarrow>
          if isQempty cur_q then Some (- 1, h, cur_q)
          else if getQsize cur_q = - 1 then Some (- 1, h, cur_q)
          else if index < 0 \<or> index \<ge> getQsize cur_q then Some (- 1, h, cur_q)
          else if index = 0 then removeFirstReq h cur_q
          else do {
            tmp \<leftarrow> walk h (head c) (nat index);
            tr \<leftarrow> rd h tmp;
            if previous tr = None then removeFirstReq h cur_q
            else do {
              h1 \<leftarrow> upd h (previous tr) (\<lambda>n. n\<lparr>next_req := next_req tr\<rparr>);
              h2 \<leftarrow> (if next_req tr \<noteq> None
                     then upd h1 (next_req tr) (\<lambda>n. n\<lparr>previous := previous tr\<rparr>)
                     else Some h1);
              h3 \<leftarrow> free h2 tmp;
              q1 \<leftarrow> decSize (Some (if index \<ge> getQsize cur_q - 1
                                   then c\<lparr>tail := previous tr\<rparr> else c));
              Some (data tr, h3, q1)
            }
          })"

subsection \<open>Search and time\<close>

text \<open>The loop of \<open>findFileId\<close>; \<open>n\<close> iterations are left and \<open>i\<close> are done.\<close>

fun find_loop :: "req_heap \<Rightarrow> Req \<Rightarrow> int \<Rightarrow> nat \<Rightarrow> int \<Rightarrow> int option" where
  "find_loop h tmp i 0 file_id = Some (- 1)"
| "find_loop h tmp i (Suc n) file_id =
     do { r \<leftarrow> rd h tmp;
          if file_id = data r then Some i
          else find_loop h (next_req r) (i + 1) n file_id }"

definition findFileId :: "req_heap \<Rightarrow> ReqQ \<Rightarrow> int \<Rightarrow> int option" where
  "findFileId h cur_q file_id =
     (case cur_q of
        None \<Rightarrow> Some (- 1)
      | Some c \<Rightarrow>
          if isQempty cur_q then Some (- 1)
          else if getQsize cur_q = - 1 \<or> getQsize cur_q = 0 then Some (- 1)
          else find_loop h (head c) 0 (nat (getQsize cur_q)) file_id)"

definition getFirstReqTime :: "req_heap \<Rightarrow> ReqQ \<Rightarrow> timeval option option" where
  "getFirstReqTime h cur_q =
     (case cur_q of
        None \<Rightarrow> Some None
      | Some c \<Rightarrow>
          if isQempty cur_q then Some None
          else if head c = None then Some None
          else do { r \<leftarrow> rd h (head c); Some (insertion_time r) })"

fun time_loop :: "req_heap \<Rightarrow> Req \<Rightarrow> nat \<Rightarrow> int \<Rightarrow> timeval option option" where
  "time_loop h tmp 0 fd = Some None"
| "time_loop h tmp (Suc n) fd =
     do { r \<leftarrow> rd h tmp;
          if fd = data r then Some (insertion_time r)
          else time_loop h (next_req r) n fd }"

definition getReqTime :: "req_heap \<Rightarrow> ReqQ \<Rightarrow> int \<Rightarrow> timeval option option" where
  "getReqTime h cur_q fd =
     (case cur_q of
        None \<Rightarrow> Some None
      | Some c \<Rightarrow>
          if isQempty cur_q then Some None
          else if getQsize cur_q = - 1 then Some None
          else time_loop h (head c) (nat (getQsize cur_q)) fd)"

subsection \<open>Representation\<close>

text \<open>A node of the list: its address, descriptor and insertion time.\<close>

type_synonym qnode = "addr \<times> int \<times> timeval option"

type_synonym entry = "int \<times> timeval option"

fun first_addr :: "qnode list \<Rightarrow> Req \<Rightarrow> Req" where
  "first_addr [] p = p"
| "first_addr ((a, _) # _) p = Some a"

fun last_addr :: "Req \<Rightarrow> qnode list \<Rightarrow> Req" where
  "last_addr p [] = p"
| "last_addr p ((a, _) # ns) = last_addr (Some a) ns"

text \<open>
  \<open>linked h p ns q\<close>: the nodes \<open>ns\<close> lie in \<open>h\<close>, their \<open>next\<close> fields chain them up to \<open>q\<close> and their
  \<open>previous\<close> fields chain them back to \<open>p\<close>. With \<open>p = None\<close> the first \<open>previous\<close> is arbitrary, as
  the code leaves it.
\<close>

fun linked :: "req_heap \<Rightarrow> Req \<Rightarrow> qnode list \<Rightarrow> Req \<Rightarrow> bool" where
  "linked h p [] q = True"
| "linked h p ((a, d, t) # ns) q =
     ((\<exists>r. h a = Some r \<and> data r = d \<and> insertion_time r = t \<and> next_req r = first_addr ns q
        \<and> (p \<noteq> None \<longrightarrow> previous r = p))
      \<and> linked h (Some a) ns q)"

abbreviation addrs :: "qnode list \<Rightarrow> addr list" where
  "addrs ns \<equiv> map fst ns"

definition q_rep :: "req_heap \<Rightarrow> ReqQ \<Rightarrow> int \<Rightarrow> qnode list \<Rightarrow> bool" where
  "q_rep h cur_q cap ns \<longleftrightarrow>
     (\<exists>c. cur_q = Some c \<and> distinct (addrs ns) \<and> linked h None ns None
        \<and> head c = first_addr ns None \<and> tail c = last_addr None ns
        \<and> cur_size c = int (length ns) \<and> max_size c = cap
        \<and> int (length ns) \<le> cap \<and> in_int cap)"

text \<open>The abstract search: the position of the first entry with a given descriptor.\<close>

fun fd_index :: "entry list \<Rightarrow> int \<Rightarrow> nat option" where
  "fd_index [] fd = None"
| "fd_index ((d, t) # xs) fd = (if d = fd then Some 0 else map_option Suc (fd_index xs fd))"

subsection \<open>Runs of queue operations and their abstract counterpart\<close>

datatype qop = Insert malloc_req int "timeval option" | RemoveFirst | Remove int | Find int | Size

fun q_step :: "qop \<Rightarrow> req_heap \<times> ReqQ \<Rightarrow> (int \<times> req_heap \<times> ReqQ) option" where
  "q_step (Insert m fd t) s = do { s' \<leftarrow> insertReq m (fst s) (snd s) fd t; Some (0, s') }"
| "q_step RemoveFirst s = removeFirstReq (fst s) (snd s)"
| "q_step (Remove i) s = removeReq (fst s) (snd s) i"
| "q_step (Find fd) s = do { i \<leftarrow> findFileId (fst s) (snd s) fd; Some (i, s) }"
| "q_step Size s = Some (getQsize (snd s), s)"

fun q_run :: "qop list \<Rightarrow> req_heap \<times> ReqQ \<Rightarrow> (int list \<times> req_heap \<times> ReqQ) option" where
  "q_run [] s = Some ([], s)"
| "q_run (x # xs) s =
     do { (r, s') \<leftarrow> q_step x s; (rs, s'') \<leftarrow> q_run xs s'; Some (r # rs, s'') }"

text \<open>The bounded FIFO the queue is meant to be.\<close>

fun a_step :: "int \<Rightarrow> qop \<Rightarrow> entry list \<Rightarrow> int \<times> entry list" where
  "a_step cap (Insert m fd t) xs = (0, if int (length xs) < cap then xs @ [(fd, t)] else xs)"
| "a_step cap RemoveFirst xs = (case xs of [] \<Rightarrow> (- 1, []) | (d, t) # ys \<Rightarrow> (d, ys))"
| "a_step cap (Remove i) xs =
     (if i < 0 \<or> int (length xs) \<le> i then (- 1, xs)
      else (fst (xs ! nat i), take (nat i) xs @ drop (Suc (nat i)) xs))"
| "a_step cap (Find fd) xs = (case fd_index xs fd of None \<Rightarrow> - 1 | Some j \<Rightarrow> int j, xs)"
| "a_step cap Size xs = (int (length xs), xs)"

fun a_run :: "int \<Rightarrow> qop list \<Rightarrow> entry list \<Rightarrow> int list \<times> entry list" where
  "a_run cap [] xs = ([], xs)"
| "a_run cap (x # ops) xs =
     (let (r, ys) = a_step cap x xs; (rs, zs) = a_run cap ops ys in (r # rs, zs))"

text \<open>Every \<open>malloc\<close> of the run returns an address that is free at that moment.\<close>

fun mallocs_ok :: "qop list \<Rightarrow> req_heap \<times> ReqQ \<Rightarrow> bool" where
  "mallocs_ok [] s = True"
| "mallocs_ok (x # xs) s =
     ((case x of Insert m fd t \<Rightarrow> malloc_fresh (fst s) m | _ \<Rightarrow> True)
      \<and> (case q_step x s of None \<Rightarrow> True | Some (r, s') \<Rightarrow> mallocs_ok xs s'))"

subsection \<open>Ownership of cells\<close>

text \<open>Which cells an operation may have changed.\<close>

definition keeps :: "req_heap \<Rightarrow> req_heap \<Rightarrow> addr set \<Rightarrow> bool" where
  "keeps h h' A \<longleftrightarrow> (\<forall>b. b \<notin> A \<longrightarrow> h' b = h b)"

subsection \<open>Linked lists on the heap\<close>

lemma first_addr_append [simp]: "first_addr (xs @ ys) q = first_addr xs (first_addr ys q)"
  by (cases xs) auto

lemma last_addr_append [simp]: "last_addr p (xs @ ys) = last_addr (last_addr p xs) ys"
  by (induction p xs rule: last_addr.induct) auto

lemma linked_append [simp]:
  "linked h p (xs @ ys) q \<longleftrightarrow>
     linked h p xs (first_addr ys q) \<and> linked h (last_addr p xs) ys q"
  by (induction h p xs q rule: linked.induct) auto

lemma linked_frame [simp]:
  "a \<notin> set (addrs ns) \<Longrightarrow> linked (h(a := v)) p ns q = linked h p ns q"
  by (induction h p ns q rule: linked.induct) auto

lemma linked_keeps:
  "linked h p ns q \<Longrightarrow> keeps h h' A \<Longrightarrow> A \<inter> set (addrs ns) = {} \<Longrightarrow> linked h' p ns q"
  by (induction h p ns q rule: linked.induct) (auto simp: keeps_def)

lemma linked_weaken: "linked h p ns q \<Longrightarrow> linked h None ns q"
  by (cases ns) auto

lemma linked_dom: "linked h p ns q \<Longrightarrow> set (addrs ns) \<subseteq> dom h"
  by (induction h p ns q rule: linked.induct) auto

lemma linked_set_next:
  assumes "linked h p (xs @ [(b, d, t)]) q" "distinct (addrs (xs @ [(b, d, t)]))" "h b = Some r"
  shows "linked (h(b \<mapsto> r\<lparr>next_req := q'\<rparr>)) p (xs @ [(b, d, t)]) q'"
  using assms by auto

lemma linked_set_prev:
  assumes "linked h p ((b, d, t) # ys) q" "b \<notin> set (addrs ys)" "h b = Some r"
  shows "linked (h(b \<mapsto> r\<lparr>previous := p'\<rparr>)) p' ((b, d, t) # ys) q"
  using assms by auto

lemma linked_walk:
  "linked h p (xs @ ys) q \<Longrightarrow> walk h (first_addr (xs @ ys) q) (length xs) = Some (first_addr ys q)"
  by (induction xs arbitrary: p) (auto simp: rd_Some)

lemma linked_find_loop:
  assumes "linked h p ns q"
  shows "find_loop h (first_addr ns q) i (length ns) fd =
    Some (case fd_index (map snd ns) fd of None \<Rightarrow> - 1 | Some j \<Rightarrow> i + int j)"
  using assms
  by (induction ns arbitrary: p i) (auto simp: rd_Some split: option.split)

lemma linked_time_loop:
  assumes "linked h p ns q"
  shows "time_loop h (first_addr ns q) (length ns) fd = Some (case find (\<lambda>n. fst (snd n) = fd) ns of
    None \<Rightarrow> None | Some n \<Rightarrow> snd (snd n))"
  using assms by (induction ns arbitrary: p) (auto simp: rd_Some)

lemma in_int_mono: "in_int c \<Longrightarrow> 0 \<le> x \<Longrightarrow> x \<le> c \<Longrightarrow> in_int x"
  by (auto simp: in_int_def INT_MAX_def)

lemmas q_simps = isQnull_def isQfull_def isQempty_def getQsize_def incSize_def decSize_def

subsection \<open>Correctness of the operations\<close>

lemma q_repE:
  assumes "q_rep h cur_q cap ns"
  obtains c where "cur_q = Some c" "distinct (addrs ns)" "linked h None ns None"
    "head c = first_addr ns None" "tail c = last_addr None ns"
    "cur_size c = int (length ns)" "max_size c = cap" "int (length ns) \<le> cap" "in_int cap"
  using assms unfolding q_rep_def by blast

lemma q_rep_keeps:
  "q_rep h q cap ns \<Longrightarrow> keeps h h' A \<Longrightarrow> A \<inter> set (addrs ns) = {} \<Longrightarrow> q_rep h' q cap ns"
  unfolding q_rep_def by (blast intro: linked_keeps)

lemma q_rep_dom: "q_rep h q cap ns \<Longrightarrow> set (addrs ns) \<subseteq> dom h"
  by (elim q_repE) (rule linked_dom)

lemma createReqQueue_rep: "0 \<le> limit \<Longrightarrow> in_int limit \<Longrightarrow> q_rep h (createReqQueue True limit) limit []"
  by (simp add: q_rep_def createReqQueue_def)

lemma insertReq_ok:
  assumes rep: "q_rep h cur_q cap ns" and fresh: "h a = None" and room: "int (length ns) < cap"
  shows "\<exists>h' q'. insertReq (Some (a, junk)) h cur_q fd t = Some (h', q')
    \<and> q_rep h' q' cap (ns @ [(a, fd, t)])
    \<and> dom h' = insert a (dom h) \<and> keeps h h' (insert a (set (addrs ns)))"
proof -
  obtain c where c: "cur_q = Some c" "distinct (addrs ns)" "linked h None ns None"
    "head c = first_addr ns None" "tail c = last_addr None ns"
    "cur_size c = int (length ns)" "max_size c = cap" "int (length ns) \<le> cap" "in_int cap"
    using rep by (rule q_repE)
  have anew: "a \<notin> set (addrs ns)" using linked_dom [OF c(3)] fresh by blast
  have int: "in_int (int (length ns) + 1)" using room c(9) by (auto intro: in_int_mono)
  show ?thesis
  proof (cases ns rule: rev_cases)
    case Nil
    then show ?thesis using c room int
      by (auto simp: insertReq_def createRequest_def q_simps q_rep_def cint_eq keeps_def)
  next
    case (snoc ms n)
    obtain b d s where n: "n = (b, d, s)" by (cases n) auto
    have ns: "ns = ms @ [(b, d, s)]" using snoc n by simp
    obtain r where r: "h b = Some r" using c(3) ns by auto
    have ab: "a \<noteq> b" using anew ns by auto
    let ?a = "junk\<lparr>data := fd, next_req := None, insertion_time := t, previous := Some b\<rparr>"
    let ?h = "h(a \<mapsto> junk\<lparr>data := fd, next_req := None, insertion_time := t\<rparr>,
                b \<mapsto> r\<lparr>next_req := Some a\<rparr>, a \<mapsto> ?a)"
    have ins: "insertReq (Some (a, junk)) h cur_q fd t =
        Some (?h, Some (c\<lparr>tail := Some a, cur_size := int (length ns) + 1\<rparr>))"
      using c room int ns r ab
      by (simp add: insertReq_def createRequest_def q_simps cint_eq)
    have "linked (h(b \<mapsto> r\<lparr>next_req := Some a\<rparr>)) None ns (Some a)"
      using linked_set_next [of h None ms b d s None r "Some a"] c(2,3) ns r by simp
    moreover have heq: "?h = h(b \<mapsto> r\<lparr>next_req := Some a\<rparr>, a \<mapsto> ?a)"
      using ab by (auto simp: fun_eq_iff)
    ultimately have "linked ?h None (ns @ [(a, fd, t)]) None"
      using anew ns by (simp add: heq)
    moreover have "dom ?h = insert a (dom h)" using r by (auto split: if_splits)
    ultimately show ?thesis
      using ins c room anew ns by (auto simp: q_rep_def keeps_def)
  qed
qed

lemma insertReq_full:
  assumes "q_rep h cur_q cap ns" "int (length ns) = cap"
  shows "insertReq mal h cur_q fd t = Some (h, cur_q)"
  using assms by (auto elim!: q_repE simp: insertReq_def q_simps)

lemma removeFirstReq_empty:
  "q_rep h cur_q cap [] \<Longrightarrow> removeFirstReq h cur_q = Some (- 1, h, cur_q)"
  by (auto elim!: q_repE simp: removeFirstReq_def q_simps)

lemma removeFirstReq_ok:
  assumes rep: "q_rep h cur_q cap ((a, d, t) # ns)"
  shows "\<exists>h' q'. removeFirstReq h cur_q = Some (d, h', q') \<and> q_rep h' q' cap ns
    \<and> dom h' = dom h - {a} \<and> keeps h h' (set (addrs ((a, d, t) # ns)))"
proof -
  obtain c where c: "cur_q = Some c" "distinct (addrs ((a, d, t) # ns))"
    "linked h None ((a, d, t) # ns) None"
    "head c = Some a" "tail c = last_addr None ((a, d, t) # ns)"
    "cur_size c = int (length ns) + 1" "max_size c = cap" "int (length ns) + 1 \<le> cap" "in_int cap"
    using rep by (elim q_repE) auto
  obtain r where r: "h a = Some r" "data r = d" "next_req r = first_addr ns None"
    using c(3) by auto
  have int: "in_int (int (length ns))" using c(8,9) by (auto intro: in_int_mono)
  show ?thesis
  proof (cases ns)
    case Nil
    then show ?thesis using c r int
      by (auto simp: removeFirstReq_def q_simps q_rep_def cint_eq keeps_def)
  next
    case (Cons n ms)
    obtain b e s where n: "n = (b, e, s)" by (cases n) auto
    have ns: "ns = (b, e, s) # ms" using Cons n by simp
    obtain rb where rb: "h b = Some rb" using c(3) ns by auto
    have ab: "a \<noteq> b" "a \<notin> set (addrs ms)" "b \<notin> set (addrs ms)" using c(2) ns by auto
    let ?h = "h(a := None, b \<mapsto> rb\<lparr>previous := None\<rparr>)"
    have rem: "removeFirstReq h cur_q =
        Some (d, ?h, Some (c\<lparr>head := Some b, cur_size := int (length ns)\<rparr>))"
      using c r rb ab int ns by (simp add: removeFirstReq_def q_simps cint_eq)
    have "linked (h(a := None)) (Some a) ns None"
      using c(2,3) by auto
    then have "linked ?h None ns None"
      using linked_set_prev [of "h(a := None)" "Some a" b e s ms None rb None] ns rb ab by simp
    moreover have "dom ?h = dom h - {a}" using rb ab by (auto split: if_splits)
    ultimately show ?thesis
      using rem c ns by (auto simp: q_rep_def keeps_def)
  qed
qed

lemma removeReq_bad_index:
  assumes "q_rep h cur_q cap ns" "i < 0 \<or> int (length ns) \<le> i"
  shows "removeReq h cur_q i = Some (- 1, h, cur_q)"
  using assms by (auto elim!: q_repE simp: removeReq_def q_simps)

text \<open>An entry that has a predecessor.\<close>

lemma removeReq_facts:
  assumes "q_rep h cur_q cap (xs @ (a, d, t) # ys)" "xs = zs @ [(b, e, s)]"
  obtains c r rb where "cur_q = Some c" "cur_size c = int (Suc (length xs + length ys))"
    "q_rep h (Some c) cap (xs @ (a, d, t) # ys)" "walk h (head c) (length xs) = Some (Some a)"
    "h a = Some r" "data r = d" "next_req r = first_addr ys None" "previous r = Some b" "h b = Some rb" "a \<noteq> b"
    "in_int (int (length xs + length ys))"
    "linked (h(b \<mapsto> rb\<lparr>next_req := first_addr ys None\<rparr>)) None xs (first_addr ys None)"
proof -
  let ?ns = "xs @ (a, d, t) # ys"
  obtain c where c: "cur_q = Some c" "distinct (addrs ?ns)" "linked h None ?ns None"
    "head c = first_addr ?ns None" "tail c = last_addr None ?ns"
    "cur_size c = int (length ?ns)" "max_size c = cap" "int (length ?ns) \<le> cap" "in_int cap"
    using assms(1) by (elim q_repE)
  obtain r rb where r: "h a = Some r" "data r = d" "next_req r = first_addr ys None" "previous r = Some b" "h b = Some rb"
    using c(3) assms(2) by auto
  have walk: "walk h (head c) (length xs) = Some (Some a)" using linked_walk [OF c(3)] c(4) by simp
  have int: "in_int (int (length xs + length ys))" using c(8,9) by (auto intro: in_int_mono)
  have lx: "linked (h(b \<mapsto> rb\<lparr>next_req := first_addr ys None\<rparr>)) None xs (first_addr ys None)"
    using linked_set_next [of h None zs b e s "Some a" rb] c(2,3) assms(2) r(5) by simp
  have "a \<noteq> b" using c(2) assms(2) by auto
  then show thesis using that [OF c(1) _ _ walk r _ int lx] c(1,6) assms(1) by simp
qed

lemma removeReq_last:
  assumes rep: "q_rep h cur_q cap (xs @ [(a, d, t)])" and xs: "xs = zs @ [(b, e, s)]"
  shows "\<exists>h' q'. removeReq h cur_q (int (length xs)) = Some (d, h', q') \<and> q_rep h' q' cap xs
    \<and> dom h' = dom h - {a} \<and> keeps h h' (set (addrs (xs @ [(a, d, t)])))"
proof -
  obtain c r rb where c: "cur_q = Some c" "cur_size c = int (Suc (length xs + length ([] :: qnode list)))"
    "q_rep h (Some c) cap (xs @ [(a, d, t)])" "walk h (head c) (length xs) = Some (Some a)"
    and r: "h a = Some r" "data r = d" "next_req r = first_addr [] None" "previous r = Some b" "h b = Some rb" "a \<noteq> b"
    and i: "in_int (int (length xs + length ([] :: qnode list)))"
    and lx: "linked (h(b \<mapsto> rb\<lparr>next_req := first_addr [] None\<rparr>)) None xs (first_addr [] None)"
    using removeReq_facts [OF rep xs] .
  have ne: "xs \<noteq> []" using xs by simp
  let ?h = "h(b \<mapsto> rb\<lparr>next_req := None\<rparr>, a := None)"
  have "removeReq h cur_q (int (length xs)) = Some (d, ?h, Some (c\<lparr>tail := Some b, cur_size := int (length xs)\<rparr>))"
    using c(1,2,4) r i ne by (simp add: removeReq_def q_simps cint_eq)
  moreover have "linked ?h None xs None" using lx c(3) by (auto simp: q_rep_def)
  ultimately show ?thesis using c(3) r xs by (auto simp: q_rep_def keeps_def split: if_splits)
qed

lemma removeReq_between:
  assumes rep: "q_rep h cur_q cap (xs @ (a, d, t) # ys)" and xs: "xs = zs @ [(b, e, s)]" and ys: "ys = (g, f, u) # ms"
  shows "\<exists>h' q'. removeReq h cur_q (int (length xs)) = Some (d, h', q') \<and> q_rep h' q' cap (xs @ ys)
    \<and> dom h' = dom h - {a} \<and> keeps h h' (set (addrs (xs @ (a, d, t) # ys)))"
proof -
  let ?ns = "xs @ (a, d, t) # ys"
  obtain c r rb where c: "cur_q = Some c" "cur_size c = int (Suc (length xs + length ys))"
    "q_rep h (Some c) cap ?ns" "walk h (head c) (length xs) = Some (Some a)"
    and r: "h a = Some r" "data r = d" "next_req r = first_addr ys None" "previous r = Some b" "h b = Some rb" "a \<noteq> b"
    and i: "in_int (int (length xs + length ys))"
    and lx: "linked (h(b \<mapsto> rb\<lparr>next_req := first_addr ys None\<rparr>)) None xs (first_addr ys None)"
    using removeReq_facts [OF rep xs] .
  have l: "linked h None ?ns None" "distinct (addrs ?ns)" using c(3) unfolding q_rep_def by blast+
  obtain rg where rg: "h g = Some rg" using l(1) ys by auto
  have dist: "g \<noteq> a" "g \<noteq> b" "g \<notin> set (addrs ms)" "b \<notin> set (addrs ms)" "a \<notin> set (addrs ms)"
    "g \<notin> set (addrs zs)" "a \<notin> set (addrs zs)"
    using l(2) xs ys by auto
  let ?h = "h(b \<mapsto> rb\<lparr>next_req := Some g\<rparr>, g \<mapsto> rg\<lparr>previous := Some b\<rparr>, a := None)"
    and ?c = "c\<lparr>cur_size := int (length xs + length ys)\<rparr>"
  have ne: "xs \<noteq> []" using xs by simp
  have rem: "removeReq h cur_q (int (length xs)) = Some (d, ?h, Some ?c)"
    using c(1,2,4) r rg i ys ne dist by (simp add: removeReq_def q_simps cint_eq)
  have "linked ?h None xs (Some g)" using lx ys xs dist r(6) by simp
  moreover have "linked ?h (Some b) ys None"
    using linked_set_prev [of "h(b \<mapsto> rb\<lparr>next_req := Some g\<rparr>, a := None)" "Some a" g f u ms None rg "Some b"]
      l(1) ys dist rg by (simp add: fun_upd_twist)
  ultimately have "linked ?h None (xs @ ys) None" using xs ys by simp
  then have "q_rep ?h (Some ?c) cap (xs @ ys)" using c(3) xs ys by (auto simp: q_rep_def)
  moreover have "dom ?h = dom h - {a}" using r rg dist by (auto split: if_splits)
  moreover have "keeps h ?h (set (addrs ?ns))" using xs ys by (auto simp: keeps_def)
  ultimately show ?thesis using rem by blast
qed

lemma removeReq_ok:
  assumes rep: "q_rep h cur_q cap (xs @ (a, d, t) # ys)"
  shows "\<exists>h' q'. removeReq h cur_q (int (length xs)) = Some (d, h', q') \<and> q_rep h' q' cap (xs @ ys)
    \<and> dom h' = dom h - {a} \<and> keeps h h' (set (addrs (xs @ (a, d, t) # ys)))"
proof (cases xs rule: rev_cases)
  case Nil
  have "removeReq h cur_q 0 = removeFirstReq h cur_q"
    using rep by (auto elim!: q_repE simp: removeReq_def q_simps)
  then show ?thesis using removeFirstReq_ok [of h cur_q cap a d t ys] rep Nil by simp
next
  case (snoc zs n)
  obtain b e s where n: "n = (b, e, s)" by (cases n) auto
  show ?thesis
  proof (cases ys)
    case Nil
    then show ?thesis using removeReq_last [of h cur_q cap xs a d t] rep snoc n by simp
  next
    case (Cons m ms)
    obtain g f u where "m = (g, f, u)" by (cases m) auto
    then show ?thesis using removeReq_between [OF rep] snoc n Cons by simp
  qed
qed

lemma findFileId_ok:
  assumes "q_rep h cur_q cap ns"
  shows "findFileId h cur_q fd =
    Some (case fd_index (map snd ns) fd of None \<Rightarrow> - 1 | Some j \<Rightarrow> int j)"
  using assms
proof (rule q_repE)
  fix c assume c: "cur_q = Some c" "linked h None ns None" "head c = first_addr ns None"
    "cur_size c = int (length ns)"
  then show ?thesis
    using linked_find_loop [OF c(2), of 0 fd]
    by (auto simp: findFileId_def q_simps split: option.split)
qed

lemma getFirstReqTime_ok:
  assumes "q_rep h cur_q cap ns"
  shows "getFirstReqTime h cur_q = Some (case ns of [] \<Rightarrow> None | n # _ \<Rightarrow> snd (snd n))"
  using assms
  by (auto elim!: q_repE simp: getFirstReqTime_def q_simps split: list.split)

lemma getReqTime_ok:
  assumes "q_rep h cur_q cap ns"
  shows "getReqTime h cur_q fd = Some (case find (\<lambda>n. fst (snd n) = fd) ns of
    None \<Rightarrow> None | Some n \<Rightarrow> snd (snd n))"
  using assms
  by (auto elim!: q_repE simp: getReqTime_def q_simps dest!: linked_time_loop)

lemma getQsize_ok: "q_rep h cur_q cap ns \<Longrightarrow> getQsize cur_q = int (length ns)"
  by (auto elim!: q_repE simp: q_simps)

lemma isQempty_ok: "q_rep h cur_q cap ns \<Longrightarrow> isQempty cur_q \<longleftrightarrow> ns = []"
  by (auto elim!: q_repE simp: q_simps)

lemma fd_index_SomeD: "fd_index xs fd = Some j \<Longrightarrow> j < length xs \<and> fst (xs ! j) = fd"
  by (induction xs fd arbitrary: j rule: fd_index.induct) (auto split: if_splits)

lemma fd_index_Some: "fd \<in> set (map fst xs) \<Longrightarrow> \<exists>j. fd_index xs fd = Some j"
  by (induction xs fd rule: fd_index.induct) auto

subsection \<open>The interface of the queue\<close>

text \<open>
  What the server relies on. \<open>rep s cap xs f\<close>: in the state \<open>s\<close> the queue has capacity \<open>cap\<close> and
  contents \<open>xs\<close>, and \<open>f\<close> describes the rest of the state, which no operation changes. The
  operations return \<^const>\<open>None\<close> for undefined behaviour, so each law also says that the call is
  defined.
\<close>

locale fifo_queue =
  fixes rep :: "'s \<Rightarrow> int \<Rightarrow> entry list \<Rightarrow> 'f \<Rightarrow> bool"
    and fresh :: "'s \<Rightarrow> 'm \<Rightarrow> bool"
    and ins :: "'m \<Rightarrow> 's \<Rightarrow> int \<Rightarrow> timeval option \<Rightarrow> 's option"
    and rem_first :: "'s \<Rightarrow> (int \<times> 's) option"
    and rem :: "'s \<Rightarrow> int \<Rightarrow> (int \<times> 's) option"
    and qsize :: "'s \<Rightarrow> int"
    and find_fd :: "'s \<Rightarrow> int \<Rightarrow> int option"
    and first_time :: "'s \<Rightarrow> timeval option option"
  assumes rep_cap: "rep s cap xs f \<Longrightarrow> int (length xs) \<le> cap"
    and ins_room: "rep s cap xs f \<Longrightarrow> fresh s m \<Longrightarrow> int (length xs) < cap \<Longrightarrow>
      \<exists>s'. ins m s fd t = Some s' \<and> rep s' cap (xs @ [(fd, t)]) f"
    and ins_full: "rep s cap xs f \<Longrightarrow> int (length xs) = cap \<Longrightarrow> ins m s fd t = Some s"
    and rem_first_Nil: "rep s cap [] f \<Longrightarrow> rem_first s = Some (- 1, s)"
    and rem_first_Cons: "rep s cap ((d, t) # xs) f \<Longrightarrow>
      \<exists>s'. rem_first s = Some (d, s') \<and> rep s' cap xs f"
    and rem_mid: "rep s cap (xs @ (d, t) # ys) f \<Longrightarrow>
      \<exists>s'. rem s (int (length xs)) = Some (d, s') \<and> rep s' cap (xs @ ys) f"
    and rem_bad: "rep s cap xs f \<Longrightarrow> i < 0 \<or> int (length xs) \<le> i \<Longrightarrow> rem s i = Some (- 1, s)"
    and qsize_rep: "rep s cap xs f \<Longrightarrow> qsize s = int (length xs)"
    and find_rep: "rep s cap xs f \<Longrightarrow>
      find_fd s fd = Some (case fd_index xs fd of None \<Rightarrow> - 1 | Some j \<Rightarrow> int j)"
    and first_time_rep: "rep s cap xs f \<Longrightarrow>
      first_time s = Some (case xs of [] \<Rightarrow> None | x # _ \<Rightarrow> snd x)"
begin

lemma rem_nth:
  assumes "rep s cap xs f" "i < length xs"
  shows "\<exists>s'. rem s (int i) = Some (fst (xs ! i), s') \<and> rep s' cap (take i xs @ drop (Suc i) xs) f"
proof -
  have "xs = take i xs @ (fst (xs ! i), snd (xs ! i)) # drop (Suc i) xs"
    using assms(2) by (simp add: id_take_nth_drop)
  then have "rep s cap (take i xs @ (fst (xs ! i), snd (xs ! i)) # drop (Suc i) xs) f"
    using assms(1) by simp
  from rem_mid [OF this] show ?thesis using assms(2) by simp
qed

lemma find_rem:
  assumes "rep s cap xs f" "fd \<in> set (map fst xs)"
  shows "\<exists>i s'. find_fd s fd = Some (int i) \<and> rem s (int i) = Some (fd, s')
    \<and> rep s' cap (take i xs @ drop (Suc i) xs) f \<and> i < length xs \<and> fst (xs ! i) = fd"
proof -
  obtain j where j: "fd_index xs fd = Some j" using fd_index_Some [OF assms(2)] by blast
  then have jl: "j < length xs" "fst (xs ! j) = fd" using fd_index_SomeD by blast+
  have "find_fd s fd = Some (int j)" using find_rep [OF assms(1), of fd] j by simp
  moreover obtain s' where "rem s (int j) = Some (fd, s')"
    "rep s' cap (take j xs @ drop (Suc j) xs) f"
    using rem_nth [OF assms(1) jl(1)] jl(2) by auto
  ultimately show ?thesis using jl by blast
qed

lemma find_absent: "rep s cap xs f \<Longrightarrow> fd \<notin> set (map fst xs) \<Longrightarrow> find_fd s fd = Some (- 1)"
  using find_rep [of s cap xs f fd] fd_index_SomeD [of xs fd] nth_mem
  by (fastforce split: option.splits)

end

text \<open>
  The queue of \<open>reqQ.c\<close> satisfies the interface. The rest of the state is the part \<open>f\<close> of the heap
  that holds no node of the queue; together they are the whole heap, so nothing leaks.
\<close>

definition queue_rep :: "req_heap \<times> ReqQ \<Rightarrow> int \<Rightarrow> entry list \<Rightarrow> req_heap \<Rightarrow> bool" where
  "queue_rep s cap xs f \<longleftrightarrow>
     (\<exists>ns. q_rep (fst s) (snd s) cap ns \<and> map snd ns = xs
        \<and> f \<subseteq>\<^sub>m fst s \<and> dom f \<inter> set (addrs ns) = {} \<and> dom (fst s) = dom f \<union> set (addrs ns))"

lemma queue_repE:
  assumes "queue_rep s cap xs f"
  obtains ns where "q_rep (fst s) (snd s) cap ns" "map snd ns = xs" "f \<subseteq>\<^sub>m fst s"
    "dom f \<inter> set (addrs ns) = {}" "dom (fst s) = dom f \<union> set (addrs ns)"
  using assms unfolding queue_rep_def by metis

lemma frame_keeps: "f \<subseteq>\<^sub>m h \<Longrightarrow> keeps h h' A \<Longrightarrow> dom f \<inter> A = {} \<Longrightarrow> f \<subseteq>\<^sub>m h'"
  by (fastforce simp: map_le_def keeps_def)

lemma queue_rep_insert:
  assumes rep: "queue_rep s cap xs f" and fresh: "malloc_fresh (fst s) m"
    and room: "int (length xs) < cap"
  shows "\<exists>s'. insertReq m (fst s) (snd s) fd t = Some s' \<and> queue_rep s' cap (xs @ [(fd, t)]) f"
proof -
  obtain ns where ns: "q_rep (fst s) (snd s) cap ns" "map snd ns = xs" "f \<subseteq>\<^sub>m fst s"
    "dom f \<inter> set (addrs ns) = {}" "dom (fst s) = dom f \<union> set (addrs ns)"
    using rep by (rule queue_repE)
  obtain a junk where m: "m = Some (a, junk)" "fst s a = None"
    using fresh by (auto simp: malloc_fresh_def split: option.splits)
  have len: "int (length ns) < cap" using room ns(2) by auto
  obtain h' q' where op: "insertReq m (fst s) (snd s) fd t = Some (h', q')"
    "q_rep h' q' cap (ns @ [(a, fd, t)])" "dom h' = insert a (dom (fst s))"
    "keeps (fst s) h' (insert a (set (addrs ns)))"
    using insertReq_ok [OF ns(1) m(2) len] m(1) by blast
  have "a \<notin> dom (fst s)" using m(2) by (simp add: domIff)
  then have adf: "a \<notin> dom f" unfolding ns(5) by simp
  then have af: "f a = None" by (simp add: domIff)
  have "dom f \<inter> insert a (set (addrs ns)) = {}" using ns(4) adf by simp
  then have "f \<subseteq>\<^sub>m h'" using frame_keeps [OF ns(3) op(4)] by blast
  then have "queue_rep (h', q') cap (xs @ [(fd, t)]) f"
    using op(2,3) ns(2,4,5) af unfolding queue_rep_def
    by (intro exI [of _ "ns @ [(a, fd, t)]"]) auto
  then show ?thesis using op(1) by blast
qed

lemma queue_rep_shrink:
  assumes "q_rep (fst s) (snd s) cap (xs @ (a, d, t) # ys)" "f \<subseteq>\<^sub>m fst s"
    "dom f \<inter> set (addrs (xs @ (a, d, t) # ys)) = {}"
    "dom (fst s) = dom f \<union> set (addrs (xs @ (a, d, t) # ys))"
    and op: "q_rep h' q' cap (xs @ ys)" "dom h' = dom (fst s) - {a}"
      "keeps (fst s) h' (set (addrs (xs @ (a, d, t) # ys)))"
  shows "queue_rep (h', q') cap (map snd (xs @ ys)) f"
proof -
  have "distinct (addrs (xs @ (a, d, t) # ys))" using assms(1) by (elim q_repE)
  moreover have "f \<subseteq>\<^sub>m h'" using frame_keeps [OF assms(2) op(3) assms(3)] .
  ultimately show ?thesis
    using assms(3,4) op(1,2) unfolding queue_rep_def
    by (intro exI [of _ "xs @ ys"]) auto
qed

lemma queue_rep_remove:
  assumes rep: "queue_rep s cap (xs @ (d, t) # ys) f"
  shows "\<exists>s'. removeReq (fst s) (snd s) (int (length xs)) = Some (d, s') \<and> queue_rep s' cap (xs @ ys) f"
proof -
  obtain ns where ns: "q_rep (fst s) (snd s) cap ns" "map snd ns = xs @ (d, t) # ys" "f \<subseteq>\<^sub>m fst s"
    "dom f \<inter> set (addrs ns) = {}" "dom (fst s) = dom f \<union> set (addrs ns)"
    using rep by (rule queue_repE)
  obtain us a vs where s: "ns = us @ (a, d, t) # vs" "map snd us = xs" "map snd vs = ys"
    using ns(2) by (auto simp: map_eq_append_conv map_eq_Cons_conv)
  have len: "length us = length xs" using s(2) by auto
  obtain h' q' where op: "removeReq (fst s) (snd s) (int (length xs)) = Some (d, h', q')"
    "q_rep h' q' cap (us @ vs)" "dom h' = dom (fst s) - {a}"
    "keeps (fst s) h' (set (addrs (us @ (a, d, t) # vs)))"
    using removeReq_ok [of "fst s" "snd s" cap us a d t vs] ns(1) s(1) len by auto
  have "queue_rep (h', q') cap (map snd (us @ vs)) f"
    using queue_rep_shrink [OF _ _ _ _ op(2-4)] ns s(1) by blast
  then show ?thesis using op(1) s(2,3) by auto
qed

lemma queue_rep_remove_first:
  assumes rep: "queue_rep s cap ((d, t) # xs) f"
  shows "\<exists>s'. removeFirstReq (fst s) (snd s) = Some (d, s') \<and> queue_rep s' cap xs f"
proof -
  obtain ns where ns: "q_rep (fst s) (snd s) cap ns" "map snd ns = (d, t) # xs" "f \<subseteq>\<^sub>m fst s"
    "dom f \<inter> set (addrs ns) = {}" "dom (fst s) = dom f \<union> set (addrs ns)"
    using rep by (rule queue_repE)
  obtain n vs where n: "ns = n # vs" "snd n = (d, t)" "map snd vs = xs"
    using ns(2) by (cases ns) simp_all
  then obtain a where s: "ns = (a, d, t) # vs" "map snd vs = xs"
    by (cases n) simp
  obtain h' q' where op: "removeFirstReq (fst s) (snd s) = Some (d, h', q')"
    "q_rep h' q' cap vs" "dom h' = dom (fst s) - {a}"
    "keeps (fst s) h' (set (addrs ((a, d, t) # vs)))"
    using removeFirstReq_ok [of "fst s" "snd s" cap a d t vs] ns(1) s(1) by auto
  have "queue_rep (h', q') cap (map snd ([] @ vs)) f"
    by (rule queue_rep_shrink [of s cap "[]" a d t vs]) (use ns s(1) op in auto)
  then show ?thesis using op(1) s(2) by auto
qed

interpretation rq: fifo_queue queue_rep
  "\<lambda>s m. malloc_fresh (fst s) m"
  "\<lambda>m s fd t. insertReq m (fst s) (snd s) fd t"
  "\<lambda>s. removeFirstReq (fst s) (snd s)"
  "\<lambda>s i. removeReq (fst s) (snd s) i"
  "\<lambda>s. getQsize (snd s)"
  "\<lambda>s fd. findFileId (fst s) (snd s) fd"
  "\<lambda>s. getFirstReqTime (fst s) (snd s)"
proof unfold_locales
  fix s cap xs f fd t m i assume r: "queue_rep s cap xs f"
  then obtain ns where ns: "q_rep (fst s) (snd s) cap ns" "map snd ns = xs"
    unfolding queue_rep_def by blast
  have len: "length ns = length xs" using ns(2) by auto
  show "int (length xs) \<le> cap" using ns(1) len by (auto elim!: q_repE)
  show "insertReq m (fst s) (snd s) fd t = Some s" if "int (length xs) = cap"
    using insertReq_full [OF ns(1)] that len by simp
  show "removeReq (fst s) (snd s) i = Some (- 1, s)" if "i < 0 \<or> int (length xs) \<le> i"
    using removeReq_bad_index [OF ns(1)] that len by simp
  show "getQsize (snd s) = int (length xs)" using getQsize_ok [OF ns(1)] len by simp
  show "findFileId (fst s) (snd s) fd =
      Some (case fd_index xs fd of None \<Rightarrow> - 1 | Some j \<Rightarrow> int j)"
    using findFileId_ok [OF ns(1)] ns(2) by simp
  show "getFirstReqTime (fst s) (snd s) = Some (case xs of [] \<Rightarrow> None | x # _ \<Rightarrow> snd x)"
    using getFirstReqTime_ok [OF ns(1)] ns(2) by (auto split: list.splits)
next
  fix s cap f assume "queue_rep s cap [] f"
  then show "removeFirstReq (fst s) (snd s) = Some (- 1, s)"
    using removeFirstReq_empty unfolding queue_rep_def by auto
qed (fact queue_rep_insert queue_rep_remove queue_rep_remove_first)+

subsection \<open>Properties of the queue\<close>

lemma q_step_refines:
  assumes rep: "queue_rep s cap xs f"
    and fresh: "case x of Insert m fd t \<Rightarrow> malloc_fresh (fst s) m | _ \<Rightarrow> True"
  shows "\<exists>s'. q_step x s = Some (fst (a_step cap x xs), s') \<and> queue_rep s' cap (snd (a_step cap x xs)) f"
proof (cases x)
  case (Insert m fd t)
  have cap: "int (length xs) \<le> cap" using rq.rep_cap [OF rep] .
  show ?thesis
  proof (cases "int (length xs) < cap")
    case True
    then show ?thesis using rq.ins_room [OF rep, of m fd t] fresh Insert by auto
  next
    case False
    then have "insertReq m (fst s) (snd s) fd t = Some s"
      using rq.ins_full [OF rep] cap by simp
    then show ?thesis using rep Insert False by simp
  qed
next
  case RemoveFirst
  then show ?thesis
    using rep rq.rem_first_Nil [of s cap f] rq.rem_first_Cons [of s cap _ _ _ f]
    by (cases xs) fastforce+
next
  case (Remove i)
  show ?thesis
  proof (cases "i < 0 \<or> int (length xs) \<le> i")
    case True
    then show ?thesis using rq.rem_bad [OF rep] Remove rep by simp
  next
    case False
    then have "nat i < length xs" "int (nat i) = i" by auto
    then show ?thesis using rq.rem_nth [OF rep, of "nat i"] Remove False by simp
  qed
next
  case (Find fd)
  then show ?thesis using rq.find_rep [OF rep, of fd] rep by simp
next
  case Size
  then show ?thesis using rq.qsize_rep [OF rep] rep by simp
qed

lemma q_run_refines:
  assumes "queue_rep s cap xs f" "mallocs_ok ops s"
  shows "\<exists>s'. q_run ops s = Some (fst (a_run cap ops xs), s')
    \<and> queue_rep s' cap (snd (a_run cap ops xs)) f"
  using assms
proof (induction ops arbitrary: s xs)
  case Nil
  then show ?case by simp
next
  case (Cons x ops)
  have "case x of Insert m fd t \<Rightarrow> malloc_fresh (fst s) m | _ \<Rightarrow> True"
    using Cons.prems(2) by simp
  from q_step_refines [OF Cons.prems(1) this] obtain s1 where
    s1: "q_step x s = Some (fst (a_step cap x xs), s1)"
      "queue_rep s1 cap (snd (a_step cap x xs)) f" by blast
  have "mallocs_ok ops s1" using Cons.prems(2) s1(1) by simp
  from Cons.IH [OF s1(2) this] show ?case
    using s1(1) by (auto simp: Let_def split: prod.splits)
qed

text \<open>
  C1. Refinement of the request queue. Any sequence of insertions, removals (first or by index),
  searches and size queries on a queue made by \<open>createReqQueue\<close> with a limit that is a
  non-negative \<open>int\<close> is defined (no NULL or dangling pointer is followed, nothing is freed twice,
  although \<open>createRequest\<close> leaves \<open>previous\<close> uninitialised), returns what the bounded FIFO
  returns, and ends with exactly the nodes of the remaining entries allocated: nothing leaks.
\<close>

theorem reqQ_refines_fifo:
  assumes "0 \<le> cap" "in_int cap" "mallocs_ok ops (Map.empty, createReqQueue True cap)"
  shows "\<exists>h q ns. q_run ops (Map.empty, createReqQueue True cap)
      = Some (fst (a_run cap ops []), h, q)
    \<and> q_rep h q cap ns \<and> map snd ns = snd (a_run cap ops []) \<and> dom h = set (addrs ns)"
proof -
  have "queue_rep (Map.empty, createReqQueue True cap) cap [] Map.empty"
    using createReqQueue_rep [OF assms(1,2)] by (simp add: queue_rep_def)
  from q_run_refines [OF this assms(3)] obtain s' where
    s': "q_run ops (Map.empty, createReqQueue True cap) = Some (fst (a_run cap ops []), s')"
    and rep: "queue_rep s' cap (snd (a_run cap ops [])) Map.empty" by blast
  from rep obtain ns where ns: "q_rep (fst s') (snd s') cap ns"
    "map snd ns = snd (a_run cap ops [])" "dom (fst s') = set (addrs ns)"
    by (elim queue_repE) simp
  have "q_run ops (Map.empty, createReqQueue True cap)
      = Some (fst (a_run cap ops []), fst s', snd s')" using s' by simp
  with ns show ?thesis by blast
qed

definition ex_junk :: req where
  "ex_junk = \<lparr>insertion_time = None, data = 77, next_req = Some 99, previous = Some 98\<rparr>"

definition ex_ops :: "qop list" where
  "ex_ops = [Insert (Some (1, ex_junk)) 5 None, Insert (Some (2, ex_junk)) 6 None,
     Insert (Some (3, ex_junk)) 7 None, Insert (Some (4, ex_junk)) 8 None,
     Find 6, Remove 1, RemoveFirst, Insert (Some (1, ex_junk)) 9 None, Size, Remove 1]"

theorem reqQ_refines_fifo_witness:
  "mallocs_ok ex_ops (Map.empty, createReqQueue True 3)
   \<and> fst (a_run 3 ex_ops []) = [0, 0, 0, 0, 1, 6, 5, 0, 2, 9]
   \<and> (\<exists>h q ns. q_run ex_ops (Map.empty, createReqQueue True 3)
       = Some ([0, 0, 0, 0, 1, 6, 5, 0, 2, 9], h, q)
     \<and> q_rep h q 3 ns \<and> map snd ns = [(7, None)] \<and> dom h = set (addrs ns))"
proof -
  have m: "mallocs_ok ex_ops (Map.empty, createReqQueue True 3)"
    by code_simp
  have a: "a_run 3 ex_ops [] = ([0, 0, 0, 0, 1, 6, 5, 0, 2, 9], [(7, None)])"
    by code_simp
  have "(0::int) \<le> 3" "in_int 3" by (simp_all add: in_int_def INT_MAX_def)
  from reqQ_refines_fifo [OF this m] show ?thesis using m a by simp
qed

text \<open>
  \<open>insertReq\<close> does not check the result of \<open>createRequest\<close>: when \<open>malloc\<close> fails and the queue
  is not full, the store to \<open>r->insertion_time\<close> goes through a NULL pointer, so the call is
  undefined; when the queue is full the call returns before it allocates and nothing changes.
\<close>

theorem insertReq_malloc_failure:
  assumes "q_rep h cur_q cap ns"
  shows "insertReq None h cur_q fd t = (if int (length ns) < cap then None else Some (h, cur_q))"
  using assms by (auto elim!: q_repE simp: insertReq_def createRequest_def q_simps)

theorem insertReq_malloc_failure_witness:
  "q_rep Map.empty (createReqQueue True 1) 1 []
   \<and> insertReq None Map.empty (createReqQueue True 1) 5 None = None"
proof -
  have r: "q_rep Map.empty (createReqQueue True 1) 1 []"
    by (simp add: createReqQueue_rep in_int_def INT_MAX_def)
  show ?thesis using insertReq_malloc_failure [OF r, of 5 None] r by simp
qed

end
