(* ===== verification/Request.thy ===== *)
theory Request
  imports Segel ReqQ
begin

section \<open>The HTTP request handler (OS_HW3/request.c)\<close>

text \<open>
  \<open>requestHandle\<close> and what it calls, over the Rio package. The state \<open>rq\<close> is one connection (the
  scripts of what the kernel will do on \<open>read\<close> and \<open>write\<close>, the bytes sent so far), the server's
  standard output and the three counter arrays of the threads. What the kernel answers about files
  and processes is the argument \<open>os\<close>; the initial contents of the handler's uninitialised arrays
  is the argument \<open>stack\<close>.

  A result is \<open>Done\<close> of the new state, \<open>Exited\<close> when a wrapper of \<open>segel.c\<close> called \<open>exit\<close> (which
  ends the whole server), or \<open>Fault\<close> for undefined behaviour: a text that does not fit its array, a
  NULL time, an index outside the counters. \<open>requestReadhdrs\<close> may not return at all: it and
  \<open>requestHandle\<close> have an \<open>option\<close> around the result, \<^const>\<open>None\<close> meaning that the loop never ends.

  The calls \<open>sprintf(buf, "%s...", buf)\<close> are taken to append to \<open>buf\<close>, which is what the C library
  does (the C standard leaves it undefined).
\<close>

subsection \<open>State\<close>

record fstat =
  st_reg :: bool
  st_rusr :: bool
  st_xusr :: bool
  st_size :: int

record os =
  os_stat :: "string \<Rightarrow> fstat option"
  os_open :: "string \<Rightarrow> int"
  os_mmap :: "string \<Rightarrow> int \<Rightarrow> char list option"
  os_close :: "int \<Rightarrow> int"
  os_munmap :: int
  os_fork :: int
  os_waitpid :: "int \<Rightarrow> int"
  os_setenv :: int
  os_dup2 :: int
  os_execve :: "string \<Rightarrow> (string \<Rightarrow> string) option"

record rq =
  rx :: "rd_event list"
  tx :: "wr_event list"
  sent :: string
  tty :: string
  static_counter :: "int list"
  dynamic_counter :: "int list"
  total_counter :: "int list"

record stack =
  s_buf :: "char list"
  s_hdr :: "char list"
  s_rio :: "char list"
  s_method :: string
  s_uri :: string
  s_version :: string
  s_cgiargs :: string

text \<open>\<open>Rio_writen(fd, s, strlen(s))\<close> and \<open>printf("%s", s)\<close>.\<close>

definition send :: "rq \<Rightarrow> string \<Rightarrow> rq run" where
  "send s bytes = run_bind (Rio_writen (tx s) bytes)
     (\<lambda>(out, ws'). Done (s\<lparr>tx := ws', sent := sent s @ out\<rparr>))"

definition print :: "rq \<Rightarrow> string \<Rightarrow> rq" where
  "print s text = s\<lparr>tty := tty s @ text\<rparr>"

definition at :: "int list \<Rightarrow> int \<Rightarrow> int run" where
  "at xs i = (if 0 \<le> i \<and> i < int (length xs) then Done (xs ! nat i) else Fault)"

definition incr :: "int list \<Rightarrow> int \<Rightarrow> int list run" where
  "incr xs i = run_bind (at xs i) (\<lambda>v. run_bind (run_of (cint (v + 1))) (\<lambda>v'. Done (xs[nat i := v'])))"

subsection \<open>The statistics headers\<close>

definition fmt_time :: "timeval \<Rightarrow> string" where
  "fmt_time t = fmt_lu (tv_sec t) @ ''.'' @ pad0 6 (fmt_lu (tv_usec t))"

definition stat_headers :: "timeval \<Rightarrow> timeval \<Rightarrow> int \<Rightarrow> int \<Rightarrow> int \<Rightarrow> int \<Rightarrow> string" where
  "stat_headers pick_up dif index tot stat dyn =
     ''Stat-Req-Arrival:: '' @ fmt_time pick_up @ CRLF @
     ''Stat-Req-Dispatch:: '' @ fmt_time dif @ CRLF @
     ''Stat-Thread-Id:: '' @ fmt_d index @ CRLF @
     ''Stat-Thread-Count:: '' @ fmt_d tot @ CRLF @
     ''Stat-Thread-Static:: '' @ fmt_d stat @ CRLF @
     ''Stat-Thread-Dynamic:: '' @ fmt_d dyn @ CRLF"

text \<open>The block of headers as the three serving functions build it, \<open>fin\<close> being what ends it.\<close>

definition stats :: "nat \<Rightarrow> rq \<Rightarrow> timeval option \<Rightarrow> timeval option \<Rightarrow> int \<Rightarrow> string \<Rightarrow> string run" where
  "stats bufsize s pick_up dif index fin =
     (case (pick_up, dif) of
        (Some p, Some d) \<Rightarrow>
          run_bind (at (total_counter s) index) (\<lambda>t.
          run_bind (at (static_counter s) index) (\<lambda>st.
          run_bind (at (dynamic_counter s) index) (\<lambda>dy.
          run_of (sprintf_into bufsize (stat_headers p d index t st dy @ fin)))))
      | _ \<Rightarrow> Fault)"

subsection \<open>Error responses\<close>

definition error_body :: "string \<Rightarrow> string \<Rightarrow> string \<Rightarrow> string \<Rightarrow> string" where
  "error_body cause errnum shortmsg longmsg =
     ''<html><title>OS-HW3 Error</title>'' @
     ''<body bgcolor=fffff>'' @ CRLF @
     errnum @ '': '' @ shortmsg @ CRLF @
     ''<p>'' @ longmsg @ '': '' @ cause @ CRLF @
     ''<hr>OS-HW3 Web Server'' @ CRLF"

definition requestError ::
  "rq \<Rightarrow> string \<Rightarrow> string \<Rightarrow> string \<Rightarrow> string \<Rightarrow> timeval option \<Rightarrow> timeval option \<Rightarrow> int \<Rightarrow> rq run" where
  "requestError s cause errnum shortmsg longmsg pick_up dif index =
     run_bind (run_of (sprintf_into MAXBUF (error_body cause errnum shortmsg longmsg))) (\<lambda>body.
     let line = ''HTTP/1.0 '' @ errnum @ '' '' @ shortmsg @ CRLF;
         ctype = ''Content-Type: text/html'' @ CRLF;
         clen = ''Content-Length: '' @ fmt_lu (int (length body)) @ CRLF in
     run_bind (send s line) (\<lambda>s1.
     run_bind (send (print s1 line) ctype) (\<lambda>s2.
     run_bind (send (print s2 ctype) clen) (\<lambda>s3.
     run_bind (stats MAXLINE (print s3 clen) pick_up dif index CRLF) (\<lambda>hd.
     run_bind (send (print s3 clen) hd) (\<lambda>s4.
     run_bind (send (print s4 hd) body) (\<lambda>s5.
     Done (print s5 body))))))))"

subsection \<open>Request headers\<close>

text \<open>
  The loop of \<open>requestReadhdrs\<close> on the array \<open>buf\<close>. \<open>Rio_readlineb\<close> leaves \<open>buf\<close> as it is at the
  end of the stream.
\<close>

partial_function (option) readhdrs_loop ::
  "rd_event list \<Rightarrow> rio_t \<Rightarrow> char list \<Rightarrow> (rio_t \<times> rd_event list) run option" where
  "readhdrs_loop es rp buf =
     (if cstr buf = CRLF then Some (Done (rp, es))
      else (case Rio_readlineb es rp MAXLINE of
              Exited \<Rightarrow> Some Exited
            | Fault \<Rightarrow> Some Fault
            | Done (rc, out, rp', es') \<Rightarrow> readhdrs_loop es' rp' (overlay out buf)))"

definition requestReadhdrs ::
  "rd_event list \<Rightarrow> rio_t \<Rightarrow> char list \<Rightarrow> (rio_t \<times> rd_event list) run option" where
  "requestReadhdrs es rp buf =
     (case Rio_readlineb es rp MAXLINE of
        Exited \<Rightarrow> Some Exited
      | Fault \<Rightarrow> Some Fault
      | Done (rc, out, rp', es') \<Rightarrow> readhdrs_loop es' rp' (overlay out buf))"

subsection \<open>The URI\<close>

text \<open>
  Returns whether the content is static, the file name and the CGI arguments. Writing past the end
  of \<open>filename\<close> is a fault, and so is \<open>uri[strlen(uri)-1]\<close> when \<open>uri\<close> is empty. \<open>cgiargs\<close> is what
  the array held before: the first branch does not write it.
\<close>

definition requestParseURI :: "string \<Rightarrow> string \<Rightarrow> (bool \<times> string \<times> string) run" where
  "requestParseURI uri cgiargs =
     (if strstr uri ''..'' then Done (True, ''./public/home.html'', cgiargs)
      else if \<not> strstr uri ''cgi'' then
        run_bind (run_of (sprintf_into MAXLINE (''./public/'' @ uri))) (\<lambda>filename.
        if uri = [] then Fault
        else if last uri = CHR ''/'' then
          run_bind (run_of (sprintf_into MAXLINE (filename @ ''home.html''))) (\<lambda>filename'.
          Done (True, filename', ''''))
        else Done (True, filename, ''''))
      else
        (let path = takeWhile (\<lambda>c. c \<noteq> CHR ''?'') uri;
             args = (if CHR ''?'' \<in> set uri then tl (dropWhile (\<lambda>c. c \<noteq> CHR ''?'') uri) else '''') in
         run_bind (run_of (sprintf_into MAXLINE (''./public/'' @ path))) (\<lambda>filename.
         Done (False, filename, args))))"

definition requestGetFiletype :: "string \<Rightarrow> string" where
  "requestGetFiletype filename =
     (if strstr filename ''.html'' then ''text/html''
      else if strstr filename ''.gif'' then ''image/gif''
      else if strstr filename ''.jpg'' then ''image/jpeg''
      else ''text/plain'')"

subsection \<open>Serving content\<close>

text \<open>
  The child process sets \<open>QUERY_STRING\<close>, redirects its standard output to the socket and becomes the
  program; the result is what the program writes. \<open>os_execve\<close> is \<^const>\<open>None\<close> when \<open>execve\<close> fails, and
  otherwise the program as a function of \<open>QUERY_STRING\<close>. A child that fails exits and writes nothing to
  the socket. The parent waits for it.
\<close>

definition cgi_child :: "os \<Rightarrow> string \<Rightarrow> string \<Rightarrow> string run" where
  "cgi_child os filename cgiargs =
     run_bind (Setenv (os_setenv os)) (\<lambda>_.
     run_bind (Dup2 (os_dup2 os)) (\<lambda>_.
     case os_execve os filename of
       None \<Rightarrow> run_bind (Execve (- 1)) (\<lambda>_. Done '''')
     | Some prog \<Rightarrow> Done (prog cgiargs)))"

definition child_output :: "string run \<Rightarrow> string" where
  "child_output r = (case r of Done out \<Rightarrow> out | _ \<Rightarrow> '''')"

definition requestServeDynamic ::
  "os \<Rightarrow> rq \<Rightarrow> string \<Rightarrow> string \<Rightarrow> timeval option \<Rightarrow> timeval option \<Rightarrow> int \<Rightarrow> rq run" where
  "requestServeDynamic os s filename cgiargs pick_up dif index =
     run_bind (send s (''HTTP/1.0 200 OK'' @ CRLF @ ''Server: OS-HW3 Web Server'' @ CRLF)) (\<lambda>s1.
     run_bind (stats MAXLINE s1 pick_up dif index '''') (\<lambda>hd.
     run_bind (send s1 hd) (\<lambda>s2.
     run_bind (Fork (os_fork os)) (\<lambda>pid.
     run_bind (WaitPid (os_waitpid os pid)) (\<lambda>_.
     Done (s2\<lparr>sent := sent s2 @ child_output (cgi_child os filename cgiargs)\<rparr>))))))"

definition static_header :: "int \<Rightarrow> string \<Rightarrow> string" where
  "static_header filesize filetype =
     ''HTTP/1.0 200 OK'' @ CRLF @ ''Server: OS-HW3 Web Server'' @ CRLF @
     ''Content-Length: '' @ fmt_d filesize @ CRLF @
     ''Content-Type: '' @ filetype @ CRLF"

definition requestServeStatic ::
  "os \<Rightarrow> rq \<Rightarrow> string \<Rightarrow> int \<Rightarrow> timeval option \<Rightarrow> timeval option \<Rightarrow> int \<Rightarrow> rq run" where
  "requestServeStatic os s filename filesize pick_up dif index =
     (let filetype = requestGetFiletype filename in
     run_bind (Open (os_open os filename)) (\<lambda>srcfd.
     run_bind (Mmap (os_mmap os filename filesize)) (\<lambda>srcp.
     run_bind (Close (os_close os srcfd)) (\<lambda>_.
     run_bind (run_of (sprintf_into MAXBUF (static_header filesize filetype))) (\<lambda>buf.
     run_bind (send s buf) (\<lambda>s1.
     run_bind (stats MAXBUF s1 pick_up dif index CRLF) (\<lambda>hd.
     run_bind (send s1 hd) (\<lambda>s2.
     run_bind (send s2 srcp) (\<lambda>s3.
     run_bind (Munmap (os_munmap os)) (\<lambda>_.
     Done s3))))))))))"

subsection \<open>Handling a request\<close>

text \<open>One \<open>%s\<close> of \<open>sscanf\<close>: the next word and what follows it.\<close>

definition scan_word :: "string \<Rightarrow> string \<times> string" where
  "scan_word s =
     (let t = dropWhile isspace s in
      (takeWhile (\<lambda>c. \<not> isspace c) t, dropWhile (\<lambda>c. \<not> isspace c) t))"

text \<open>\<open>sscanf(buf, "%s %s %s", method, uri, version)\<close>: a missing word leaves its array as it was.\<close>

definition scan_request :: "string \<Rightarrow> stack \<Rightarrow> string \<times> string \<times> string" where
  "scan_request buf st =
     (let (m, r1) = scan_word buf; (u, r2) = scan_word r1; (v, r3) = scan_word r2 in
      (if m = '''' then s_method st else m, if u = '''' then s_uri st else u,
       if v = '''' then s_version st else v))"

definition lower :: "char \<Rightarrow> char" where
  "lower c = (let n = of_char c :: nat in if 65 \<le> n \<and> n \<le> 90 then char_of (n + 32) else c)"

definition strcasecmp_eq :: "string \<Rightarrow> string \<Rightarrow> bool" where
  "strcasecmp_eq a b \<longleftrightarrow> map lower a = map lower b"

text \<open>What \<open>requestHandle\<close> does once the request line and the headers are read.\<close>

definition requestDispatch ::
  "os \<Rightarrow> rq \<Rightarrow> string \<Rightarrow> string \<Rightarrow> timeval option \<Rightarrow> timeval option \<Rightarrow> int \<Rightarrow> rq run" where
  "requestDispatch os s uri cgiargs0 pick_up dif index =
     run_bind (requestParseURI uri cgiargs0) (\<lambda>(is_static, filename, cgiargs).
     case os_stat os filename of
       None \<Rightarrow> requestError s filename ''404'' ''Not found'' ''OS-HW3 Server could not find this file''
                 pick_up dif index
     | Some sbuf \<Rightarrow>
         if is_static then
           (if \<not> st_reg sbuf \<or> \<not> st_rusr sbuf then
              requestError s filename ''403'' ''Forbidden'' ''OS-HW3 Server could not read this file''
                pick_up dif index
            else run_bind (incr (static_counter s) index) (\<lambda>c.
              requestServeStatic os (s\<lparr>static_counter := c\<rparr>) filename (to_signed 32 (st_size sbuf))
                pick_up dif index))
         else
           (if \<not> st_reg sbuf \<or> \<not> st_xusr sbuf then
              requestError s filename ''403'' ''Forbidden'' ''OS-HW3 Server could not run this CGI program''
                pick_up dif index
            else run_bind (incr (dynamic_counter s) index) (\<lambda>c.
              requestServeDynamic os (s\<lparr>dynamic_counter := c\<rparr>) filename cgiargs
                pick_up dif index)))"

definition requestHandle ::
  "os \<Rightarrow> stack \<Rightarrow> rq \<Rightarrow> int \<Rightarrow> timeval option \<Rightarrow> timeval option \<Rightarrow> int \<Rightarrow> rq run option" where
  "requestHandle os st s fd pick_up dif index =
     (case incr (total_counter s) index of
        Exited \<Rightarrow> Some Exited
      | Fault \<Rightarrow> Some Fault
      | Done tc \<Rightarrow>
          (let s1 = s\<lparr>total_counter := tc\<rparr>; rio = Rio_readinitb (s_rio st) fd in
           case Rio_readlineb (rx s1) rio MAXLINE of
             Exited \<Rightarrow> Some Exited
           | Fault \<Rightarrow> Some Fault
           | Done (rc, out, rp1, es1) \<Rightarrow>
               (let buf = cstr (overlay out (s_buf st));
                    (method, uri, version) = scan_request buf st;
                    s2 = print (s1\<lparr>rx := es1\<rparr>) (method @ '' '' @ uri @ '' '' @ version @ [CHR 0x0A]) in
                if \<not> strcasecmp_eq method ''GET'' then
                  Some (requestError s2 method ''501'' ''Not Implemented''
                    ''OS-HW3 Server does not implement this method'' pick_up dif index)
                else
                  (case requestReadhdrs es1 rp1 (s_hdr st) of
                     None \<Rightarrow> None
                   | Some Exited \<Rightarrow> Some Exited
                   | Some Fault \<Rightarrow> Some Fault
                   | Some (Done (rp2, es2)) \<Rightarrow>
                       Some (requestDispatch os (s2\<lparr>rx := es2\<rparr>) uri (s_cgiargs st)
                               pick_up dif index)))))"

subsection \<open>The header block\<close>

text \<open>
  Whether the stream has a header line that is blank: the lines are cut off as \<open>rio_readlineb\<close> does
  it, and a NUL byte ends a line for \<open>strcmp\<close>. \<open>after_blank\<close> is what follows the first blank line.
\<close>

lemma line_of_shorter:
  assumes "line_of k s \<noteq> []"
  shows "length s - length (line_of k s) < length s"
proof -
  have "0 < length (line_of k s)" using assms by simp
  moreover have "length (line_of k s) \<le> length s"
    by (metis line_of_prefix le_add1 length_append)
  ultimately show ?thesis by linarith
qed

function has_blank :: "char list \<Rightarrow> bool" where
  "has_blank s =
     (let L = line_of (MAXLINE - 1) s in
      if L = [] then False
      else if cstr L = CRLF then True
      else has_blank (drop (length L) s))"
  by pat_completeness auto
termination
  by (relation "measure length") (auto dest: line_of_shorter)

function after_blank :: "char list \<Rightarrow> char list" where
  "after_blank s =
     (let L = line_of (MAXLINE - 1) s in
      if L = [] then s
      else if cstr L = CRLF then drop (length L) s
      else after_blank (drop (length L) s))"
  by pat_completeness auto
termination
  by (relation "measure length") (auto dest: line_of_shorter)

declare has_blank.simps [simp del] after_blank.simps [simp del] readhdrs_loop.simps [code]

lemma cstr_line: "cstr (overlay (L @ [NUL]) buf) = cstr L"
  by (simp add: cstr_def overlay_def takeWhile_append)
    (metis (mono_tags, lifting) takeWhile_append1 takeWhile_eq_all_conv)

lemma Rio_readlineb_line:
  assumes "no_err es" "rio_ok rp" "L = line_of (MAXLINE - 1) (avail rp es)"
  shows "\<exists>rc rp' es'. Rio_readlineb es rp MAXLINE =
      Done (rc, if L = [] then [] else L @ [NUL], rp', es')
    \<and> no_err es' \<and> rio_ok rp' \<and> avail rp' es' = drop (length L) (avail rp es)"
proof -
  have "(1::nat) < MAXLINE" by (simp add: MAXLINE_def)
  have "\<exists>rp' es'. rio_readlineb es rp MAXLINE =
      (if L = [] then 0 else if ends_nl L then int (length L) else int (length L) + 1,
       if L = [] then [] else L @ [NUL], rp', es')
    \<and> no_err es' \<and> rio_ok rp' \<and> avail rp' es' = drop (length L) (avail rp es)"
    using readline_loop_avail [OF assms(1,2) order_refl _ refl, of MAXLINE "[]"] \<open>1 < MAXLINE\<close> assms(3)
      line_of_Cons [of "MAXLINE - 1"]
    by (cases "avail rp es") (auto simp: rio_readlineb_def)
  then show ?thesis by (auto simp: Rio_readlineb_def)
qed

lemma readhdrs_loop_blank:
  assumes "has_blank s" "no_err es" "rio_ok rp" "avail rp es = s" "cstr buf \<noteq> CRLF"
  shows "\<exists>rp' es'. readhdrs_loop es rp buf = Some (Done (rp', es'))
    \<and> no_err es' \<and> rio_ok rp' \<and> avail rp' es' = after_blank s"
  using assms
proof (induction s arbitrary: es rp buf rule: has_blank.induct)
  case (1 s)
  define L where "L = line_of (MAXLINE - 1) s"
  have L: "L \<noteq> []" "cstr L = CRLF \<or> has_blank (drop (length L) s)"
    using "1.prems"(1) by (auto simp: has_blank.simps [of s] L_def Let_def split: if_splits)
  obtain rc rp1 es1 where r: "Rio_readlineb es rp MAXLINE = Done (rc, L @ [NUL], rp1, es1)"
    "no_err es1" "rio_ok rp1" "avail rp1 es1 = drop (length L) s"
    using Rio_readlineb_line [OF "1.prems"(2,3), of L] "1.prems"(4) L(1) by (auto simp: L_def)
  have eq: "readhdrs_loop es rp buf = readhdrs_loop es1 rp1 (overlay (L @ [NUL]) buf)"
    using "1.prems"(5) r(1) by (simp add: readhdrs_loop.simps [of es rp buf])
  have ab: "after_blank s = (if cstr L = CRLF then drop (length L) s else after_blank (drop (length L) s))"
    using L(1) by (simp add: after_blank.simps [of s] L_def Let_def)
  show ?case
  proof (cases "cstr L = CRLF")
    case True
    then show ?thesis using eq r(2-4) ab cstr_line [of L buf]
      by (simp add: readhdrs_loop.simps [of es1])
  next
    case False
    then show ?thesis
      using "1.IH" [OF L_def L(1) False _ r(2,3)] L(2) r(4) eq ab cstr_line [of L buf] by simp
  qed
qed

lemma readhdrs_loop_hangs:
  assumes "readhdrs_loop es rp buf = Some r" "no_err es" "rio_ok rp" "cstr buf \<noteq> CRLF"
  shows "has_blank (avail rp es)"
proof -
  have "no_err es \<and> rio_ok rp \<and> cstr buf \<noteq> CRLF \<longrightarrow> has_blank (avail rp es)"
  proof (rule readhdrs_loop.raw_induct [where P = "\<lambda>es rp buf r.
        no_err es \<and> rio_ok rp \<and> cstr buf \<noteq> CRLF \<longrightarrow> has_blank (avail rp es)", OF _ assms(1)])
    fix f es rp buf r
    assume IH: "\<And>es rp buf r. f es rp buf = Some r \<Longrightarrow>
        no_err es \<and> rio_ok rp \<and> cstr buf \<noteq> CRLF \<longrightarrow> has_blank (avail rp es)"
      and eq: "(if cstr buf = CRLF then Some (Done (rp, es))
        else case Rio_readlineb es rp MAXLINE of
          Done (rc, out, rp', es') \<Rightarrow> f es' rp' (overlay out buf)
        | Exited \<Rightarrow> Some Exited | Fault \<Rightarrow> Some Fault) = Some r"
    show "no_err es \<and> rio_ok rp \<and> cstr buf \<noteq> CRLF \<longrightarrow> has_blank (avail rp es)"
    proof
      assume a: "no_err es \<and> rio_ok rp \<and> cstr buf \<noteq> CRLF"
      define L where "L = line_of (MAXLINE - 1) (avail rp es)"
      obtain rc rp1 es1 where r: "Rio_readlineb es rp MAXLINE =
          Done (rc, if L = [] then [] else L @ [NUL], rp1, es1)"
        "no_err es1" "rio_ok rp1" "avail rp1 es1 = drop (length L) (avail rp es)"
        using Rio_readlineb_line [of es rp L] a L_def by blast
      have f: "f es1 rp1 (overlay (if L = [] then [] else L @ [NUL]) buf) = Some r"
        using eq a r(1) by simp
      show "has_blank (avail rp es)"
      proof (cases "L = []")
        case True
        then have "overlay (if L = [] then [] else L @ [NUL]) buf = buf" by (simp add: overlay_def)
        then have "has_blank (avail rp1 es1)" using IH [OF f] r(2,3) a by simp
        then show ?thesis using r(4) True by simp
      next
        case False
        then show ?thesis using IH [OF f] r(2-4) cstr_line [of L buf]
          by (auto simp: has_blank.simps [of "avail rp es"] L_def Let_def)
      qed
    qed
  qed
  then show ?thesis using assms(2-4) by blast
qed

lemma requestReadhdrs_eq_loop:
  assumes "cstr buf \<noteq> CRLF"
  shows "requestReadhdrs es rp buf = readhdrs_loop es rp buf"
  using assms by (simp add: requestReadhdrs_def readhdrs_loop.simps [of es rp buf])

subsection \<open>Substrings\<close>

lemma strstr_public: "strstr (''./public/'' @ u) ''..'' = strstr u ''..''"
  by simp

lemma strstr_append_dots:
  "\<not> strstr u ''..'' \<Longrightarrow> \<not> strstr v ''..'' \<Longrightarrow> u \<noteq> [] \<Longrightarrow> last u \<noteq> CHR ''.'' \<Longrightarrow> \<not> strstr (u @ v) ''..''"
proof (induction u)
  case Nil
  then show ?case by simp
next
  case (Cons c u)
  then show ?case by (cases u; cases v) auto
qed

lemma strstr_takeWhile: "strstr (takeWhile P u) t \<Longrightarrow> strstr u t"
proof -
  assume "strstr (takeWhile P u) t"
  then obtain a b where "takeWhile P u = a @ t @ b" by (auto simp: strstr_iff)
  then have "u = a @ t @ (b @ dropWhile P u)"
    using takeWhile_dropWhile_id [of P u] by (metis append_assoc)
  then show ?thesis unfolding strstr_iff by blast
qed

subsection \<open>What the parts of the handler leave unchanged\<close>

definition counters :: "rq \<Rightarrow> int list \<times> int list \<times> int list" where
  "counters s = (static_counter s, dynamic_counter s, total_counter s)"

lemma send_counters: "send s b = Done s' \<Longrightarrow> counters s' = counters s"
  by (auto simp: send_def run_bind_Done counters_def)

lemma print_counters [simp]: "counters (print s t) = counters s"
  by (simp add: print_def counters_def)

lemma requestError_counters:
  "requestError s cause e sh lo p d i = Done s' \<Longrightarrow> counters s' = counters s"
  by (auto simp: requestError_def run_bind_Done Let_def dest!: send_counters)

lemma requestServeStatic_counters:
  "requestServeStatic os s f n p d i = Done s' \<Longrightarrow> counters s' = counters s"
  by (auto simp: requestServeStatic_def run_bind_Done Let_def dest!: send_counters)

lemma requestServeDynamic_counters:
  "requestServeDynamic os s f a p d i = Done s' \<Longrightarrow> counters s' = counters s"
  by (auto simp: requestServeDynamic_def run_bind_Done Let_def counters_def dest!: send_counters)

lemma incr_Done:
  "incr xs i = Done ys \<longleftrightarrow>
     0 \<le> i \<and> i < int (length xs) \<and> in_int (xs ! nat i + 1) \<and> ys = xs[nat i := xs ! nat i + 1]"
  by (auto simp: incr_def at_def run_bind_Done)

lemma requestDispatch_counters:
  assumes "requestDispatch os s uri c0 p d i = Done s'"
  shows "total_counter s' = total_counter s \<and>
    (static_counter s' = static_counter s \<and> dynamic_counter s' = dynamic_counter s
     \<or> incr (static_counter s) i = Done (static_counter s') \<and> dynamic_counter s' = dynamic_counter s
     \<or> incr (dynamic_counter s) i = Done (dynamic_counter s') \<and> static_counter s' = static_counter s)"
proof -
  from assms consider
      (err) cause e sh lo where "requestError s cause e sh lo p d i = Done s'"
    | (stat) c f n where "incr (static_counter s) i = Done c"
        "requestServeStatic os (s\<lparr>static_counter := c\<rparr>) f n p d i = Done s'"
    | (dyn) c f a where "incr (dynamic_counter s) i = Done c"
        "requestServeDynamic os (s\<lparr>dynamic_counter := c\<rparr>) f a p d i = Done s'"
    unfolding requestDispatch_def run_bind_Done
    by (fastforce simp: run_bind_Done split: option.splits if_splits)
  then show ?thesis
  proof cases
    case err
    from requestError_counters [OF this] show ?thesis by (simp add: counters_def)
  next
    case stat
    from requestServeStatic_counters [OF stat(2)] stat(1) show ?thesis by (simp add: counters_def)
  next
    case dyn
    from requestServeDynamic_counters [OF dyn(2)] dyn(1) show ?thesis by (simp add: counters_def)
  qed
qed

subsection \<open>Properties of the request handler\<close>

text \<open>
  C6. Confinement: whatever the URI, the file that \<open>requestParseURI\<close> names lies under \<open>./public/\<close>
  and its name contains no \<open>..\<close>, so a request cannot leave the public directory.
\<close>

theorem requestParseURI_confined:
  assumes "requestParseURI uri cgiargs = Done (is_static, filename, args)"
  shows "(\<exists>rest. filename = ''./public/'' @ rest) \<and> \<not> strstr filename ''..''"
proof -
  consider (dots) "strstr uri ''..''" | (stat) "\<not> strstr uri ''..''" "\<not> strstr uri ''cgi''"
    | (dyn) "\<not> strstr uri ''..''" "strstr uri ''cgi''" by blast
  then show ?thesis
  proof cases
    case dots
    then have "filename = ''./public/'' @ ''home.html''"
      using assms by (simp add: requestParseURI_def)
    then show ?thesis by simp
  next
    case stat
    then have u: "uri \<noteq> []" and f: "filename = ''./public/'' @ uri \<or>
        last uri = CHR ''/'' \<and> filename = ''./public/'' @ (uri @ ''home.html'')"
      using assms by (auto simp: requestParseURI_def run_bind_Done split: if_splits)
    have "last uri = CHR ''/'' \<Longrightarrow> \<not> strstr (uri @ ''home.html'') ''..''"
      by (rule strstr_append_dots [OF stat(1) _ u]) simp_all
    then show ?thesis using f stat(1) strstr_public by metis
  next
    case dyn
    then have "filename = ''./public/'' @ takeWhile (\<lambda>c. c \<noteq> CHR ''?'') uri"
      using assms by (auto simp: requestParseURI_def run_bind_Done Let_def)
    then show ?thesis using dyn(1) strstr_public strstr_takeWhile by metis
  qed
qed

theorem requestParseURI_confined_witness:
  "requestParseURI ''/a/cgi?x=1'' [] = Done (False, ''./public//a/cgi'', ''x=1'')
   \<and> (\<exists>rest. ''./public//a/cgi'' = ''./public/'' @ rest) \<and> \<not> strstr ''./public//a/cgi'' ''..''"
proof -
  have r: "requestParseURI ''/a/cgi?x=1'' [] = Done (False, ''./public//a/cgi'', ''x=1'')"
    by (simp add: requestParseURI_def sprintf_into_def MAXLINE_def)
  show ?thesis using requestParseURI_confined [OF r] r by blast
qed

text \<open>The length of the name that \<open>requestParseURI\<close> builds; it is defined when the name fits the array.\<close>

definition name_length :: "string \<Rightarrow> nat" where
  "name_length uri = 9 + (if strstr uri ''cgi'' then length (takeWhile (\<lambda>c. c \<noteq> CHR ''?'') uri)
     else length uri + (if last uri = CHR ''/'' then 9 else 0))"

lemma requestParseURI_length:
  assumes "uri \<noteq> []" "\<not> strstr uri ''..''"
  shows "if name_length uri < MAXLINE
    then \<exists>b f args. requestParseURI uri cgiargs = Done (b, f, args) \<and> length f = name_length uri
    else requestParseURI uri cgiargs = Fault"
  using assms by (auto simp: requestParseURI_def name_length_def sprintf_into_def Let_def)

lemma strstr_replicate: "a \<noteq> c \<Longrightarrow> \<not> strstr (replicate n c) (a # t)"
  by (induction n) auto

lemma requestHandle_incr:
  assumes "requestHandle os st s fd p d i = Some (Done s')"
  shows "incr (total_counter s) i = Done (total_counter s') \<and>
    (static_counter s' = static_counter s \<and> dynamic_counter s' = dynamic_counter s
     \<or> incr (static_counter s) i = Done (static_counter s') \<and> dynamic_counter s' = dynamic_counter s
     \<or> incr (dynamic_counter s) i = Done (dynamic_counter s') \<and> static_counter s' = static_counter s)"
  using assms
  by (auto simp: requestHandle_def Let_def print_def counters_def
      split: run.splits prod.splits option.splits if_splits
      dest!: requestError_counters requestDispatch_counters)

text \<open>
  C8. The statistics of a thread: when \<open>requestHandle\<close> returns, the thread's total is one more, and
  of its static and dynamic counters at most one was incremented, by one. No other thread's
  counters change.
\<close>

theorem requestHandle_counters:
  assumes "requestHandle os st s fd p d i = Some (Done s')"
  shows "incr (total_counter s) i = Done (total_counter s') \<and>
    (static_counter s' = static_counter s \<and> dynamic_counter s' = dynamic_counter s
     \<or> incr (static_counter s) i = Done (static_counter s') \<and> dynamic_counter s' = dynamic_counter s
     \<or> incr (dynamic_counter s) i = Done (dynamic_counter s') \<and> static_counter s' = static_counter s)"
  using assms by (rule requestHandle_incr)

subsection \<open>What is sent\<close>

definition tx_ok :: "rq \<Rightarrow> bool" where
  "tx_ok s \<longleftrightarrow> WFail False \<notin> set (tx s)"

text \<open>The thread's index is in range and its counters are \<open>int\<close>s.\<close>

definition counters_ok :: "rq \<Rightarrow> int \<Rightarrow> bool" where
  "counters_ok s i \<longleftrightarrow> 0 \<le> i \<and> in_int i \<and> i < int (length (total_counter s))
     \<and> i < int (length (static_counter s)) \<and> i < int (length (dynamic_counter s))
     \<and> in_int (total_counter s ! nat i) \<and> in_int (static_counter s ! nat i)
     \<and> in_int (dynamic_counter s ! nat i)"

text \<open>The statistics headers of thread \<open>i\<close> in the state \<open>s\<close>.\<close>

definition thread_stats :: "rq \<Rightarrow> timeval \<Rightarrow> timeval \<Rightarrow> int \<Rightarrow> string" where
  "thread_stats s p d i = stat_headers p d i (total_counter s ! nat i) (static_counter s ! nat i)
     (dynamic_counter s ! nat i)"

definition error_response :: "rq \<Rightarrow> string \<Rightarrow> string \<Rightarrow> string \<Rightarrow> string \<Rightarrow> timeval \<Rightarrow> timeval \<Rightarrow> int \<Rightarrow> string" where
  "error_response s cause errnum shortmsg longmsg p d i =
     (let body = error_body cause errnum shortmsg longmsg in
      ''HTTP/1.0 '' @ errnum @ '' '' @ shortmsg @ CRLF @ ''Content-Type: text/html'' @ CRLF @
      ''Content-Length: '' @ fmt_lu (int (length body)) @ CRLF @ thread_stats s p d i @ CRLF @ body)"

lemma send_ok:
  assumes "tx_ok s"
  shows "\<exists>ws'. send s b = Done (s\<lparr>tx := ws', sent := sent s @ b\<rparr>) \<and> WFail False \<notin> set ws'"
proof -
  obtain ws' where "writen_loop (tx s) b [] = (True, b, ws')" "WFail False \<notin> set ws'"
    using writen_loop_ok [of "tx s" b "[]"] assms by (auto simp: tx_ok_def)
  then show ?thesis
    by (intro exI [of _ ws']) (simp add: send_def Rio_writen_def rio_writen_def)
qed

lemma length_stat_headers:
  assumes "in_int i" "in_int a" "in_int b" "in_int c"
  shows "length (stat_headers p d i a b c) \<le> 300"
proof -
  have t: "length (fmt_time u) \<le> 41" for u
    using length_fmt_lu [of "tv_sec u"] length_fmt_lu [of "tv_usec u"]
    by (simp add: fmt_time_def length_pad0)
  show ?thesis
    using t [of p] t [of d] assms [THEN length_fmt_d]
    by (simp add: stat_headers_def CRLF_def)
qed

lemma stats_ok:
  assumes "counters_ok s i" "length fin \<le> 2"
  shows "stats MAXLINE s (Some p) (Some d) i fin = Done (thread_stats s p d i @ fin)"
proof -
  have "length (thread_stats s p d i) \<le> 300"
    using assms(1) unfolding thread_stats_def counters_ok_def by (intro length_stat_headers) auto
  then show ?thesis using assms
    by (simp add: stats_def at_def counters_ok_def thread_stats_def sprintf_into_def MAXLINE_def)
qed

lemma stats_ok_buf:
  assumes "counters_ok s i" "length fin \<le> 2"
  shows "stats MAXBUF s (Some p) (Some d) i fin = Done (thread_stats s p d i @ fin)"
  using stats_ok [OF assms] by (simp add: MAXBUF_def MAXLINE_def)

lemma counters_ok_cong: "counters s' = counters s \<Longrightarrow> counters_ok s' i = counters_ok s i"
  by (simp add: counters_def counters_ok_def)

lemma thread_stats_cong: "counters s' = counters s \<Longrightarrow> thread_stats s' p d i = thread_stats s p d i"
  by (simp add: counters_def thread_stats_def)

lemma requestError_response:
  assumes "tx_ok s" "counters_ok s i" "length (error_body cause e sh lo) < MAXBUF"
  shows "\<exists>s'. requestError s cause e sh lo (Some p) (Some d) i = Done s'
    \<and> sent s' = sent s @ error_response s cause e sh lo p d i"
proof -
  let ?body = "error_body cause e sh lo"
  let ?l1 = "''HTTP/1.0 '' @ e @ '' '' @ sh @ CRLF"
  let ?l2 = "''Content-Type: text/html'' @ CRLF"
  let ?l3 = "''Content-Length: '' @ fmt_lu (int (length ?body)) @ CRLF"
  obtain s1 where s1: "send s ?l1 = Done s1" "sent s1 = sent s @ ?l1" "tx_ok s1" "counters s1 = counters s"
    using send_ok [OF assms(1), of ?l1] by (auto simp: tx_ok_def counters_def)
  obtain s2 where s2: "send (print s1 ?l1) ?l2 = Done s2" "sent s2 = sent s1 @ ?l2" "tx_ok s2"
    "counters s2 = counters s"
    using send_ok [of "print s1 ?l1" ?l2] s1 by (auto simp: tx_ok_def counters_def print_def)
  obtain s3 where s3: "send (print s2 ?l2) ?l3 = Done s3" "sent s3 = sent s2 @ ?l3" "tx_ok s3"
    "counters s3 = counters s"
    using send_ok [of "print s2 ?l2" ?l3] s2 by (auto simp: tx_ok_def counters_def print_def)
  let ?hd = "thread_stats s p d i @ CRLF"
  have p3: "counters (print s3 ?l3) = counters s" using s3(4) by simp
  have hd: "stats MAXLINE (print s3 ?l3) (Some p) (Some d) i CRLF = Done ?hd"
    using stats_ok [of "print s3 ?l3" i CRLF p d] assms(2) counters_ok_cong [OF p3]
      thread_stats_cong [OF p3] by (simp add: CRLF_def)
  obtain s4 where s4: "send (print s3 ?l3) ?hd = Done s4" "sent s4 = sent s3 @ ?hd" "tx_ok s4"
    using send_ok [of "print s3 ?l3" ?hd] s3 by (auto simp: tx_ok_def print_def)
  obtain s5 where s5: "send (print s4 ?hd) ?body = Done s5" "sent s5 = sent s4 @ ?body"
    using send_ok [of "print s4 ?hd" ?body] s4 by (auto simp: tx_ok_def print_def)
  have "requestError s cause e sh lo (Some p) (Some d) i = Done (print s5 ?body)"
    using s1(1) s2(1) s3(1) s4(1) s5(1) hd assms(3)
    by (simp add: requestError_def Let_def sprintf_into_def)
  moreover have "sent (print s5 ?body) = sent s @ error_response s cause e sh lo p d i"
    using s1(2) s2(2) s3(2) s4(2) s5(2) by (simp add: print_def error_response_def Let_def)
  ultimately show ?thesis by blast
qed

lemma requestServeStatic_response:
  assumes "tx_ok s" "counters_ok s i" "in_int n"
    and "os_open os f \<ge> 0" "os_mmap os f n = Some content" "os_close os (os_open os f) \<ge> 0" "os_munmap os \<ge> 0"
  shows "\<exists>s'. requestServeStatic os s f n (Some p) (Some d) i = Done s'
    \<and> sent s' = sent s @ static_header n (requestGetFiletype f) @ thread_stats s p d i @ CRLF @ content"
proof -
  let ?h = "static_header n (requestGetFiletype f)" and ?hd = "thread_stats s p d i @ CRLF"
  have "length (requestGetFiletype f) \<le> 10" by (simp add: requestGetFiletype_def)
  then have fits: "length ?h < MAXBUF"
    using length_fmt_d [OF assms(3)] by (simp add: static_header_def CRLF_def MAXBUF_def)
  obtain s1 where s1: "send s ?h = Done s1" "sent s1 = sent s @ ?h" "tx_ok s1" "counters s1 = counters s"
    using send_ok [OF assms(1), of ?h] by (auto simp: tx_ok_def counters_def)
  have hd: "stats MAXBUF s1 (Some p) (Some d) i CRLF = Done ?hd"
    using stats_ok_buf [of s1 i CRLF p d] assms(2) counters_ok_cong [OF s1(4)]
      thread_stats_cong [OF s1(4)] by (simp add: CRLF_def)
  obtain s2 where s2: "send s1 ?hd = Done s2" "sent s2 = sent s1 @ ?hd" "tx_ok s2"
    using send_ok [OF s1(3), of ?hd] by (auto simp: tx_ok_def)
  obtain s3 where s3: "send s2 content = Done s3" "sent s3 = sent s2 @ content"
    using send_ok [OF s2(3), of content] by auto
  have "requestServeStatic os s f n (Some p) (Some d) i = Done s3"
    using assms(4-) fits s1(1) s2(1) s3(1) hd
    by (simp add: requestServeStatic_def Open_def Mmap_def Close_def Munmap_def sprintf_into_def)
  then show ?thesis using s1(2) s2(2) s3(2) by simp
qed

lemma requestServeDynamic_response:
  assumes "tx_ok s" "counters_ok s i" "os_fork os \<ge> 0" "os_waitpid os (os_fork os) \<ge> 0"
  shows "\<exists>s'. requestServeDynamic os s f args (Some p) (Some d) i = Done s'
    \<and> sent s' = sent s @ (''HTTP/1.0 200 OK'' @ CRLF @ ''Server: OS-HW3 Web Server'' @ CRLF)
        @ thread_stats s p d i @ child_output (cgi_child os f args)"
proof -
  let ?h = "''HTTP/1.0 200 OK'' @ CRLF @ ''Server: OS-HW3 Web Server'' @ CRLF"
  obtain s1 where s1: "send s ?h = Done s1" "sent s1 = sent s @ ?h" "tx_ok s1" "counters s1 = counters s"
    using send_ok [OF assms(1), of ?h] by (auto simp: tx_ok_def counters_def)
  have hd: "stats MAXLINE s1 (Some p) (Some d) i '''' = Done (thread_stats s p d i)"
    using stats_ok [of s1 i "''''" p d] assms(2) counters_ok_cong [OF s1(4)] thread_stats_cong [OF s1(4)] by simp
  obtain s2 where s2: "send s1 (thread_stats s p d i) = Done s2" "sent s2 = sent s1 @ thread_stats s p d i"
    using send_ok [OF s1(3), of "thread_stats s p d i"] by auto
  have "requestServeDynamic os s f args (Some p) (Some d) i
      = Done (s2\<lparr>sent := sent s2 @ child_output (cgi_child os f args)\<rparr>)"
    using assms(3,4) s1(1) s2(1) hd by (simp add: requestServeDynamic_def Fork_def WaitPid_def)
  then show ?thesis using s1(2) s2(2) by simp
qed

text \<open>
  The common start of a \<open>GET\<close> request: the first line of the stream names the method and the URI, a
  blank line ends the headers, and the handler goes on to \<open>requestDispatch\<close>.
\<close>

definition get_request :: "stack \<Rightarrow> rq \<Rightarrow> string \<Rightarrow> bool" where
  "get_request st s uri \<longleftrightarrow>
     no_err (rx s) \<and> length (s_rio st) = RIO_BUFSIZE \<and> cstr (s_hdr st) \<noteq> CRLF
     \<and> (let L = line_of (MAXLINE - 1) (stream (rx s)) in
        L \<noteq> [] \<and> has_blank (drop (length L) (stream (rx s)))
        \<and> (\<exists>m v. scan_request (cstr L) st = (m, uri, v) \<and> strcasecmp_eq m ''GET''))"

lemma initial_rio:
  "length junk = RIO_BUFSIZE \<Longrightarrow> rio_ok (Rio_readinitb junk fd) \<and> avail (Rio_readinitb junk fd) es = stream es"
  by (simp add: rio_ok_def Rio_readinitb_def rio_readinitb_def avail_def unread_def)

lemma requestHandle_dispatch:
  assumes "get_request st s uri" "incr (total_counter s) i = Done tc"
  shows "\<exists>s1. requestHandle os st s fd p d i = Some (requestDispatch os s1 uri (s_cgiargs st) p d i)
    \<and> sent s1 = sent s \<and> tx s1 = tx s \<and> static_counter s1 = static_counter s
    \<and> dynamic_counter s1 = dynamic_counter s \<and> total_counter s1 = tc"
proof -
  define L where "L = line_of (MAXLINE - 1) (stream (rx s))"
  obtain m v where g: "no_err (rx s)" "length (s_rio st) = RIO_BUFSIZE" "cstr (s_hdr st) \<noteq> CRLF" "L \<noteq> []"
    "has_blank (drop (length L) (stream (rx s)))" "scan_request (cstr L) st = (m, uri, v)"
    "strcasecmp_eq m ''GET''"
    using assms(1) by (auto simp: get_request_def L_def Let_def)
  note ir = initial_rio [OF g(2), of fd "rx s"]
  obtain rc rp1 es1 where r: "Rio_readlineb (rx s) (Rio_readinitb (s_rio st) fd) MAXLINE =
      Done (rc, L @ [NUL], rp1, es1)" "no_err es1" "rio_ok rp1"
    "avail rp1 es1 = drop (length L) (stream (rx s))"
    using Rio_readlineb_line [OF g(1), of "Rio_readinitb (s_rio st) fd" L] ir g(4) L_def by auto
  obtain rp2 es2 where h: "requestReadhdrs es1 rp1 (s_hdr st) = Some (Done (rp2, es2))"
    using readhdrs_loop_blank [OF g(5) r(2-4) g(3)] requestReadhdrs_eq_loop [OF g(3)] by auto
  let ?s = "s\<lparr>total_counter := tc, tty := tty s @ m @ '' '' @ uri @ '' '' @ v @ [CHR 0x0A], rx := es2\<rparr>"
  have "requestHandle os st s fd p d i = Some (requestDispatch os ?s uri (s_cgiargs st) p d i)"
    using assms(2) r(1) h g(6,7) by (simp add: requestHandle_def cstr_line print_def)
  then show ?thesis by (intro exI [of _ ?s]) simp
qed

text \<open>A request line that begins with \<open>GET\<close> and a URI; it may be cut off right after the URI.\<close>

lemma line_of_begin:
  "CHR 0x0A \<notin> set xs \<Longrightarrow> length xs \<le> k \<Longrightarrow> line_of k (xs @ ys) = xs @ line_of (k - length xs) ys"
proof (induction xs arbitrary: k)
  case (Cons x xs)
  then show ?case by (cases k) auto
qed simp

lemma line_of_hd: "line_of k s = [] \<or> s \<noteq> [] \<and> hd (line_of k s) = hd s"
  by (cases k; cases s) auto

lemma cstr_append: "NUL \<notin> set xs \<Longrightarrow> cstr (xs @ ys) = xs @ cstr ys"
  by (induction xs) (auto simp: cstr_def)

lemma scan_word_word:
  assumes "w \<noteq> []" "\<forall>c\<in>set w. \<not> isspace c" "r = [] \<or> isspace (hd r)"
  shows "scan_word (w @ r) = (w, r)" "scan_word (CHR '' '' # w @ r) = (w, r)"
proof -
  have d: "dropWhile isspace (w @ r) = w @ r" using assms(1,2) by (cases w) auto
  have t: "takeWhile (\<lambda>c. \<not> isspace c) (w @ r) = w" "dropWhile (\<lambda>c. \<not> isspace c) (w @ r) = r"
    using assms(2,3) by (cases r; simp add: takeWhile_append2 dropWhile_append2)+
  show "scan_word (w @ r) = (w, r)" by (simp add: scan_word_def d t)
  show "scan_word (CHR '' '' # w @ r) = (w, r)" by (simp add: scan_word_def d t isspace_def [of "CHR '' ''"])
qed

definition uri_word :: "string \<Rightarrow> bool" where
  "uri_word uri \<longleftrightarrow> uri \<noteq> [] \<and> (\<forall>c\<in>set uri. \<not> isspace c \<and> c \<noteq> NUL)"

lemma get_requestI:
  assumes "no_err (rx s)" "length (s_rio st) = RIO_BUFSIZE" "cstr (s_hdr st) \<noteq> CRLF"
    and "stream (rx s) = ''GET '' @ uri @ rest" "uri_word uri" "length uri \<le> MAXLINE - 5"
    and "length uri = MAXLINE - 5 \<or> rest \<noteq> [] \<and> isspace (hd rest)"
    and "has_blank (drop (length (line_of (MAXLINE - 5 - length uri) rest)) rest)"
  shows "get_request st s uri"
proof -
  let ?r = "line_of (MAXLINE - 5 - length uri) rest"
  have u: "uri \<noteq> []" "\<forall>c\<in>set uri. \<not> isspace c" "NUL \<notin> set uri" using assms(5) by (auto simp: uri_word_def)
  have "CHR 0x0A \<notin> set (''GET '' @ uri)" using u(2) by (auto simp: isspace_def)
  moreover have "length (''GET '' @ uri) \<le> MAXLINE - 1" "MAXLINE - 1 - length (''GET '' @ uri) = MAXLINE - 5 - length uri"
    using assms(6) by (simp_all add: MAXLINE_def)
  ultimately have L: "line_of (MAXLINE - 1) (stream (rx s)) = ''GET '' @ uri @ ?r"
    using line_of_begin [of "''GET '' @ uri" "MAXLINE - 1" rest] unfolding assms(4) by (metis append.assoc)
  have r: "?r = [] \<or> isspace (hd ?r)" using assms(7) line_of_hd [of "MAXLINE - 5 - length uri" rest] by auto
  then have c: "cstr ?r = [] \<or> isspace (hd (cstr ?r))"
    by (cases ?r) (auto simp: cstr_def)
  have "scan_word (''GET'' @ CHR '' '' # uri @ cstr ?r) = (''GET'', CHR '' '' # uri @ cstr ?r)"
    by (rule scan_word_word) (simp_all add: isspace_def)
  moreover have "scan_word (CHR '' '' # uri @ cstr ?r) = (uri, cstr ?r)" by (rule scan_word_word) (use u c in auto)
  moreover have "cstr (''GET '' @ uri @ ?r) = ''GET'' @ CHR '' '' # uri @ cstr ?r"
    using cstr_append [of "''GET '' @ uri" ?r] u(3) by (simp add: NUL_def)
  ultimately have "\<exists>v. scan_request (cstr (''GET '' @ uri @ ?r)) st = (''GET'', uri, v)"
    using u(1) by (auto simp: scan_request_def split: prod.splits)
  moreover have "drop (length (''GET '' @ uri @ ?r)) (''GET '' @ uri @ rest) = drop (length ?r) rest" by simp
  ultimately show ?thesis using assms(1-3,8) unfolding get_request_def Let_def L
    unfolding assms(4) by (auto simp: strcasecmp_eq_def)
qed

text \<open>
  C7. A request can overrun an array of the handler. Take a request \<open>GET uri\<close> whose URI is a word without two dots in a
  row. If the file name made from it does not fit the array \<open>filename\<close> of \<open>MAXLINE\<close> bytes,
  \<open>requestHandle\<close> writes past the end, whatever files there are; otherwise \<open>requestParseURI\<close> returns the name. The request line
  leaves room for a URI of 8187 bytes, for which the name has at least 8196 if it is not that of a program, so such requests do arrive.
\<close>

theorem requestHandle_overflow:
  assumes "no_err (rx s)" "length (s_rio st) = RIO_BUFSIZE" "cstr (s_hdr st) \<noteq> CRLF"
    and "stream (rx s) = ''GET '' @ uri @ rest" "uri_word uri" "length uri \<le> MAXLINE - 5"
    and "length uri = MAXLINE - 5 \<or> rest \<noteq> [] \<and> isspace (hd rest)"
    and "has_blank (drop (length (line_of (MAXLINE - 5 - length uri) rest)) rest)"
    and "\<not> strstr uri ''..''" "incr (total_counter s) i = Done tc"
  shows "if name_length uri < MAXLINE
    then \<exists>b f args s1. requestParseURI uri (s_cgiargs st) = Done (b, f, args) \<and> length f = name_length uri
      \<and> requestHandle os st s fd p d i = Some (requestDispatch os s1 uri (s_cgiargs st) p d i)
    else requestHandle os st s fd p d i = Some Fault"
proof -
  obtain s1 where s1: "requestHandle os st s fd p d i = Some (requestDispatch os s1 uri (s_cgiargs st) p d i)"
    using requestHandle_dispatch [OF get_requestI [OF assms(1-8)] assms(10)] by blast
  have "uri \<noteq> []" using assms(5) by (simp add: uri_word_def)
  from requestParseURI_length [OF this assms(9), of "s_cgiargs st"] show ?thesis
    using s1 by (auto simp: requestDispatch_def split: if_splits)
qed

lemma requestHandle_static:
  assumes "get_request st s uri" "requestParseURI uri (s_cgiargs st) = Done (True, f, args)"
    and "os_stat os f = Some sb" "st_reg sb" "st_rusr sb" "in_int (st_size sb)"
    and "os_open os f \<ge> 0" "os_mmap os f (st_size sb) = Some content"
      "os_close os (os_open os f) \<ge> 0" "os_munmap os \<ge> 0"
    and "tx_ok s" "incr (total_counter s) i = Done tc" "incr (static_counter s) i = Done sc"
      "counters_ok (s\<lparr>total_counter := tc, static_counter := sc\<rparr>) i"
  shows "\<exists>s'. requestHandle os st s fd (Some p) (Some d) i = Some (Done s')
    \<and> sent s' = sent s @ static_header (st_size sb) (requestGetFiletype f)
        @ thread_stats (s\<lparr>total_counter := tc, static_counter := sc\<rparr>) p d i @ CRLF @ content"
proof -
  obtain s1 where s1: "requestHandle os st s fd (Some p) (Some d) i
      = Some (requestDispatch os s1 uri (s_cgiargs st) (Some p) (Some d) i)"
    "sent s1 = sent s" "tx s1 = tx s" "static_counter s1 = static_counter s"
    "dynamic_counter s1 = dynamic_counter s" "total_counter s1 = tc"
    using requestHandle_dispatch [OF assms(1,12)] by blast
  let ?s = "s1\<lparr>static_counter := sc\<rparr>"
  have c: "counters ?s = counters (s\<lparr>total_counter := tc, static_counter := sc\<rparr>)"
    using s1 by (simp add: counters_def)
  have n: "to_signed 32 (st_size sb) = st_size sb"
    using assms(6) by (intro to_signed_id) (auto simp: in_int_def INT_MAX_def)
  have "requestDispatch os s1 uri (s_cgiargs st) (Some p) (Some d) i
      = requestServeStatic os ?s f (st_size sb) (Some p) (Some d) i"
    using assms(2-5,13) s1(4) n by (simp add: requestDispatch_def)
  moreover have "tx_ok ?s" "counters_ok ?s i"
    using assms(11,14) s1(3) counters_ok_cong [OF c] by (simp_all add: tx_ok_def)
  ultimately show ?thesis
    using requestServeStatic_response [of ?s i "st_size sb" os f content p d] assms(6-10) s1(1,2)
      thread_stats_cong [OF c] by auto
qed

lemma requestHandle_dynamic:
  assumes "get_request st s uri" "requestParseURI uri (s_cgiargs st) = Done (False, f, args)"
    and "os_stat os f = Some sb" "st_reg sb" "st_xusr sb"
    and "os_fork os \<ge> 0" "os_waitpid os (os_fork os) \<ge> 0"
    and "tx_ok s" "incr (total_counter s) i = Done tc" "incr (dynamic_counter s) i = Done dc"
      "counters_ok (s\<lparr>total_counter := tc, dynamic_counter := dc\<rparr>) i"
  shows "\<exists>s'. requestHandle os st s fd (Some p) (Some d) i = Some (Done s')
    \<and> sent s' = sent s @ (''HTTP/1.0 200 OK'' @ CRLF @ ''Server: OS-HW3 Web Server'' @ CRLF)
        @ thread_stats (s\<lparr>total_counter := tc, dynamic_counter := dc\<rparr>) p d i @ child_output (cgi_child os f args)"
proof -
  obtain s1 where s1: "requestHandle os st s fd (Some p) (Some d) i
      = Some (requestDispatch os s1 uri (s_cgiargs st) (Some p) (Some d) i)"
    "sent s1 = sent s" "tx s1 = tx s" "static_counter s1 = static_counter s"
    "dynamic_counter s1 = dynamic_counter s" "total_counter s1 = tc"
    using requestHandle_dispatch [OF assms(1,9)] by blast
  let ?s = "s1\<lparr>dynamic_counter := dc\<rparr>"
  have c: "counters ?s = counters (s\<lparr>total_counter := tc, dynamic_counter := dc\<rparr>)"
    using s1 by (simp add: counters_def)
  have "requestDispatch os s1 uri (s_cgiargs st) (Some p) (Some d) i
      = requestServeDynamic os ?s f args (Some p) (Some d) i"
    using assms(2-5,10) s1(5) by (simp add: requestDispatch_def)
  moreover have "tx_ok ?s" "counters_ok ?s i"
    using assms(8,11) s1(3) counters_ok_cong [OF c] by (simp_all add: tx_ok_def)
  ultimately show ?thesis
    using requestServeDynamic_response [of ?s i os f args p d] assms(6,7) s1(1,2) thread_stats_cong [OF c] by auto
qed

definition ex_rq :: rq where
  "ex_rq = \<lparr>rx = [], tx = [WOk 3], sent = [], tty = [], static_counter = [0, 4],
     dynamic_counter = [1, 1], total_counter = [3, 5]\<rparr>"

definition ex_stack :: stack where
  "ex_stack = \<lparr>s_buf = [NUL], s_hdr = [NUL], s_rio = replicate RIO_BUFSIZE NUL, s_method = ''PUT'',
     s_uri = ''/'', s_version = [], s_cgiargs = []\<rparr>"

definition ex_time :: timeval where
  "ex_time = \<lparr>tv_sec = 17, tv_usec = 250\<rparr>"

lemma ex_error:
  "\<exists>s'. requestHandle os ex_stack ex_rq 4 (Some ex_time) (Some ex_time) 1 = Some (Done s')"
proof -
  have inc: "incr (total_counter ex_rq) 1 = Done [3, 6]"
    by (simp add: ex_rq_def incr_Done in_int_def INT_MAX_def)
  have rl: "\<exists>rc rp. Rio_readlineb [] (Rio_readinitb (s_rio ex_stack) 4) MAXLINE = Done (rc, [], rp, [])"
    by (simp add: Rio_readlineb_def rio_readlineb_def readline_loop.simps MAXLINE_def rio_read_def
        rio_refill.simps Rio_readinitb_def rio_readinitb_def)
  have sc: "scan_request (cstr (overlay [] (s_buf ex_stack))) ex_stack = (''PUT'', ''/'', [])"
    by (simp add: scan_request_def scan_word_def ex_stack_def cstr_def overlay_def)
  have m: "\<not> strcasecmp_eq ''PUT'' ''GET''" by code_simp
  let ?s = "ex_rq\<lparr>total_counter := [3, 6], rx := [], tty := ''PUT / '' @ [CHR 0x0A]\<rparr>"
  have "\<exists>s'. requestError ?s ''PUT'' ''501'' ''Not Implemented''
      ''OS-HW3 Server does not implement this method'' (Some ex_time) (Some ex_time) 1 = Done s'
    \<and> sent s' = sent ?s @ error_response ?s ''PUT'' ''501'' ''Not Implemented''
      ''OS-HW3 Server does not implement this method'' ex_time ex_time 1"
    by (rule requestError_response)
      (simp_all add: tx_ok_def counters_ok_def ex_rq_def in_int_def INT_MAX_def error_body_def
        CRLF_def MAXBUF_def)
  then show ?thesis using inc rl sc m
    by (auto simp: requestHandle_def print_def ex_rq_def)
qed

definition ex_os :: os where
  "ex_os = \<lparr>os_stat = (\<lambda>f. if f = ''./public//a.html''
       then Some \<lparr>st_reg = True, st_rusr = True, st_xusr = False, st_size = 2\<rparr>
       else if f = ''./public//e.html''
       then Some \<lparr>st_reg = True, st_rusr = True, st_xusr = False, st_size = 0\<rparr> else None),
     os_open = (\<lambda>_. 7), os_mmap = (\<lambda>f n. if n = 0 then None else Some ''hi''),
     os_close = (\<lambda>_. 0), os_munmap = 0, os_fork = 9, os_waitpid = (\<lambda>p. p), os_setenv = 0, os_dup2 = 1,
     os_execve = (\<lambda>_. None)\<rparr>"

theorem requestHandle_counters_witness:
  "\<exists>s'. requestHandle ex_os ex_stack ex_rq 4 (Some ex_time) (Some ex_time) 1 = Some (Done s')
    \<and> incr (total_counter ex_rq) 1 = Done (total_counter s')"
  using requestHandle_counters ex_error by blast

text \<open>
  C9. The header loop returns if and only if the stream contains a blank header line; it then leaves
  exactly what follows the first one. In particular it never returns when the client closes the
  connection (or the stream ends) before a blank line: \<open>Rio_readlineb\<close> then returns 0 forever and
  the result is not looked at.
\<close>

theorem requestReadhdrs_returns_iff:
  assumes "no_err es" "rio_ok rp" "cstr buf \<noteq> CRLF"
  shows "(if has_blank (avail rp es)
      then \<exists>rp' es'. requestReadhdrs es rp buf = Some (Done (rp', es')) \<and> avail rp' es' = after_blank (avail rp es)
      else requestReadhdrs es rp buf = None)"
proof (cases "has_blank (avail rp es)")
  case True
  then show ?thesis
    using readhdrs_loop_blank [OF True assms(1,2) refl assms(3)] requestReadhdrs_eq_loop [OF assms(3)] by auto
next
  case False
  then have "readhdrs_loop es rp buf = None"
    using readhdrs_loop_hangs [OF _ assms] by (cases "readhdrs_loop es rp buf") auto
  then show ?thesis using False requestReadhdrs_eq_loop [OF assms(3)] by simp
qed

lemma ex_no_blank: "\<not> has_blank (avail ex_rio [RBytes ''A: b''])"
proof -
  have "avail ex_rio [RBytes ''A: b''] = ''A: b''"
    by (simp add: avail_def unread_def ex_rio_def rio_readinitb_def)
  moreover have "line_of (MAXLINE - 1) ''A: b'' = ''A: b''"
    by (simp add: MAXLINE_def line_of_Cons)
  ultimately show ?thesis
    by (simp add: has_blank.simps cstr_def NUL_def CRLF_def)
qed

theorem requestReadhdrs_returns_iff_witness:
  "no_err [RBytes ''A: b''] \<and> rio_ok ex_rio \<and> cstr [NUL] \<noteq> CRLF
   \<and> requestReadhdrs [RBytes ''A: b''] ex_rio [NUL] = None"
proof -
  have h: "no_err [RBytes ''A: b'']" "cstr [NUL] \<noteq> CRLF" by (simp_all add: cstr_def CRLF_def)
  show ?thesis
    using requestReadhdrs_returns_iff [OF h(1) ex_rio_ok h(2)] ex_no_blank ex_rio_ok h by simp
qed

text \<open>
  A static request end to end: a \<open>GET\<close> of a regular file the owner may read, on a connection
  whose writes only ever are partial or interrupted, is answered with the status line, the content
  length and type, the statistics of the thread (counting this request) and the whole file.
\<close>

theorem requestHandle_static_ok:
  assumes "get_request st s uri" "requestParseURI uri (s_cgiargs st) = Done (True, f, args)"
    and "os_stat os f = Some sb" "st_reg sb" "st_rusr sb" "in_int (st_size sb)"
    and "os_open os f \<ge> 0" "os_mmap os f (st_size sb) = Some content"
      "os_close os (os_open os f) \<ge> 0" "os_munmap os \<ge> 0"
    and "tx_ok s" "incr (total_counter s) i = Done tc" "incr (static_counter s) i = Done sc"
      "counters_ok (s\<lparr>total_counter := tc, static_counter := sc\<rparr>) i"
  shows "\<exists>s'. requestHandle os st s fd (Some p) (Some d) i = Some (Done s')
    \<and> sent s' = sent s @ static_header (st_size sb) (requestGetFiletype f)
        @ thread_stats (s\<lparr>total_counter := tc, static_counter := sc\<rparr>) p d i @ CRLF @ content"
  using assms by (rule requestHandle_static)

definition ex_get :: "string \<Rightarrow> rq" where
  "ex_get f = ex_rq\<lparr>rx := [RBytes ''GET /'', RIntr, RBytes (f @ '' HTTP/1.0'' @ [CHR 0x0A] @ CRLF)]\<rparr>"

lemma ex_get_request:
  assumes "f \<in> {''a.html'', ''e.html'', ''n.html''}"
  shows "get_request ex_stack (ex_get f) (''/'' @ f)"
proof -
  let ?l = "''GET /'' @ f @ '' HTTP/1.0'' @ [CHR 0x0A]"
  have st: "stream (rx (ex_get f)) = ?l @ CRLF" by (simp add: ex_get_def)
  have l: "line_of (MAXLINE - 1) (?l @ CRLF) = ?l"
    using assms by (auto simp: MAXLINE_def line_of_Cons)
  have sc: "scan_request (cstr ?l) ex_stack = (''GET'', ''/'' @ f, ''HTTP/1.0'')"
    using assms by (auto simp: scan_request_def scan_word_def cstr_def NUL_def isspace_def)
  have "line_of (MAXLINE - 1) CRLF = CRLF" by (simp add: MAXLINE_def CRLF_def line_of_Cons)
  then have hb: "has_blank CRLF"
    by (simp add: has_blank.simps [of CRLF]) (simp add: CRLF_def cstr_def NUL_def)
  have "no_err (rx (ex_get f))" "length (s_rio ex_stack) = RIO_BUFSIZE" "cstr (s_hdr ex_stack) \<noteq> CRLF"
    by (simp_all add: ex_get_def ex_stack_def cstr_def CRLF_def)
  then show ?thesis unfolding get_request_def st l
    using sc hb by (simp add: strcasecmp_eq_def)
qed

lemma ex_incr: "incr [3, 5] 1 = Done [3, 6]" "incr [0, 4] 1 = Done [0, 5]"
  by (simp_all add: incr_Done in_int_def INT_MAX_def)

theorem requestHandle_static_ok_witness:
  "get_request ex_stack (ex_get ''a.html'') ''/a.html''
   \<and> (\<exists>s' h. requestHandle ex_os ex_stack (ex_get ''a.html'') 4 (Some ex_time) (Some ex_time) 1 = Some (Done s')
        \<and> sent s' = static_header 2 ''text/html'' @ h @ CRLF @ ''hi'')"
proof -
  have g: "get_request ex_stack (ex_get ''a.html'') ''/a.html''"
    using ex_get_request [of "''a.html''"] by simp
  have u: "requestParseURI ''/a.html'' (s_cgiargs ex_stack) = Done (True, ''./public//a.html'', [])"
    by (simp add: requestParseURI_def sprintf_into_def MAXLINE_def)
  have ft: "requestGetFiletype ''./public//a.html'' = ''text/html''"
    by (simp add: requestGetFiletype_def)
  have "\<exists>s'. requestHandle ex_os ex_stack (ex_get ''a.html'') 4 (Some ex_time) (Some ex_time) 1 = Some (Done s')
    \<and> sent s' = sent (ex_get ''a.html'') @ static_header
        (st_size \<lparr>st_reg = True, st_rusr = True, st_xusr = False, st_size = 2\<rparr>)
        (requestGetFiletype ''./public//a.html'')
        @ thread_stats (ex_get ''a.html''\<lparr>total_counter := [3, 6], static_counter := [0, 5]\<rparr>) ex_time ex_time 1
        @ CRLF @ ''hi''"
    by (rule requestHandle_static_ok [OF g u])
      (simp_all add: ex_os_def ex_get_def ex_rq_def in_int_def INT_MAX_def tx_ok_def ex_incr counters_ok_def)
  then show ?thesis using g ft by (auto simp: ex_get_def ex_rq_def)
qed

text \<open>
  C11. A \<open>GET\<close> of a file that \<open>stat\<close> does not find. When the file name has at most 8052 bytes, the request is answered with the 404
  page, whose \<open>Content-Length\<close> is the length of the page, and the per-kind counters stay as they were. Longer names, up
  to 8191 bytes, are accepted by \<open>requestParseURI\<close>, but then the page overruns the array \<open>body\<close> of \<open>requestError\<close>.
\<close>

theorem requestHandle_not_found:
  assumes "get_request st s uri" "requestParseURI uri (s_cgiargs st) = Done (b, f, args)"
    and "os_stat os f = None" "tx_ok s" "incr (total_counter s) i = Done tc"
      "counters_ok (s\<lparr>total_counter := tc\<rparr>) i"
  shows "if length f \<le> 8052
    then \<exists>s'. requestHandle os st s fd (Some p) (Some d) i = Some (Done s')
      \<and> sent s' = sent s @ error_response (s\<lparr>total_counter := tc\<rparr>) f ''404'' ''Not found''
          ''OS-HW3 Server could not find this file'' p d i
      \<and> static_counter s' = static_counter s \<and> dynamic_counter s' = dynamic_counter s
    else requestHandle os st s fd (Some p) (Some d) i = Some Fault"
proof -
  obtain s1 where s1: "requestHandle os st s fd (Some p) (Some d) i
      = Some (requestDispatch os s1 uri (s_cgiargs st) (Some p) (Some d) i)"
    "sent s1 = sent s" "tx s1 = tx s" "static_counter s1 = static_counter s"
    "dynamic_counter s1 = dynamic_counter s" "total_counter s1 = tc"
    using requestHandle_dispatch [OF assms(1,5)] by blast
  let ?msg = "''OS-HW3 Server could not find this file''"
  have c: "counters s1 = counters (s\<lparr>total_counter := tc\<rparr>)" using s1 by (simp add: counters_def)
  have d: "requestDispatch os s1 uri (s_cgiargs st) (Some p) (Some d) i
      = requestError s1 f ''404'' ''Not found'' ?msg (Some p) (Some d) i"
    using assms(2,3) by (simp add: requestDispatch_def)
  have len: "length (error_body f ''404'' ''Not found'' ?msg) < MAXBUF \<longleftrightarrow> length f \<le> 8052"
    by (simp add: error_body_def CRLF_def MAXBUF_def less_Suc_eq_le [of _ 8052, simplified])
  have ok: "tx_ok s1" "counters_ok s1 i"
    using assms(4,6) s1(3) counters_ok_cong [OF c] by (simp_all add: tx_ok_def)
  show ?thesis
  proof (cases "length f \<le> 8052")
    case True
    then obtain s' where s': "requestError s1 f ''404'' ''Not found'' ?msg (Some p) (Some d) i = Done s'"
      "sent s' = sent s1 @ error_response s1 f ''404'' ''Not found'' ?msg p d i"
      using requestError_response [OF ok] len by blast
    moreover have "error_response s1 f ''404'' ''Not found'' ?msg p d i
        = error_response (s\<lparr>total_counter := tc\<rparr>) f ''404'' ''Not found'' ?msg p d i"
      using thread_stats_cong [OF c] by (simp add: error_response_def)
    ultimately show ?thesis
      using s1 d requestError_counters [OF s'(1)] True by (simp add: counters_def)
  next
    case False
    then have "requestError s1 f ''404'' ''Not found'' ?msg (Some p) (Some d) i = Fault"
      using len by (simp add: requestError_def sprintf_into_def not_less)
    then show ?thesis using s1(1) d False by simp
  qed
qed

theorem requestHandle_not_found_witness:
  "get_request ex_stack (ex_get ''n.html'') ''/n.html''
   \<and> (\<exists>s'. requestHandle ex_os ex_stack (ex_get ''n.html'') 4 (Some ex_time) (Some ex_time) 1 = Some (Done s')
        \<and> static_counter s' = [0, 4])"
proof -
  have g: "get_request ex_stack (ex_get ''n.html'') ''/n.html''"
    using ex_get_request [of "''n.html''"] by simp
  have u: "requestParseURI ''/n.html'' (s_cgiargs ex_stack) = Done (True, ''./public//n.html'', [])"
    by (simp add: requestParseURI_def sprintf_into_def MAXLINE_def)
  have o: "os_stat ex_os ''./public//n.html'' = None" "tx_ok (ex_get ''n.html'')"
    "incr (total_counter (ex_get ''n.html'')) 1 = Done [3, 6]"
    "counters_ok (ex_get ''n.html''\<lparr>total_counter := [3, 6]\<rparr>) 1"
    by (simp_all add: ex_os_def ex_get_def ex_rq_def in_int_def INT_MAX_def tx_ok_def ex_incr counters_ok_def)
  show ?thesis
    using requestHandle_not_found [OF g u o, of 4 ex_time ex_time] g by (auto simp: ex_get_def ex_rq_def)
qed

text \<open>
  C12. A request can end the server: \<open>mmap\<close> refuses a mapping of length 0, so a \<open>GET\<close> of an empty
  file goes through \<open>unix_error\<close>, which calls \<open>exit(0)\<close> in the server process.
\<close>

theorem requestHandle_empty_file_exits:
  assumes "get_request st s uri" "requestParseURI uri (s_cgiargs st) = Done (True, f, args)"
    and "os_stat os f = Some sb" "st_reg sb" "st_rusr sb" "st_size sb = 0"
    and mmap_zero: "os_mmap os f 0 = None"
    and "os_open os f \<ge> 0" "incr (total_counter s) i = Done tc" "incr (static_counter s) i = Done sc"
  shows "requestHandle os st s fd p d i = Some Exited"
proof -
  obtain s1 where s1: "requestHandle os st s fd p d i
      = Some (requestDispatch os s1 uri (s_cgiargs st) p d i)" "static_counter s1 = static_counter s"
    using requestHandle_dispatch [OF assms(1,9)] by blast
  have "to_signed 32 0 = 0" by (simp add: to_signed_def)
  then show ?thesis using s1 assms(2-8,10)
    by (simp add: requestDispatch_def requestServeStatic_def Open_def Mmap_def unix_error_def)
qed

theorem requestHandle_empty_file_exits_witness:
  "get_request ex_stack (ex_get ''e.html'') ''/e.html''
   \<and> requestHandle ex_os ex_stack (ex_get ''e.html'') 4 (Some ex_time) (Some ex_time) 1 = Some Exited"
proof -
  have g: "get_request ex_stack (ex_get ''e.html'') ''/e.html''"
    using ex_get_request [of "''e.html''"] by simp
  have u: "requestParseURI ''/e.html'' (s_cgiargs ex_stack) = Done (True, ''./public//e.html'', [])"
    by (simp add: requestParseURI_def sprintf_into_def MAXLINE_def)
  have "requestHandle ex_os ex_stack (ex_get ''e.html'') 4 (Some ex_time) (Some ex_time) 1 = Some Exited"
    by (rule requestHandle_empty_file_exits [OF g u,
          where sb = "\<lparr>st_reg = True, st_rusr = True, st_xusr = False, st_size = 0\<rparr>"])
      (simp_all add: ex_os_def ex_get_def ex_rq_def ex_incr)
  then show ?thesis using g by simp
qed

definition ex_long :: rq where
  "ex_long = ex_rq\<lparr>rx := [RBytes (''GET '' @ replicate 8187 (CHR ''a'') @ '' HTTP/1.0'' @ [CHR 0x0A] @ CRLF)]\<rparr>"

theorem requestHandle_overflow_witness:
  "stream (rx ex_long) = ''GET '' @ replicate 8187 (CHR ''a'') @ '' HTTP/1.0'' @ [CHR 0x0A] @ CRLF
   \<and> requestHandle ex_os ex_stack ex_long 4 (Some ex_time) (Some ex_time) 1 = Some Fault"
proof -
  let ?u = "replicate 8187 (CHR ''a'')" and ?r = "'' HTTP/1.0'' @ [CHR 0x0A] @ CRLF"
  have s: "stream (rx ex_long) = ''GET '' @ ?u @ ?r" by (simp add: ex_long_def)
  have h: "no_err (rx ex_long)" "length (s_rio ex_stack) = RIO_BUFSIZE" "cstr (s_hdr ex_stack) \<noteq> CRLF"
      "uri_word ?u" "length ?u \<le> MAXLINE - 5" "length ?u = MAXLINE - 5" "incr (total_counter ex_long) 1 = Done [3, 6]"
    by (simp_all add: ex_long_def ex_rq_def ex_stack_def cstr_def CRLF_def uri_word_def isspace_def MAXLINE_def ex_incr NUL_def)
  have l: "line_of (MAXLINE - 1) ?r = '' HTTP/1.0'' @ [CHR 0x0A]" "line_of (MAXLINE - 1) CRLF = CRLF"
    by (simp_all add: MAXLINE_def CRLF_def line_of_Cons)
  have "has_blank CRLF" using l(2) by (simp add: has_blank.simps [of CRLF]) (simp add: CRLF_def cstr_def NUL_def)
  then have b: "has_blank ?r"
    using l(1) by (subst has_blank.simps) (simp add: Let_def cstr_def NUL_def CRLF_def del: append_Cons)
  have nd: "\<not> strstr ?u ''..''" by (rule strstr_replicate) simp
  have "\<not> strstr ?u ''cgi''" by (rule strstr_replicate) simp
  then have "\<not> name_length ?u < MAXLINE" by (simp add: name_length_def MAXLINE_def)
  moreover have "has_blank (drop (length (line_of (MAXLINE - 5 - length ?u) ?r)) ?r)" using b h(6) by simp
  ultimately show ?thesis
    using requestHandle_overflow [OF h(1-3) s h(4,5) disjI1 [OF h(6)] _ nd h(7), of ex_os 4 "Some ex_time" "Some ex_time"] s
    by simp
qed

end
