(* ===== verification/Server.thy ===== *)
theory Server
  imports Request "HOL-Library.Multiset"
begin

section \<open>The multi-threaded web server (OS_HW3/server.c)\<close>

text \<open>
  The listener (\<open>main\<close>) and the worker threads (\<open>handle_reqs\<close>) share two request queues under one
  mutex. Every piece of code between \<open>pthread_mutex_lock\<close> and the next \<open>pthread_mutex_unlock\<close> or
  \<open>pthread_cond_wait\<close> is one function of the model and one atomic step, which is what the mutex
  guarantees, since the queues are accessed nowhere else. A wait splits a section: the thread is then
  waiting, is woken by a signal (or spuriously) and evaluates its loop condition again. A signal
  wakes one waiting thread if there is one; which one is not determined.

  The result of \<open>malloc\<close>, \<open>rand\<close>, \<open>accept\<close>, \<open>gettimeofday\<close> and of handling a request are arguments
  of the steps, so the step relation has every behaviour of the environment.
\<close>

subsection \<open>Shared memory and calls of the queue\<close>

record qmem =
  qheap :: req_heap
  pending_reqs :: ReqQ
  busy_threads :: ReqQ

definition pend_insert :: "malloc_req \<Rightarrow> qmem \<Rightarrow> int \<Rightarrow> timeval option \<Rightarrow> qmem option" where
  "pend_insert mal mem fd t =
     do { (h, q) \<leftarrow> insertReq mal (qheap mem) (pending_reqs mem) fd t;
          Some (mem\<lparr>qheap := h, pending_reqs := q\<rparr>) }"

definition pend_remove_first :: "qmem \<Rightarrow> (int \<times> qmem) option" where
  "pend_remove_first mem =
     do { (fd, h, q) \<leftarrow> removeFirstReq (qheap mem) (pending_reqs mem);
          Some (fd, mem\<lparr>qheap := h, pending_reqs := q\<rparr>) }"

definition pend_remove :: "qmem \<Rightarrow> int \<Rightarrow> (int \<times> qmem) option" where
  "pend_remove mem i =
     do { (fd, h, q) \<leftarrow> removeReq (qheap mem) (pending_reqs mem) i;
          Some (fd, mem\<lparr>qheap := h, pending_reqs := q\<rparr>) }"

definition busy_insert :: "malloc_req \<Rightarrow> qmem \<Rightarrow> int \<Rightarrow> timeval option \<Rightarrow> qmem option" where
  "busy_insert mal mem fd t =
     do { (h, q) \<leftarrow> insertReq mal (qheap mem) (busy_threads mem) fd t;
          Some (mem\<lparr>qheap := h, busy_threads := q\<rparr>) }"

definition busy_remove_first :: "qmem \<Rightarrow> (int \<times> qmem) option" where
  "busy_remove_first mem =
     do { (fd, h, q) \<leftarrow> removeFirstReq (qheap mem) (busy_threads mem);
          Some (fd, mem\<lparr>qheap := h, busy_threads := q\<rparr>) }"

definition busy_remove :: "qmem \<Rightarrow> int \<Rightarrow> (int \<times> qmem) option" where
  "busy_remove mem i =
     do { (fd, h, q) \<leftarrow> removeReq (qheap mem) (busy_threads mem) i;
          Some (fd, mem\<lparr>qheap := h, busy_threads := q\<rparr>) }"

text \<open>
  The state of \<open>malloc\<close> between two calls is not visible to the program: an allocator chooses the
  new node from the heap at the call, and \<open>allocates\<close> says that it never fails and never hands out
  memory in use. It may hand out a cell that has just been freed.
\<close>

type_synonym allocator = "req_heap \<Rightarrow> malloc_req"

definition allocates :: "allocator \<Rightarrow> bool" where
  "allocates mal \<longleftrightarrow> (\<forall>h. finite (dom h) \<longrightarrow> malloc_fresh h (mal h))"

subsection \<open>Arguments\<close>

text \<open>\<open>atoi\<close>: optional white space and sign, then digits; undefined when it does not fit an \<open>int\<close>.\<close>

definition atoi :: "string \<Rightarrow> int run" where
  "atoi s =
     (let t = dropWhile isspace s;
          v = (case t of
                 [] \<Rightarrow> 0
               | c # r \<Rightarrow> if c = CHR ''-'' then - atoi_digits 0 r
                          else if c = CHR ''+'' then atoi_digits 0 r else atoi_digits 0 t)
      in run_of (cint v))"

text \<open>
  \<open>getargs\<close>. The program checks for one argument and reads four: a missing one is NULL and reading
  it is undefined, and so is copying a policy name that does not fit the array of 20 bytes.
\<close>

definition getargs :: "string list \<Rightarrow> (int \<times> int \<times> int \<times> string) run" where
  "getargs argv =
     (if length argv < 2 then Exited
      else if length argv < 5 then Fault
      else run_bind (atoi (argv ! 1)) (\<lambda>port.
           run_bind (atoi (argv ! 2)) (\<lambda>max_threads.
           run_bind (atoi (argv ! 3)) (\<lambda>max_requests.
           run_bind (run_of (sprintf_into 20 (argv ! 4))) (\<lambda>policy.
           Done (port, max_threads, max_requests, policy))))))"

subsection \<open>The listener\<close>

text \<open>
  \<open>MBlockW\<close> and \<open>MBfW\<close>: waiting on \<open>no_empty_threads\<close> in the loop of the policy \<open>block\<close> or \<open>bf\<close>;
  \<open>MBlockR\<close> and \<open>MBfR\<close>: woken, about to evaluate the loop condition again.
\<close>

datatype main_pc = MAccept | MBlockW int timeval | MBlockR int timeval | MBfW int | MBfR int

text \<open>
  A section of \<open>main\<close>: the new memory, the descriptors it closed, where the listener is, and
  whether it signalled \<open>no_waiting_reqs\<close>.
\<close>

type_synonym main_res = "qmem \<times> int list \<times> main_pc \<times> bool"

definition is_overloaded :: "int \<Rightarrow> qmem \<Rightarrow> bool" where
  "is_overloaded max_tasks mem \<longleftrightarrow>
     getQsize (pending_reqs mem) + getQsize (busy_threads mem) \<ge> max_tasks"

text \<open>The end of the loop body: insert the request, signal a worker, unlock.\<close>

definition main_insert :: "allocator \<Rightarrow> qmem \<Rightarrow> int \<Rightarrow> timeval \<Rightarrow> int list \<Rightarrow> main_res run" where
  "main_insert mal mem connfd time closed =
     run_bind (run_of (pend_insert (mal (qheap mem)) mem connfd (Some time))) (\<lambda>mem'.
     Done (mem', closed, MAccept, True))"

text \<open>\<open>ceil(n * 0.5)\<close>, exact for an \<open>int\<close>.\<close>

definition half_up :: "int \<Rightarrow> int" where
  "half_up n = (n + 1) div 2"

text \<open>The loop of the policy \<open>random\<close>: \<open>k\<close> iterations are left; \<open>rnd\<close> are the coming results of \<open>rand\<close>.\<close>

fun random_loop :: "(int \<Rightarrow> int) \<Rightarrow> nat \<Rightarrow> (nat \<Rightarrow> int) \<Rightarrow> qmem \<Rightarrow> int list \<Rightarrow> (qmem \<times> int list) run" where
  "random_loop close_rc 0 rnd mem closed = Done (mem, closed)"
| "random_loop close_rc (Suc k) rnd mem closed =
     (if isQempty (pending_reqs mem) then Done (mem, closed)
      else run_bind (run_of (pend_remove mem (rnd k mod getQsize (pending_reqs mem)))) (\<lambda>(fd, mem').
           run_bind (Close (close_rc fd)) (\<lambda>_.
           random_loop close_rc k rnd mem' (closed @ [fd]))))"

text \<open>The loop condition of the policy \<open>block\<close>, and what follows the loop.\<close>

definition main_block :: "int \<Rightarrow> allocator \<Rightarrow> qmem \<Rightarrow> int \<Rightarrow> timeval \<Rightarrow> main_res run" where
  "main_block max_tasks mal mem connfd time =
     (if is_overloaded max_tasks mem then Done (mem, [], MBlockW connfd time, False)
      else main_insert mal mem connfd time [])"

definition main_bf :: "int \<Rightarrow> qmem \<Rightarrow> int \<Rightarrow> main_res run" where
  "main_bf max_tasks mem connfd =
     (if is_overloaded max_tasks mem \<and> \<not> isQempty (busy_threads mem)
      then Done (mem, [], MBfW connfd, False)
      else Done (mem, [connfd], MAccept, False))"

text \<open>
  From the lock after \<open>Accept\<close> on. The tests of \<open>policy\<close> follow each other as in the source: after
  one that does not \<open>continue\<close>, the request is inserted; a name that matches none inserts it too.
\<close>

definition main_section ::
  "string \<Rightarrow> int \<Rightarrow> (int \<Rightarrow> int) \<Rightarrow> allocator \<Rightarrow> (nat \<Rightarrow> int) \<Rightarrow> qmem \<Rightarrow> int \<Rightarrow> timeval \<Rightarrow> main_res run" where
  "main_section policy max_tasks close_rc mal rnd mem connfd time =
     (if is_overloaded max_tasks mem then
        (if policy = ''block'' then main_block max_tasks mal mem connfd time
         else if policy = ''dh'' then
           (if getQsize (pending_reqs mem) \<noteq> 0 then
              run_bind (run_of (pend_remove_first mem)) (\<lambda>(fd, mem').
              main_insert mal mem' connfd time [fd])
            else Done (mem, [connfd], MAccept, False))
         else if policy = ''dt'' then Done (mem, [connfd], MAccept, False)
         else if policy = ''random'' then
           (if getQsize (pending_reqs mem) \<noteq> 0 then
              run_bind (random_loop close_rc (nat (half_up (getQsize (pending_reqs mem)))) rnd mem [])
                (\<lambda>(mem', closed). main_insert mal mem' connfd time closed)
            else run_bind (Close (close_rc connfd)) (\<lambda>_. Done (mem, [connfd], MAccept, False)))
         else if policy = ''bf'' then main_bf max_tasks mem connfd
         else main_insert mal mem connfd time [])
      else main_insert mal mem connfd time [])"

subsection \<open>The workers\<close>

datatype worker_pc = WIdle | WWait | WRun int timeval | WDone int

text \<open>
  From the first lock to the unlock, or to the wait: the loop condition, then the head of the
  pending queue moves to the busy queue. The insertion time is a pointer that may be NULL.
\<close>

definition worker_take ::
  "allocator \<Rightarrow> timeval \<Rightarrow> qmem \<Rightarrow> (qmem \<times> (int \<times> timeval option) option) option" where
  "worker_take mal now mem =
     (if getQsize (pending_reqs mem) = 0 then Some (mem, None)
      else do {
        head_insertion_time \<leftarrow> getFirstReqTime (qheap mem) (pending_reqs mem);
        (fd, mem1) \<leftarrow> pend_remove_first mem;
        mem2 \<leftarrow> busy_insert (mal (qheap mem1)) mem1 fd (Some now);
        Some (mem2, Some (fd, head_insertion_time))
      })"

text \<open>The macro \<open>timersub\<close> of the C library.\<close>

definition timersub :: "timeval \<Rightarrow> timeval \<Rightarrow> timeval" where
  "timersub a b =
     (let s = tv_sec a - tv_sec b; u = tv_usec a - tv_usec b in
      if u < 0 then \<lparr>tv_sec = s - 1, tv_usec = u + 1000000\<rparr> else \<lparr>tv_sec = s, tv_usec = u\<rparr>)"

text \<open>The second critical section: the entry of \<open>fd\<close> leaves the busy queue.\<close>

definition worker_finish :: "qmem \<Rightarrow> int \<Rightarrow> qmem option" where
  "worker_finish mem fd =
     do { reqid \<leftarrow> findFileId (qheap mem) (busy_threads mem) fd;
          (_, mem') \<leftarrow> busy_remove mem reqid;
          Some mem' }"

subsection \<open>The system\<close>

text \<open>\<open>accepted\<close> and \<open>closed\<close> record which descriptors \<open>accept\<close> returned and \<open>close\<close> was called on.\<close>

record server =
  shared :: qmem
  main_at :: main_pc
  workers :: "worker_pc list"
  stat_cnt :: "int list"
  dyn_cnt :: "int list"
  all_cnt :: "int list"
  accepted :: "int multiset"
  closed :: "int multiset"

text \<open>The state when \<open>main\<close> enters its loop, for arguments that pass \<open>malloc\<close>.\<close>

definition init_server :: "int \<Rightarrow> int \<Rightarrow> server" where
  "init_server max_threads max_tasks =
     \<lparr>shared = \<lparr>qheap = Map.empty, pending_reqs = createReqQueue True max_tasks,
             busy_threads = createReqQueue True max_threads\<rparr>,
      main_at = MAccept, workers = replicate (nat max_threads) WIdle,
      stat_cnt = replicate (nat max_threads) 0, dyn_cnt = replicate (nat max_threads) 0,
      all_cnt = replicate (nat max_threads) 0, accepted = {#}, closed = {#}\<rparr>"

text \<open>\<open>pthread_cond_signal(&no_waiting_reqs)\<close>: some waiting worker, if any, is woken.\<close>

inductive signal_worker :: "worker_pc list \<Rightarrow> worker_pc list \<Rightarrow> bool" where
  nobody: "WWait \<notin> set ws \<Longrightarrow> signal_worker ws ws"
| somebody: "i < length ws \<Longrightarrow> ws ! i = WWait \<Longrightarrow> signal_worker ws (ws[i := WIdle])"

text \<open>\<open>pthread_cond_signal(&no_empty_threads)\<close>: only the listener waits on it.\<close>

fun signal_main :: "main_pc \<Rightarrow> main_pc" where
  "signal_main (MBlockW fd t) = MBlockR fd t"
| "signal_main (MBfW fd) = MBfR fd"
| "signal_main pc = pc"

definition after_main :: "server \<Rightarrow> main_res \<Rightarrow> worker_pc list \<Rightarrow> server \<Rightarrow> bool" where
  "after_main s r ws s' \<longleftrightarrow>
     (case r of (m, cl, pc, sig) \<Rightarrow>
        (if sig then signal_worker (workers s) ws else ws = workers s)
        \<and> s' = s\<lparr>shared := m, main_at := pc, workers := ws, closed := closed s + mset cl\<rparr>)"

text \<open>The steps of a server run with the given policy and \<open>max_tasks\<close>.\<close>

inductive step :: "string \<Rightarrow> int \<Rightarrow> server \<Rightarrow> server \<Rightarrow> bool" for policy max_tasks where
  accept: "main_at s = MAccept \<Longrightarrow> allocates mal \<Longrightarrow>
     main_section policy max_tasks close_rc mal rnd (shared s) fd t = Done r \<Longrightarrow>
     after_main (s\<lparr>accepted := add_mset fd (accepted s)\<rparr>) r ws s' \<Longrightarrow> step policy max_tasks s s'"
| block: "main_at s = MBlockR fd t \<Longrightarrow> allocates mal \<Longrightarrow>
     main_block max_tasks mal (shared s) fd t = Done r \<Longrightarrow> after_main s r ws s' \<Longrightarrow> step policy max_tasks s s'"
| bf: "main_at s = MBfR fd \<Longrightarrow> main_bf max_tasks (shared s) fd = Done r \<Longrightarrow>
     after_main s r ws s' \<Longrightarrow> step policy max_tasks s s'"
| main_spurious: "step policy max_tasks s (s\<lparr>main_at := signal_main (main_at s)\<rparr>)"
| wait: "i < length (workers s) \<Longrightarrow> workers s ! i = WIdle \<Longrightarrow>
     worker_take mal now (shared s) = Some (m, None) \<Longrightarrow>
     step policy max_tasks s (s\<lparr>shared := m, workers := (workers s)[i := WWait]\<rparr>)"
| take: "i < length (workers s) \<Longrightarrow> workers s ! i = WIdle \<Longrightarrow>
     allocates mal \<Longrightarrow>
     worker_take mal now (shared s) = Some (m, Some (fd, Some t)) \<Longrightarrow>
     step policy max_tasks s (s\<lparr>shared := m, workers := (workers s)[i := WRun fd t]\<rparr>)"
| worker_spurious: "i < length (workers s) \<Longrightarrow> workers s ! i = WWait \<Longrightarrow>
     step policy max_tasks s (s\<lparr>workers := (workers s)[i := WIdle]\<rparr>)"
| handle: "i < length (workers s) \<Longrightarrow> workers s ! i = WRun fd t \<Longrightarrow>
     static_counter q = stat_cnt s \<Longrightarrow> dynamic_counter q = dyn_cnt s \<Longrightarrow> total_counter q = all_cnt s \<Longrightarrow>
     requestHandle os st q fd (Some t) (Some (timersub now t)) (int i) = Some (Done q') \<Longrightarrow>
     step policy max_tasks s (s\<lparr>workers := (workers s)[i := WDone fd], closed := add_mset fd (closed s),
       stat_cnt := static_counter q', dyn_cnt := dynamic_counter q', all_cnt := total_counter q'\<rparr>)"
| finish: "i < length (workers s) \<Longrightarrow> workers s ! i = WDone fd \<Longrightarrow>
     worker_finish (shared s) fd = Some m \<Longrightarrow>
     step policy max_tasks s
       (s\<lparr>shared := m, workers := (workers s)[i := WIdle], main_at := signal_main (main_at s)\<rparr>)"

inductive reachable :: "string \<Rightarrow> int \<Rightarrow> int \<Rightarrow> server \<Rightarrow> bool" for policy max_threads max_tasks where
  start: "reachable policy max_threads max_tasks (init_server max_threads max_tasks)"
| step: "reachable policy max_threads max_tasks s \<Longrightarrow> step policy max_tasks s s' \<Longrightarrow>
     reachable policy max_threads max_tasks s'"


subsection \<open>Both queues in one heap\<close>

text \<open>
  The heap holds the nodes of the two queues and nothing else. Seen from one of the queues the
  other one is the frame, so both satisfy the interface \<open>fifo_queue\<close>.
\<close>

definition two_rep ::
  "req_heap \<Rightarrow> ReqQ \<Rightarrow> int \<Rightarrow> entry list \<Rightarrow> ReqQ \<Rightarrow> int \<Rightarrow> entry list \<Rightarrow> bool" where
  "two_rep h p c xs q d ys \<longleftrightarrow>
     (\<exists>ns ms. q_rep h p c ns \<and> q_rep h q d ms \<and> map snd ns = xs \<and> map snd ms = ys
        \<and> set (addrs ns) \<inter> set (addrs ms) = {} \<and> dom h = set (addrs ns) \<union> set (addrs ms))"

lemma two_rep_comm: "two_rep h p c xs q d ys = two_rep h q d ys p c xs"
  unfolding two_rep_def by (metis Int_commute Un_commute)

lemma two_rep_split:
  "two_rep h p c xs q d ys \<longleftrightarrow> (\<exists>f. queue_rep (h, p) c xs f \<and> queue_rep (f, q) d ys Map.empty)"
proof
  assume "two_rep h p c xs q d ys"
  then obtain ns ms where r: "q_rep h p c ns" "q_rep h q d ms" "map snd ns = xs" "map snd ms = ys"
    "set (addrs ns) \<inter> set (addrs ms) = {}" "dom h = set (addrs ns) \<union> set (addrs ms)"
    unfolding two_rep_def by blast
  let ?f = "h |` set (addrs ms)"
  have d: "dom ?f = set (addrs ms)" using r(6) by auto
  have "keeps h ?f (- set (addrs ms))" by (simp add: keeps_def)
  then have "q_rep ?f q d ms" using q_rep_keeps [OF r(2)] by blast
  then have "queue_rep (?f, q) d ys Map.empty"
    using r(4) d unfolding queue_rep_def by auto
  moreover have "?f \<subseteq>\<^sub>m h" by (simp add: map_le_def)
  then have "queue_rep (h, p) c xs ?f"
    using r d unfolding queue_rep_def by (intro exI [of _ ns]) auto
  ultimately show "\<exists>f. queue_rep (h, p) c xs f \<and> queue_rep (f, q) d ys Map.empty" by blast
next
  assume "\<exists>f. queue_rep (h, p) c xs f \<and> queue_rep (f, q) d ys Map.empty"
  then obtain f ns ms where r: "q_rep h p c ns" "map snd ns = xs" "f \<subseteq>\<^sub>m h"
    "dom f \<inter> set (addrs ns) = {}" "dom h = dom f \<union> set (addrs ns)"
    "q_rep f q d ms" "map snd ms = ys" "dom f = set (addrs ms)"
    unfolding queue_rep_def by auto
  have "keeps f h (- dom f)" using r(3) by (auto simp: keeps_def map_le_def)
  then have "q_rep h q d ms" using q_rep_keeps [OF r(6)] r(8) by blast
  then show "two_rep h p c xs q d ys" unfolding two_rep_def using r by blast
qed

definition mem_rep :: "qmem \<Rightarrow> int \<Rightarrow> entry list \<Rightarrow> int \<Rightarrow> entry list \<Rightarrow> bool" where
  "mem_rep mem c xs d ys = two_rep (qheap mem) (pending_reqs mem) c xs (busy_threads mem) d ys"

lemma mem_rep_pend:
  "mem_rep mem c xs d ys \<longleftrightarrow>
     (\<exists>f. queue_rep (qheap mem, pending_reqs mem) c xs f \<and> queue_rep (f, busy_threads mem) d ys Map.empty)"
  by (simp add: mem_rep_def two_rep_split)

lemma mem_rep_busy:
  "mem_rep mem c xs d ys \<longleftrightarrow>
     (\<exists>f. queue_rep (qheap mem, busy_threads mem) d ys f \<and> queue_rep (f, pending_reqs mem) c xs Map.empty)"
  by (subst mem_rep_def, subst two_rep_comm, rule two_rep_split)

lemma mem_rep_finite: "mem_rep mem c xs d ys \<Longrightarrow> finite (dom (qheap mem))"
  unfolding mem_rep_def two_rep_def by auto

lemma allocates_fresh:
  "allocates mal \<Longrightarrow> mem_rep mem c xs d ys \<Longrightarrow> malloc_fresh (qheap mem) (mal (qheap mem))"
  by (simp add: allocates_def mem_rep_finite)

interpretation pend: fifo_queue "\<lambda>mem c xs (d, ys). mem_rep mem c xs d ys"
  "\<lambda>mem m. malloc_fresh (qheap mem) m"
  "\<lambda>m mem fd t. pend_insert m mem fd t"
  pend_remove_first pend_remove "\<lambda>mem. getQsize (pending_reqs mem)"
  "\<lambda>mem fd. findFileId (qheap mem) (pending_reqs mem) fd"
  "\<lambda>mem. getFirstReqTime (qheap mem) (pending_reqs mem)"
proof unfold_locales
  fix s cap xs fr m fd t i assume "case fr of (d, ys) \<Rightarrow> mem_rep s cap xs d ys"
  then obtain d ys f where q: "queue_rep (qheap s, pending_reqs s) cap xs f"
    "queue_rep (f, busy_threads s) d ys Map.empty" and fr: "fr = (d, ys)"
    by (cases fr) (auto simp: mem_rep_pend)
  show "int (length xs) \<le> cap" using rq.rep_cap [OF q(1)] .
  show "\<exists>s'. pend_insert m s fd t = Some s' \<and> (case fr of (d, ys) \<Rightarrow> mem_rep s' cap (xs @ [(fd, t)]) d ys)"
    if "malloc_fresh (qheap s) m" "int (length xs) < cap"
    using rq.ins_room [OF q(1), of m fd t] that q(2) fr by (auto simp: pend_insert_def mem_rep_pend)
  show "pend_insert m s fd t = Some s" if "int (length xs) = cap"
    using rq.ins_full [OF q(1) that, of m fd t] by (simp add: pend_insert_def)
  show "pend_remove s i = Some (- 1, s)" if "i < 0 \<or> int (length xs) \<le> i"
    using rq.rem_bad [OF q(1) that] by (simp add: pend_remove_def)
  show "getQsize (pending_reqs s) = int (length xs)" using rq.qsize_rep [OF q(1)] by simp
  show "findFileId (qheap s) (pending_reqs s) fd =
      Some (case fd_index xs fd of None \<Rightarrow> - 1 | Some j \<Rightarrow> int j)" using rq.find_rep [OF q(1)] by simp
  show "getFirstReqTime (qheap s) (pending_reqs s) = Some (case xs of [] \<Rightarrow> None | x # _ \<Rightarrow> snd x)"
    using rq.first_time_rep [OF q(1)] by simp
next
  fix s cap fr assume "case fr of (d, ys) \<Rightarrow> mem_rep s cap [] d ys"
  then show "pend_remove_first s = Some (- 1, s)"
    using rq.rem_first_Nil by (auto simp: mem_rep_pend pend_remove_first_def)
next
  fix s cap d t xs fr assume "case fr of (dd, ys) \<Rightarrow> mem_rep s cap ((d, t) # xs) dd ys"
  then show "\<exists>s'. pend_remove_first s = Some (d, s') \<and> (case fr of (dd, ys) \<Rightarrow> mem_rep s' cap xs dd ys)"
    by (auto simp: mem_rep_pend pend_remove_first_def dest!: rq.rem_first_Cons)
next
  fix s cap xs d t ys fr assume "case fr of (dd, zs) \<Rightarrow> mem_rep s cap (xs @ (d, t) # ys) dd zs"
  then show "\<exists>s'. pend_remove s (int (length xs)) = Some (d, s')
      \<and> (case fr of (dd, zs) \<Rightarrow> mem_rep s' cap (xs @ ys) dd zs)"
    by (auto simp: mem_rep_pend pend_remove_def dest!: rq.rem_mid)
qed

interpretation busy: fifo_queue "\<lambda>mem d ys (c, xs). mem_rep mem c xs d ys"
  "\<lambda>mem m. malloc_fresh (qheap mem) m"
  "\<lambda>m mem fd t. busy_insert m mem fd t"
  busy_remove_first busy_remove "\<lambda>mem. getQsize (busy_threads mem)"
  "\<lambda>mem fd. findFileId (qheap mem) (busy_threads mem) fd"
  "\<lambda>mem. getFirstReqTime (qheap mem) (busy_threads mem)"
proof unfold_locales
  fix s cap ys fr m fd t i assume "case fr of (c, xs) \<Rightarrow> mem_rep s c xs cap ys"
  then obtain c xs f where q: "queue_rep (qheap s, busy_threads s) cap ys f"
    "queue_rep (f, pending_reqs s) c xs Map.empty" and fr: "fr = (c, xs)"
    by (cases fr) (auto simp: mem_rep_busy)
  show "int (length ys) \<le> cap" using rq.rep_cap [OF q(1)] .
  show "\<exists>s'. busy_insert m s fd t = Some s' \<and> (case fr of (c, xs) \<Rightarrow> mem_rep s' c xs cap (ys @ [(fd, t)]))"
    if "malloc_fresh (qheap s) m" "int (length ys) < cap"
    using rq.ins_room [OF q(1), of m fd t] that q(2) fr by (auto simp: busy_insert_def mem_rep_busy)
  show "busy_insert m s fd t = Some s" if "int (length ys) = cap"
    using rq.ins_full [OF q(1) that, of m fd t] by (simp add: busy_insert_def)
  show "busy_remove s i = Some (- 1, s)" if "i < 0 \<or> int (length ys) \<le> i"
    using rq.rem_bad [OF q(1) that] by (simp add: busy_remove_def)
  show "getQsize (busy_threads s) = int (length ys)" using rq.qsize_rep [OF q(1)] by simp
  show "findFileId (qheap s) (busy_threads s) fd =
      Some (case fd_index ys fd of None \<Rightarrow> - 1 | Some j \<Rightarrow> int j)" using rq.find_rep [OF q(1)] by simp
  show "getFirstReqTime (qheap s) (busy_threads s) = Some (case ys of [] \<Rightarrow> None | x # _ \<Rightarrow> snd x)"
    using rq.first_time_rep [OF q(1)] by simp
next
  fix s cap fr assume "case fr of (c, xs) \<Rightarrow> mem_rep s c xs cap []"
  then show "busy_remove_first s = Some (- 1, s)"
    using rq.rem_first_Nil by (auto simp: mem_rep_busy busy_remove_first_def)
next
  fix s cap d t ys fr assume "case fr of (c, xs) \<Rightarrow> mem_rep s c xs cap ((d, t) # ys)"
  then show "\<exists>s'. busy_remove_first s = Some (d, s') \<and> (case fr of (c, xs) \<Rightarrow> mem_rep s' c xs cap ys)"
    by (auto simp: mem_rep_busy busy_remove_first_def dest!: rq.rem_first_Cons)
next
  fix s cap xs d t ys fr assume "case fr of (c, zs) \<Rightarrow> mem_rep s c zs cap (xs @ (d, t) # ys)"
  then show "\<exists>s'. busy_remove s (int (length xs)) = Some (d, s')
      \<and> (case fr of (c, zs) \<Rightarrow> mem_rep s' c zs cap (xs @ ys))"
    by (auto simp: mem_rep_busy busy_remove_def dest!: rq.rem_mid)
qed


subsection \<open>What the critical sections do\<close>

abbreviation fds :: "entry list \<Rightarrow> int multiset" where
  "fds xs \<equiv> mset (map fst xs)"

definition known_policy :: "string \<Rightarrow> bool" where
  "known_policy p \<longleftrightarrow> p \<in> {''block'', ''dh'', ''dt'', ''random'', ''bf''}"

text \<open>The descriptor the listener holds, accepted but neither queued nor closed.\<close>

fun held :: "main_pc \<Rightarrow> int multiset" where
  "held (MBlockW fd t) = {#fd#}"
| "held (MBlockR fd t) = {#fd#}"
| "held (MBfW fd) = {#fd#}"
| "held (MBfR fd) = {#fd#}"
| "held MAccept = {#}"

text \<open>Why a waiting listener waits.\<close>

fun main_waits :: "int \<Rightarrow> entry list \<Rightarrow> entry list \<Rightarrow> main_pc \<Rightarrow> bool" where
  "main_waits T xs ys (MBlockW fd t) = (T \<le> int (length xs + length ys))"
| "main_waits T xs ys (MBfW fd) = (ys \<noteq> [])"
| "main_waits T xs ys pc = True"

definition timed :: "entry list \<Rightarrow> bool" where
  "timed xs \<longleftrightarrow> (\<forall>x\<in>set xs. snd x \<noteq> None)"

text \<open>
  The contract of a section of the listener that starts with the pending entries \<open>xs\<close> and the
  connection \<open>fd\<close>: every descriptor is in the queue, held or closed afterwards, at most \<open>T\<close>
  requests are in the server, and a new entry is signalled.
\<close>

definition main_ok ::
  "int \<Rightarrow> int \<Rightarrow> entry list \<Rightarrow> entry list \<Rightarrow> int \<Rightarrow> main_res run \<Rightarrow> bool" where
  "main_ok T N xs ys fd r \<longleftrightarrow>
     (case r of Fault \<Rightarrow> False | Exited \<Rightarrow> True
      | Done (mem', cl, pc, sig) \<Rightarrow>
          \<exists>zs. mem_rep mem' T zs N ys \<and> int (length zs + length ys) \<le> T \<and> timed zs
            \<and> fds zs + held pc + mset cl = fds xs + {#fd#}
            \<and> main_waits T zs ys pc \<and> (sig \<or> set zs \<subseteq> set xs))"

lemma is_overloaded_rep:
  "mem_rep mem T xs N ys \<Longrightarrow> is_overloaded T mem \<longleftrightarrow> T \<le> int (length xs + length ys)"
  using pend.qsize_rep [of mem T xs "(N, ys)"] busy.qsize_rep [of mem N ys "(T, xs)"]
  by (simp add: is_overloaded_def)

lemma pend_empty_rep: "mem_rep mem T xs N ys \<Longrightarrow> isQempty (pending_reqs mem) \<longleftrightarrow> xs = []"
  by (auto simp: mem_rep_pend queue_rep_def isQempty_ok)

lemma busy_empty_rep: "mem_rep mem T xs N ys \<Longrightarrow> isQempty (busy_threads mem) \<longleftrightarrow> ys = []"
  by (auto simp: mem_rep_busy queue_rep_def isQempty_ok)

lemma main_insert_ok:
  assumes rep: "mem_rep mem T zs N ys" and al: "allocates mal"
    and room: "int (length zs + length ys) < T" and "timed zs"
    and cl: "fds zs + mset cl = fds xs"
  shows "main_ok T N xs ys fd (main_insert mal mem fd t cl)"
proof -
  obtain mem' where "pend_insert (mal (qheap mem)) mem fd (Some t) = Some mem'"
    "mem_rep mem' T (zs @ [(fd, Some t)]) N ys"
    using pend.ins_room [of mem T zs "(N, ys)" "mal (qheap mem)" fd "Some t"]
      allocates_fresh [OF al rep] rep room by auto
  then show ?thesis
    using assms(4) room cl unfolding main_ok_def main_insert_def
    by (auto simp: timed_def intro!: exI [of _ "zs @ [(fd, Some t)]"])
qed

lemma main_block_ok:
  assumes "mem_rep mem T xs N ys" "allocates mal" "int (length xs + length ys) \<le> T" "timed xs"
  shows "main_ok T N xs ys fd (main_block T mal mem fd t)"
proof (cases "is_overloaded T mem")
  case True
  then show ?thesis using assms is_overloaded_rep [OF assms(1)]
    by (auto simp: main_ok_def main_block_def intro!: exI [of _ xs])
next
  case False
  then have "main_block T mal mem fd t = main_insert mal mem fd t []" by (simp add: main_block_def)
  then show ?thesis using main_insert_ok [OF assms(1,2)] assms(4) False is_overloaded_rep [OF assms(1)]
    by simp
qed

lemma main_bf_ok:
  assumes "mem_rep mem T xs N ys" "int (length xs + length ys) \<le> T" "timed xs"
  shows "main_ok T N xs ys fd (main_bf T mem fd)"
  using assms busy_empty_rep [OF assms(1)]
  by (auto simp: main_ok_def main_bf_def intro!: exI [of _ xs])

lemma random_loop_ok:
  assumes "mem_rep mem T zs N ys" "fds zs + mset cl = fds xs" "timed zs"
  shows "random_loop close_rc k rnd mem cl = Exited
    \<or> (\<exists>mem' cl' us. random_loop close_rc k rnd mem cl = Done (mem', cl')
        \<and> mem_rep mem' T us N ys \<and> fds us + mset cl' = fds xs \<and> timed us
        \<and> length us = length zs - k)"
  using assms
proof (induction k arbitrary: mem cl zs)
  case 0
  then show ?case by auto
next
  case (Suc k)
  show ?case
  proof (cases "zs = []")
    case True
    then show ?thesis using Suc.prems pend_empty_rep [OF Suc.prems(1)] by auto
  next
    case False
    let ?n = "rnd k mod getQsize (pending_reqs mem)"
    have q: "getQsize (pending_reqs mem) = int (length zs)"
      using pend.qsize_rep [of mem T zs "(N, ys)"] Suc.prems(1) by simp
    have "0 \<le> ?n" "?n < int (length zs)" using False by (auto simp: q)
    then obtain i where i: "?n = int i" "i < length zs" by (metis nonneg_int_cases of_nat_less_iff)
    from pend.rem_nth [of mem T zs "(N, ys)" i] Suc.prems(1) i(2) obtain mem' where
      m: "pend_remove mem (int i) = Some (fst (zs ! i), mem')"
        "mem_rep mem' T (take i zs @ drop (Suc i) zs) N ys" by auto
    let ?us = "take i zs @ drop (Suc i) zs"
    have z: "zs = take i zs @ zs ! i # drop (Suc i) zs" using i(2) by (rule id_take_nth_drop)
    have f: "fds zs = add_mset (fst (zs ! i)) (fds ?us)"
      by (subst z) (simp del: append_take_drop_id)
    have t: "timed ?us" using Suc.prems(3) unfolding timed_def
      by (auto dest: in_set_takeD in_set_dropD)
    have "fds ?us + mset (cl @ [fst (zs ! i)]) = fds xs" using f Suc.prems(2) by simp
    from Suc.IH [OF m(2) this t] show ?thesis
      using False m(1) i pend_empty_rep [OF Suc.prems(1)]
      by (cases "Close (close_rc (fst (zs ! i)))") (auto simp: Close_def unix_error_def split: if_splits)
  qed
qed


lemma main_drop_ok:
  assumes "mem_rep mem T xs N ys" "int (length xs + length ys) \<le> T" "timed xs"
  shows "main_ok T N xs ys fd (Done (mem, [fd], MAccept, False))"
  using assms by (auto simp: main_ok_def intro!: exI [of _ xs])

lemma main_dh_ok:
  assumes "mem_rep mem T (x # zs) N ys" "allocates mal" "int (length (x # zs) + length ys) \<le> T"
    "timed (x # zs)"
  shows "main_ok T N (x # zs) ys fd
    (run_bind (run_of (pend_remove_first mem)) (\<lambda>(f, mem'). main_insert mal mem' fd t [f]))"
proof -
  obtain d u where x: "x = (d, u)" by (cases x)
  obtain mem' where m: "pend_remove_first mem = Some (d, mem')" "mem_rep mem' T zs N ys"
    using pend.rem_first_Cons [of mem T d u zs "(N, ys)"] assms(1) x by auto
  have "main_ok T N (x # zs) ys fd (main_insert mal mem' fd t [d])"
    using assms x by (intro main_insert_ok [OF m(2) assms(2)]) (auto simp: timed_def)
  then show ?thesis using m(1) by simp
qed

lemma main_random_ok:
  assumes "mem_rep mem T xs N ys" "allocates mal" "int (length xs + length ys) \<le> T" "timed xs"
    "xs \<noteq> []"
  shows "main_ok T N xs ys fd
    (run_bind (random_loop close_rc (nat (half_up (int (length xs)))) rnd mem [])
       (\<lambda>(mem', closed). main_insert mal mem' fd t closed))"
proof -
  let ?k = "nat (half_up (int (length xs)))"
  have k: "0 < ?k" using assms(5) by (cases xs) (auto simp: half_up_def)
  from random_loop_ok [OF assms(1), of "[]" xs close_rc ?k rnd] assms(4)
  consider "random_loop close_rc ?k rnd mem [] = Exited"
    | mem' cl us where "random_loop close_rc ?k rnd mem [] = Done (mem', cl)"
      "mem_rep mem' T us N ys" "fds us + mset cl = fds xs" "timed us" "length us = length xs - ?k"
    by auto
  then show ?thesis
  proof cases
    case 1
    then show ?thesis by (simp add: main_ok_def)
  next
    case 2
    have "length us < length xs" using 2(5) k assms(5) by (cases xs) auto
    then have "main_ok T N xs ys fd (main_insert mal mem' fd t cl)"
      using assms(3) by (intro main_insert_ok [OF 2(2) assms(2) _ 2(4,3)]) auto
    then show ?thesis using 2(1) by simp
  qed
qed

lemma main_section_ok:
  assumes "mem_rep mem T xs N ys" "allocates mal" "int (length xs + length ys) \<le> T" "timed xs"
    "known_policy policy"
  shows "main_ok T N xs ys fd (main_section policy T close_rc mal rnd mem fd t)"
proof (cases "is_overloaded T mem")
  case False
  then show ?thesis
    using main_insert_ok [OF assms(1,2) _ assms(4), of "[]"] is_overloaded_rep [OF assms(1)]
    by (simp add: main_section_def)
next
  case True
  have q: "getQsize (pending_reqs mem) = int (length xs)"
    using pend.qsize_rep [of mem T xs "(N, ys)"] assms(1) by simp
  note drop = main_drop_ok [OF assms(1,3,4)]
  note defs = main_section_def True q
  from assms(5) consider "policy = ''block''" | "policy = ''dh''" | "policy = ''dt''"
    | "policy = ''random''" | "policy = ''bf''" by (auto simp: known_policy_def)
  then show ?thesis
  proof cases
    case 1 then show ?thesis using main_block_ok [OF assms(1-4)] by (simp add: defs)
  next
    case 2 then show ?thesis using drop main_dh_ok [of mem T _ _ N ys mal] assms
      by (cases xs) (auto simp: defs)
  next
    case 3 then show ?thesis using drop by (simp add: defs)
  next
    case 4 then show ?thesis using drop main_random_ok [OF assms(1-4)]
      by (cases "xs = []") (auto simp: defs Close_def unix_error_def main_ok_def)
  next
    case 5 then show ?thesis using main_bf_ok [OF assms(1,3,4)] by (simp add: defs)
  qed
qed

lemma worker_take_empty:
  "mem_rep mem T [] N ys \<Longrightarrow> worker_take mal now mem = Some (mem, None)"
  using pend.qsize_rep [of mem T "[]" "(N, ys)"] by (simp add: worker_take_def)

lemma worker_take_ok:
  assumes "mem_rep mem T ((fd, t) # xs) N ys" "allocates mal" "int (length ys) < N"
  shows "\<exists>mem'. worker_take mal now mem = Some (mem', Some (fd, t))
    \<and> mem_rep mem' T xs N (ys @ [(fd, Some now)])"
proof -
  have q: "getQsize (pending_reqs mem) \<noteq> 0"
    "getFirstReqTime (qheap mem) (pending_reqs mem) = Some t"
    using pend.qsize_rep [of mem T "(fd, t) # xs" "(N, ys)"]
      pend.first_time_rep [of mem T "(fd, t) # xs" "(N, ys)"] assms(1) by auto
  obtain mem1 where m1: "pend_remove_first mem = Some (fd, mem1)" "mem_rep mem1 T xs N ys"
    using pend.rem_first_Cons [of mem T fd t xs "(N, ys)"] assms(1) by auto
  obtain mem2 where "busy_insert (mal (qheap mem1)) mem1 fd (Some now) = Some mem2"
    "mem_rep mem2 T xs N (ys @ [(fd, Some now)])"
    using busy.ins_room [of mem1 N ys "(T, xs)" "mal (qheap mem1)" fd "Some now"] m1(2) assms(3)
      allocates_fresh [OF assms(2) m1(2)] by auto
  then show ?thesis using q m1(1) by (simp add: worker_take_def)
qed

lemma worker_finish_ok:
  assumes "mem_rep mem T xs N ys" "fd \<in># fds ys"
  shows "\<exists>mem' zs. worker_finish mem fd = Some mem' \<and> mem_rep mem' T xs N zs
    \<and> fds ys = add_mset fd (fds zs)"
proof -
  have "fd \<in> set (map fst ys)" using assms(2) by auto
  from busy.find_rem [of mem N ys "(T, xs)", OF _ this] assms(1) obtain i mem' where
    i: "findFileId (qheap mem) (busy_threads mem) fd = Some (int i)"
      "busy_remove mem (int i) = Some (fd, mem')"
      "mem_rep mem' T xs N (take i ys @ drop (Suc i) ys)" "i < length ys" "fst (ys ! i) = fd"
    by auto
  have z: "ys = take i ys @ ys ! i # drop (Suc i) ys" using i(4) by (rule id_take_nth_drop)
  have "fds ys = add_mset fd (fds (take i ys @ drop (Suc i) ys))"
    using i(5) by (subst z) (simp del: append_take_drop_id)
  then show ?thesis using i(1-3) by (auto simp: worker_finish_def)
qed


subsection \<open>The invariant of the system\<close>

text \<open>The descriptors in the hands of a worker: busy until removed, open until closed.\<close>

fun busy_fd :: "worker_pc \<Rightarrow> int multiset" where
  "busy_fd (WRun fd t) = {#fd#}"
| "busy_fd (WDone fd) = {#fd#}"
| "busy_fd _ = {#}"

fun open_fd :: "worker_pc \<Rightarrow> int multiset" where
  "open_fd (WRun fd t) = {#fd#}"
| "open_fd _ = {#}"

definition busy_fds :: "worker_pc list \<Rightarrow> int multiset" where
  "busy_fds ws = sum_list (map busy_fd ws)"

definition open_fds :: "worker_pc list \<Rightarrow> int multiset" where
  "open_fds ws = sum_list (map open_fd ws)"

definition awake :: "worker_pc list \<Rightarrow> bool" where
  "awake ws \<longleftrightarrow> (\<exists>w\<in>set ws. w \<noteq> WWait)"

definition sys_inv :: "int \<Rightarrow> int \<Rightarrow> server \<Rightarrow> entry list \<Rightarrow> entry list \<Rightarrow> bool" where
  "sys_inv T N s xs ys \<longleftrightarrow>
     mem_rep (shared s) T xs N ys \<and> int (length xs + length ys) \<le> T \<and> timed xs
     \<and> int (length (workers s)) = N \<and> fds ys = busy_fds (workers s)
     \<and> accepted s = fds xs + open_fds (workers s) + held (main_at s) + closed s
     \<and> main_waits T xs ys (main_at s) \<and> (xs \<noteq> [] \<longrightarrow> workers s \<noteq> [] \<longrightarrow> awake (workers s))"

lemma sum_list_update_mset:
  fixes f :: "'a \<Rightarrow> int multiset"
  assumes "i < length ws"
  shows "sum_list (map f (ws[i := w])) + f (ws ! i) = sum_list (map f ws) + f w"
  using assms by (induction ws arbitrary: i) (auto split: nat.split simp: ac_simps)

lemma busy_fds_update:
  "i < length ws \<Longrightarrow> busy_fds (ws[i := w]) + busy_fd (ws ! i) = busy_fds ws + busy_fd w"
  by (simp add: busy_fds_def sum_list_update_mset)

lemma open_fds_update:
  "i < length ws \<Longrightarrow> open_fds (ws[i := w]) + open_fd (ws ! i) = open_fds ws + open_fd w"
  by (simp add: open_fds_def sum_list_update_mset)

lemma awake_update: "i < length ws \<Longrightarrow> w \<noteq> WWait \<Longrightarrow> awake (ws[i := w])"
  unfolding awake_def by (meson set_update_memI)

lemmas worker_update = busy_fds_update open_fds_update awake_update

lemma size_busy_fd: "size (busy_fd w) \<le> 1"
  by (cases w) auto

lemma size_busy_fds_le: "size (busy_fds ws) \<le> length ws"
proof (induction ws)
  case (Cons w ws)
  then show ?case using size_busy_fd [of w] by (simp add: busy_fds_def)
qed (simp add: busy_fds_def)

lemma size_busy_fds_less:
  assumes "i < length ws" "busy_fd (ws ! i) = {#}" shows "size (busy_fds ws) < length ws"
  using assms
proof (induction ws arbitrary: i)
  case (Cons w ws)
  show ?case
  proof (cases i)
    case 0
    then show ?thesis using Cons.prems size_busy_fds_le [of ws] by (simp add: busy_fds_def)
  next
    case (Suc j)
    then show ?thesis using Cons.IH [of j] Cons.prems size_busy_fd [of w] by (simp add: busy_fds_def)
  qed
qed simp

lemma busy_fds_nonempty: "busy_fds ws \<noteq> {#} \<Longrightarrow> \<exists>w\<in>set ws. busy_fd w \<noteq> {#}"
  by (induction ws) (auto simp: busy_fds_def)

lemma signal_worker_facts:
  assumes "signal_worker ws ws'"
  shows "length ws' = length ws \<and> busy_fds ws' = busy_fds ws \<and> open_fds ws' = open_fds ws
    \<and> (ws \<noteq> [] \<longrightarrow> awake ws')"
  using assms
proof cases
  case nobody
  then show ?thesis by (cases ws) (auto simp: awake_def)
next
  case (somebody i)
  then show ?thesis using busy_fds_update [of i ws WIdle] open_fds_update [of i ws WIdle]
    awake_update [of i ws WIdle] by simp
qed

lemma signal_main_facts [simp]:
  "held (signal_main pc) = held pc" "main_waits T xs ys (signal_main pc)"
  by (cases pc; simp)+

lemma init_inv:
  assumes "0 \<le> N" "in_int N" "0 \<le> T" "in_int T"
  shows "sys_inv T N (init_server N T) [] []"
proof -
  have "busy_fds (replicate n WIdle) = {#}" "open_fds (replicate n WIdle) = {#}" for n
    by (induction n) (auto simp: busy_fds_def open_fds_def)
  moreover have "mem_rep (shared (init_server N T)) T [] N []"
    using createReqQueue_rep [of T Map.empty] createReqQueue_rep [of N Map.empty] assms
    by (auto simp: mem_rep_def two_rep_def init_server_def)
  ultimately show ?thesis using assms(1,3) by (simp add: sys_inv_def init_server_def timed_def)
qed

text \<open>A section of the listener that keeps its contract keeps the invariant.\<close>

lemma after_main_inv:
  assumes r: "main_ok T N xs ys fd (Done r)" and am: "after_main s r ws s'"
    and w: "int (length (workers s)) = N" "fds ys = busy_fds (workers s)"
      "accepted s = fds xs + open_fds (workers s) + {#fd#} + closed s"
      "xs \<noteq> [] \<longrightarrow> workers s \<noteq> [] \<longrightarrow> awake (workers s)"
  shows "\<exists>zs us. sys_inv T N s' zs us"
proof -
  obtain m cl pc sig where rr: "r = (m, cl, pc, sig)" by (cases r)
  from r rr obtain zs where z: "mem_rep m T zs N ys" "int (length zs + length ys) \<le> T" "timed zs"
    "fds zs + held pc + mset cl = fds xs + {#fd#}" "main_waits T zs ys pc" "sig \<or> set zs \<subseteq> set xs"
    by (auto simp: main_ok_def)
  have s': "s' = s\<lparr>shared := m, main_at := pc, workers := ws, closed := closed s + mset cl\<rparr>"
    and sig: "if sig then signal_worker (workers s) ws else ws = workers s"
    using am rr by (auto simp: after_main_def)
  have f: "length ws = length (workers s)" "busy_fds ws = busy_fds (workers s)"
    "open_fds ws = open_fds (workers s)"
    using sig signal_worker_facts by (auto split: if_splits)
  have a: "zs \<noteq> [] \<longrightarrow> ws \<noteq> [] \<longrightarrow> awake ws"
    using sig signal_worker_facts [of "workers s" ws] z(6) w(4) f(1) by (cases zs; cases sig) auto
  have "accepted s = (fds xs + {#fd#}) + open_fds (workers s) + closed s"
    using w(3) by (simp add: ac_simps)
  also have "\<dots> = fds zs + open_fds ws + held pc + (closed s + mset cl)"
    unfolding z(4) [symmetric] f(3) by (simp add: ac_simps)
  finally have "sys_inv T N s' zs ys"
    using z(1-3,5) f w(1,2) a by (simp add: sys_inv_def s')
  then show ?thesis by blast
qed


lemma inv_wait:
  assumes "sys_inv T N s xs ys" "i < length (workers s)" "workers s ! i = WIdle"
    "worker_take mal now (shared s) = Some (m, None)"
  shows "sys_inv T N (s\<lparr>shared := m, workers := (workers s)[i := WWait]\<rparr>) xs ys"
proof -
  have "xs = []"
  proof (rule ccontr)
    assume "xs \<noteq> []"
    then have "getQsize (pending_reqs (shared s)) \<noteq> 0"
      using pend.qsize_rep [of "shared s" T xs "(N, ys)"] assms(1) by (simp add: sys_inv_def)
    then show False using assms(4) by (auto simp: worker_take_def Option.bind_eq_Some_conv)
  qed
  moreover from this have "m = shared s"
    using assms(4) worker_take_empty [of "shared s" T N ys] assms(1) by (simp add: sys_inv_def)
  ultimately show ?thesis
    using assms(1-3) busy_fds_update [of i "workers s" WWait] open_fds_update [of i "workers s" WWait]
    by (simp add: sys_inv_def)
qed

lemma inv_take_Cons:
  assumes inv: "sys_inv T N s (x # zs) ys" and i: "i < length (workers s)" "workers s ! i = WIdle"
    and tk: "allocates mal" "worker_take mal now (shared s) = Some (m, Some (fd, Some t))"
  shows "\<exists>us. sys_inv T N (s\<lparr>shared := m, workers := (workers s)[i := WRun fd t]\<rparr>) zs us"
proof -
  obtain d u where x: "x = (d, u)" by (cases x)
  have "size (fds ys) < length (workers s)"
    using size_busy_fds_less [of i "workers s"] i inv by (simp add: sys_inv_def)
  then have "int (length ys) < N" using inv by (simp add: sys_inv_def)
  from worker_take_ok [of "shared s" T d u zs N ys mal now, OF _ tk(1) this] inv x tk(2)
  have m: "d = fd" "u = Some t" "mem_rep m T zs N (ys @ [(fd, Some now)])"
    by (auto simp: sys_inv_def)
  have "sys_inv T N (s\<lparr>shared := m, workers := (workers s)[i := WRun fd t]\<rparr>) zs (ys @ [(fd, Some now)])"
    using inv x m i worker_update [of i "workers s" "WRun fd t"]
    by (cases "main_at s") (simp_all add: sys_inv_def timed_def)
  then show ?thesis by blast
qed

lemma inv_take:
  assumes inv: "sys_inv T N s xs ys" and i: "i < length (workers s)" "workers s ! i = WIdle"
    and tk: "allocates mal" "worker_take mal now (shared s) = Some (m, Some (fd, Some t))"
  shows "\<exists>zs us. sys_inv T N (s\<lparr>shared := m, workers := (workers s)[i := WRun fd t]\<rparr>) zs us"
proof (cases xs)
  case Nil
  then show ?thesis
    using tk(2) worker_take_empty [of "shared s" T N ys mal now] inv by (simp add: sys_inv_def)
next
  case (Cons x zs)
  then show ?thesis using inv_take_Cons [OF inv [unfolded Cons] i tk] by blast
qed

lemma inv_finish:
  assumes inv: "sys_inv T N s xs ys" and i: "i < length (workers s)" "workers s ! i = WDone fd"
    and fin: "worker_finish (shared s) fd = Some m"
  shows "\<exists>zs. sys_inv T N (s\<lparr>shared := m, workers := (workers s)[i := WIdle],
    main_at := signal_main (main_at s)\<rparr>) xs zs"
proof -
  have b: "busy_fds (workers s) = add_mset fd (busy_fds ((workers s)[i := WIdle]))"
    "open_fds ((workers s)[i := WIdle]) = open_fds (workers s)"
    using busy_fds_update [of i "workers s" WIdle] open_fds_update [of i "workers s" WIdle] i by simp_all
  have "fd \<in># fds ys" using inv b(1) by (simp add: sys_inv_def)
  from worker_finish_ok [OF _ this, of "shared s" T xs N] inv fin obtain zs where
    z: "mem_rep m T xs N zs" "fds ys = add_mset fd (fds zs)" by (auto simp: sys_inv_def)
  from z(2) have "length ys = Suc (length zs)" by (metis size_add_mset size_mset length_map)
  then show ?thesis using inv z b i awake_update [of i "workers s" WIdle]
    by (intro exI [of _ zs]) (simp add: sys_inv_def)
qed

text \<open>The steps of a worker that do not touch the queues: it wakes up, or it has handled its request and closed it.\<close>

lemma inv_worker:
  assumes "sys_inv T N s xs ys" "i < length (workers s)"
  shows "workers s ! i = WWait \<Longrightarrow> sys_inv T N (s\<lparr>workers := (workers s)[i := WIdle]\<rparr>) xs ys"
    "workers s ! i = WRun fd t \<Longrightarrow> sys_inv T N (s\<lparr>workers := (workers s)[i := WDone fd],
       closed := add_mset fd (closed s), stat_cnt := a, dyn_cnt := b, all_cnt := c\<rparr>) xs ys"
  using assms worker_update [of i "workers s" WIdle] worker_update [of i "workers s" "WDone fd"]
  by (simp_all add: sys_inv_def)

lemma step_inv:
  assumes "step policy T s s'" "sys_inv T N s xs ys" "known_policy policy"
  shows "\<exists>zs us. sys_inv T N s' zs us"
  using assms(1)
proof cases
  case (accept mal close_rc rnd fd t r ws)
  have "main_ok T N xs ys fd (Done r)"
    using main_section_ok [of "shared s" T xs N ys mal policy fd close_rc rnd t] accept assms(2,3)
    by (simp add: sys_inv_def)
  then show ?thesis by (rule after_main_inv [OF _ accept(4)]) (use assms(2) accept(1) in \<open>auto simp: sys_inv_def\<close>)
next
  case (block fd t mal r ws)
  have "main_ok T N xs ys fd (Done r)"
    using main_block_ok [of "shared s" T xs N ys mal fd t] block assms(2) by (simp add: sys_inv_def)
  then show ?thesis by (rule after_main_inv [OF _ block(4)]) (use assms(2) block(1) in \<open>auto simp: sys_inv_def\<close>)
next
  case (bf fd r ws)
  have "main_ok T N xs ys fd (Done r)"
    using main_bf_ok [of "shared s" T xs N ys fd] bf assms(2) by (simp add: sys_inv_def)
  then show ?thesis by (rule after_main_inv [OF _ bf(3)]) (use assms(2) bf(1) in \<open>auto simp: sys_inv_def\<close>)
next
  case main_spurious
  then have "sys_inv T N s' xs ys" using assms(2) by (simp add: sys_inv_def)
  then show ?thesis by blast
next
  case (wait i mal now m)
  then show ?thesis using inv_wait [OF assms(2)] by blast
next
  case (take i mal now m fd t)
  then show ?thesis using inv_take [OF assms(2)] by blast
next
  case (worker_spurious i)
  then show ?thesis using inv_worker(1) [OF assms(2)] by blast
next
  case (handle i fd t q os st now q')
  then show ?thesis using inv_worker(2) [OF assms(2)] by blast
next
  case (finish i fd m)
  then show ?thesis using inv_finish [OF assms(2)] by blast
qed

text \<open>A server started with a known policy and non-negative limits.\<close>

definition well_started :: "string \<Rightarrow> int \<Rightarrow> int \<Rightarrow> bool" where
  "well_started policy max_threads max_tasks \<longleftrightarrow>
     known_policy policy \<and> 0 \<le> max_threads \<and> in_int max_threads \<and> 0 \<le> max_tasks \<and> in_int max_tasks"

lemma reachable_inv:
  assumes "reachable policy N T s" "well_started policy N T"
  shows "\<exists>xs ys. sys_inv T N s xs ys"
  using assms
proof (induction rule: reachable.induct)
  case start
  then show ?case using init_inv [of N T] by (auto simp: well_started_def)
next
  case (step s s')
  then show ?case using step_inv by (auto simp: well_started_def)
qed


subsection \<open>Properties of the server\<close>

text \<open>
  C13. The load bound. In every reachable state of a server with one of the five policies, the
  number of requests that wait or are being handled is at most \<open>max_tasks\<close>, and the busy queue has
  exactly one entry for each worker that is between its two critical sections.
\<close>

theorem server_load_bounded:
  assumes "reachable policy max_threads max_tasks s" "well_started policy max_threads max_tasks"
  shows "getQsize (pending_reqs (shared s)) + getQsize (busy_threads (shared s)) \<le> max_tasks
    \<and> getQsize (busy_threads (shared s)) = int (size (busy_fds (workers s)))"
proof -
  obtain xs ys where inv: "sys_inv max_tasks max_threads s xs ys" using reachable_inv [OF assms] by blast
  then have m: "mem_rep (shared s) max_tasks xs max_threads ys"
    and y: "fds ys = busy_fds (workers s)" by (auto simp: sys_inv_def)
  from y have "length ys = size (busy_fds (workers s))" by (metis size_mset length_map)
  then show ?thesis using inv pend.qsize_rep [of "shared s" max_tasks xs "(max_threads, ys)"]
      busy.qsize_rep [of "shared s" max_threads ys "(max_tasks, xs)"] m by (simp add: sys_inv_def)
qed

text \<open>
  C14. No connection is lost or closed twice. In every reachable state the accepted descriptors are,
  with multiplicities, those in the pending queue, those a worker is handling, the one the listener
  holds while it waits, and those that were closed.
\<close>

theorem server_keeps_connections:
  assumes "reachable policy max_threads max_tasks s" "well_started policy max_threads max_tasks"
  shows "\<exists>ns. q_rep (qheap (shared s)) (pending_reqs (shared s)) max_tasks ns
    \<and> accepted s = fds (map snd ns) + open_fds (workers s) + held (main_at s) + closed s"
proof -
  obtain xs ys where inv: "sys_inv max_tasks max_threads s xs ys" using reachable_inv [OF assms] by blast
  then obtain ns where "q_rep (qheap (shared s)) (pending_reqs (shared s)) max_tasks ns" "map snd ns = xs"
    by (auto simp: sys_inv_def mem_rep_def two_rep_def)
  with inv show ?thesis by (auto simp: sys_inv_def simp del: map_map)
qed

lemma idle_enabled:
  assumes "sys_inv T N s xs ys" "allocates mal" "i < length (workers s)" "workers s ! i = WIdle"
  shows "\<exists>m. worker_take mal t (shared s) = Some (m, None)
    \<or> (\<exists>c u. worker_take mal t (shared s) = Some (m, Some (c, Some u)))"
proof -
  have "size (fds ys) < length (workers s)" using size_busy_fds_less [OF assms(3)] assms(1,4) by (simp add: sys_inv_def)
  then have "int (length ys) < N" using assms(1) by (simp add: sys_inv_def)
  then show ?thesis
    using worker_take_empty [of "shared s" T N ys mal t] assms(1,2)
      worker_take_ok [of "shared s" T _ _ _ N ys mal t]
    by (cases xs) (fastforce simp: timed_def sys_inv_def)+
qed

lemma done_enabled:
  assumes "sys_inv T N s xs ys" "i < length (workers s)" "workers s ! i = WDone c"
  shows "\<exists>m. worker_finish (shared s) c = Some m"
proof -
  have "c \<in># busy_fds (workers s)" using busy_fds_update [OF assms(2), of WIdle] assms(3)
    by (metis add.right_neutral busy_fd.simps(2,3) union_single_eq_member add_mset_add_single)
  then have "c \<in># fds ys" "mem_rep (shared s) T xs N ys" using assms(1) by (simp_all add: sys_inv_def)
  then show ?thesis using worker_finish_ok by blast
qed

text \<open>
  C15. Memory safety of the critical sections. In every reachable state each section that a thread
  can enter is defined, whatever \<open>malloc\<close> (when it succeeds), \<open>rand\<close>, the clock and the closed
  descriptors are: no NULL or freed node is followed, a request taken from the queue carries its
  arrival time, and a worker finds its own entry of the busy queue.
\<close>

theorem server_sections_defined:
  assumes "reachable policy max_threads max_tasks s" "well_started policy max_threads max_tasks"
    "allocates mal"
  shows "main_section policy max_tasks close_rc mal rnd (shared s) fd t \<noteq> Fault
    \<and> main_block max_tasks mal (shared s) fd t \<noteq> Fault
    \<and> main_bf max_tasks (shared s) fd \<noteq> Fault
    \<and> (\<forall>i < length (workers s). case workers s ! i of
         WIdle \<Rightarrow> (\<exists>m. worker_take mal t (shared s) = Some (m, None)
                    \<or> (\<exists>c u. worker_take mal t (shared s) = Some (m, Some (c, Some u))))
       | WDone c \<Rightarrow> (\<exists>m. worker_finish (shared s) c = Some m)
       | _ \<Rightarrow> True)"
proof -
  obtain xs ys where inv: "sys_inv max_tasks max_threads s xs ys" using reachable_inv [OF assms(1,2)] by blast
  then have m: "mem_rep (shared s) max_tasks xs max_threads ys" "int (length xs + length ys) \<le> max_tasks"
    "timed xs"
    by (auto simp: sys_inv_def)
  have ok: "main_ok max_tasks max_threads xs ys fd r \<Longrightarrow> r \<noteq> Fault" for r
    by (auto simp: main_ok_def)
  have "main_section policy max_tasks close_rc mal rnd (shared s) fd t \<noteq> Fault"
    using main_section_ok [OF m(1) assms(3) m(2,3)] assms(2) ok by (simp add: well_started_def)
  moreover have "main_block max_tasks mal (shared s) fd t \<noteq> Fault" "main_bf max_tasks (shared s) fd \<noteq> Fault"
    using main_block_ok [OF m(1) assms(3) m(2,3)] main_bf_ok [OF m(1-3)] ok by blast+
  ultimately show ?thesis using idle_enabled [OF inv assms(3)] done_enabled [OF inv] by (auto split: worker_pc.split)
qed

text \<open>
  C16. No lost wake-up and no deadlock. With at least one thread and room for at least one task, in
  every reachable state in which a request is pending or the listener waits for room, some worker is
  not waiting (it is about to test the queue, is handling a request or is about to report it done).
\<close>

theorem server_not_stuck:
  assumes "reachable policy max_threads max_tasks s" "well_started policy max_threads max_tasks"
    "0 < max_threads" "0 < max_tasks"
    "\<not> isQempty (pending_reqs (shared s)) \<or> signal_main (main_at s) \<noteq> main_at s"
  shows "\<exists>i < length (workers s). workers s ! i \<noteq> WWait"
proof -
  obtain xs ys where inv: "sys_inv max_tasks max_threads s xs ys" using reachable_inv [OF assms(1,2)] by blast
  have "workers s \<noteq> []" using inv assms(3) by (auto simp: sys_inv_def)
  moreover have "xs \<noteq> [] \<or> ys \<noteq> []"
    using assms(4,5) inv pend_empty_rep [of "shared s" max_tasks xs max_threads ys]
    by (cases "main_at s") (auto simp: sys_inv_def)
  moreover have "awake (workers s)" if "ys \<noteq> []"
  proof -
    have "busy_fds (workers s) \<noteq> {#}" using that inv by (auto simp: sys_inv_def)
    from busy_fds_nonempty [OF this] obtain w where "w \<in> set (workers s)" "busy_fd w \<noteq> {#}" by blast
    then have "w \<in> set (workers s) \<and> w \<noteq> WWait" by (cases w) auto
    then show ?thesis by (auto simp: awake_def)
  qed
  ultimately have "awake (workers s)" using inv by (auto simp: sys_inv_def)
  then show ?thesis by (metis awake_def in_set_conv_nth)
qed


text \<open>The counters of a thread: each at least 0, static and dynamic requests counted in the total.\<close>

definition counts_ok :: "server \<Rightarrow> nat \<Rightarrow> bool" where
  "counts_ok s i \<longleftrightarrow> 0 \<le> stat_cnt s ! i \<and> 0 \<le> dyn_cnt s ! i
     \<and> stat_cnt s ! i + dyn_cnt s ! i \<le> all_cnt s ! i"

definition counts_len :: "server \<Rightarrow> nat \<Rightarrow> bool" where
  "counts_len s n \<longleftrightarrow> length (stat_cnt s) = n \<and> length (dyn_cnt s) = n \<and> length (all_cnt s) = n"

lemma step_counts:
  assumes "step policy T s s'" "counts_len s n" "\<forall>j<n. counts_ok s j"
  shows "counts_len s' n \<and> (\<forall>j<n. counts_ok s' j)"
  using assms(1)
proof cases
  case (handle i fd t q os st now q')
  from requestHandle_incr [OF handle(7)] handle(4-6) show ?thesis
    using assms(2,3) unfolding handle(1)
    by (auto simp: incr_Done counts_len_def counts_ok_def nth_list_update)
qed (use assms(2,3) in \<open>auto simp: counts_len_def counts_ok_def after_main_def split: prod.splits\<close>)

text \<open>
  The statistics of the server. In every reachable state, for every thread, the numbers of
  static and of dynamic requests are not negative and together at most the thread's total. (The
  total may be larger: a request that ends in an error is counted in it only.)
\<close>

theorem server_statistics:
  assumes "reachable policy max_threads max_tasks s" "0 \<le> i" "i < max_threads"
  shows "0 \<le> stat_cnt s ! nat i \<and> 0 \<le> dyn_cnt s ! nat i
    \<and> stat_cnt s ! nat i + dyn_cnt s ! nat i \<le> all_cnt s ! nat i"
proof -
  have "counts_len s (nat max_threads) \<and> (\<forall>j<nat max_threads. counts_ok s j)"
    using assms(1)
  proof (induction rule: reachable.induct)
    case start
    then show ?case by (auto simp: init_server_def counts_len_def counts_ok_def)
  next
    case (step s s')
    then show ?case using step_counts by blast
  qed
  then show ?thesis using assms(2,3) by (simp add: counts_ok_def)
qed

text \<open>
  A policy name that is none of the five is not rejected: the listener goes on to insert the
  request although the server is at its limit, and when the pending queue is full \<open>insertReq\<close>
  drops it without closing the descriptor. The connection is then neither queued nor closed.
\<close>

theorem unknown_policy_leaks:
  assumes "mem_rep m max_tasks xs max_threads ys" "int (length xs) = max_tasks" "\<not> known_policy policy"
  shows "main_section policy max_tasks close_rc mal rnd m fd t = Done (m, [], MAccept, True)"
proof -
  have "pend_insert (mal (qheap m)) m fd (Some t) = Some m"
    using pend.ins_full [of m max_tasks xs "(max_threads, ys)"] assms(1,2) by simp
  then show ?thesis using assms(3) is_overloaded_rep [OF assms(1)] assms(2)
    by (auto simp: main_section_def main_insert_def known_policy_def)
qed

subsection \<open>A run of the server\<close>

text \<open>Two threads, one task: the first connection is queued, the second blocks the listener.\<close>

definition ex_alloc :: allocator where
  "ex_alloc h = Some (LEAST a. h a = None, ex_junk)"

lemma ex_alloc_ok: "allocates ex_alloc"
  unfolding allocates_def
proof (intro allI impI)
  fix h :: req_heap assume "finite (dom h)"
  then obtain a where "a \<notin> dom h" using ex_new_if_finite [OF infinite_UNIV_nat] by blast
  then have "h a = None" by (simp add: domIff)
  then have "h (LEAST a. h a = None) = None" by (rule LeastI)
  then show "malloc_fresh h (ex_alloc h)" by (simp add: malloc_fresh_def ex_alloc_def)
qed

definition ex_mem :: qmem where
  "ex_mem = \<lparr>qheap = [0 \<mapsto> ex_junk\<lparr>data := 5, next_req := None, insertion_time := Some ex_time\<rparr>],
     pending_reqs = Some \<lparr>max_size = 1, cur_size = 1, head = Some 0, tail = Some 0\<rparr>,
     busy_threads = createReqQueue True 2\<rparr>"

definition ex_server :: server where
  "ex_server = (init_server 2 1)\<lparr>shared := ex_mem, accepted := {#5#}\<rparr>"

definition ex_blocked :: server where
  "ex_blocked = ex_server\<lparr>main_at := MBlockW 6 ex_time, accepted := {#5, 6#}\<rparr>"

lemmas q_exec = isQempty_def isQfull_def incSize_def getQsize_def createReqQueue_def

lemma ex_server_reachable: "reachable ''block'' 2 1 ex_server"
proof -
  let ?s = "init_server 2 1"
  have "main_section ''block'' 1 (\<lambda>_. 0) ex_alloc (\<lambda>_. 0) (shared ?s) 5 ex_time = Done (ex_mem, [], MAccept, True)"
    by (simp add: init_server_def main_section_def is_overloaded_def main_insert_def pend_insert_def
        insertReq_def createRequest_def ex_alloc_def ex_mem_def cint_def in_int_def INT_MAX_def q_exec)
  moreover have "after_main (?s\<lparr>accepted := add_mset 5 (accepted ?s)\<rparr>) (ex_mem, [], MAccept, True)
      (workers ?s) ex_server"
    by (auto simp: after_main_def ex_server_def init_server_def intro!: signal_worker.nobody)
  ultimately have "step ''block'' 1 ?s ex_server"
    by (intro step.accept [OF _ ex_alloc_ok]) (simp add: init_server_def)
  then show ?thesis by (rule reachable.step [OF reachable.start])
qed

lemma ex_blocked_reachable: "reachable ''block'' 2 1 ex_blocked"
proof -
  have "main_section ''block'' 1 (\<lambda>_. 0) ex_alloc (\<lambda>_. 0) (shared ex_server) 6 ex_time
      = Done (ex_mem, [], MBlockW 6 ex_time, False)"
    by (simp add: ex_server_def main_section_def main_block_def is_overloaded_def ex_mem_def q_exec)
  moreover have "after_main (ex_server\<lparr>accepted := add_mset 6 (accepted ex_server)\<rparr>)
      (ex_mem, [], MBlockW 6 ex_time, False) (workers ex_server) ex_blocked"
    by (simp add: after_main_def ex_blocked_def ex_server_def init_server_def)
  ultimately have "step ''block'' 1 ex_server ex_blocked"
    by (intro step.accept [OF _ ex_alloc_ok]) (simp add: ex_server_def init_server_def)
  then show ?thesis by (rule reachable.step [OF ex_server_reachable])
qed

lemma ex_started: "well_started ''block'' 2 1"
  by (simp add: well_started_def known_policy_def in_int_def INT_MAX_def)

theorem server_load_bounded_witness:
  "reachable ''block'' 2 1 ex_blocked \<and> getQsize (pending_reqs (shared ex_blocked)) = 1
   \<and> 1 + getQsize (busy_threads (shared ex_blocked)) \<le> 1"
proof -
  have "getQsize (pending_reqs (shared ex_blocked)) = 1"
    by (simp add: ex_blocked_def ex_server_def ex_mem_def getQsize_def)
  then show ?thesis
    using server_load_bounded [OF ex_blocked_reachable ex_started, THEN conjunct1] ex_blocked_reachable
    by simp
qed

theorem server_keeps_connections_witness:
  "\<exists>ns. q_rep (qheap ex_mem) (pending_reqs ex_mem) 1 ns \<and> {#5, 6#} = fds (map snd ns) + {#6#}"
proof -
  have "open_fds (workers ex_blocked) = {#}" "held (main_at ex_blocked) = {#6#}" "closed ex_blocked = {#}"
    "accepted ex_blocked = {#5, 6#}" "shared ex_blocked = ex_mem"
    by (simp_all add: ex_blocked_def ex_server_def init_server_def open_fds_def numeral_2_eq_2)
  then show ?thesis
    using server_keeps_connections [OF ex_blocked_reachable ex_started] by (simp del: map_map)
qed

theorem server_sections_defined_witness:
  "main_section ''block'' 1 (\<lambda>_. 0) ex_alloc (\<lambda>_. 0) ex_mem 6 ex_time \<noteq> Fault
   \<and> (\<exists>m. worker_take ex_alloc ex_time ex_mem = Some (m, None)
       \<or> (\<exists>c u. worker_take ex_alloc ex_time ex_mem = Some (m, Some (c, Some u))))"
proof -
  have "shared ex_blocked = ex_mem" "workers ex_blocked = [WIdle, WIdle]"
    by (simp_all add: ex_blocked_def ex_server_def init_server_def numeral_2_eq_2)
  then show ?thesis
    using server_sections_defined [OF ex_blocked_reachable ex_started ex_alloc_ok, of "\<lambda>_. 0" "\<lambda>_. 0" 6 ex_time]
    by auto
qed

theorem server_not_stuck_witness:
  "main_at ex_blocked = MBlockW 6 ex_time \<and> (\<exists>i < length (workers ex_blocked). workers ex_blocked ! i \<noteq> WWait)"
proof -
  have m: "main_at ex_blocked = MBlockW 6 ex_time" by (simp add: ex_blocked_def)
  then have "\<not> isQempty (pending_reqs (shared ex_blocked)) \<or> signal_main (main_at ex_blocked) \<noteq> main_at ex_blocked"
    by simp
  from server_not_stuck [OF ex_blocked_reachable ex_started _ _ this] m show ?thesis by simp
qed

theorem server_statistics_witness:
  "reachable ''block'' 2 1 ex_blocked \<and> stat_cnt ex_blocked ! 1 + dyn_cnt ex_blocked ! 1 \<le> all_cnt ex_blocked ! 1"
  using server_statistics [OF ex_blocked_reachable, of 1] ex_blocked_reachable by simp

theorem unknown_policy_leaks_witness:
  "main_section ''drop'' 1 (\<lambda>_. 0) ex_alloc (\<lambda>_. 0) ex_mem 6 ex_time = Done (ex_mem, [], MAccept, True)"
proof -
  obtain xs ys where inv: "sys_inv 1 2 ex_server xs ys"
    using reachable_inv [OF ex_server_reachable ex_started] by blast
  have m: "shared ex_server = ex_mem" by (simp add: ex_server_def)
  have "int (length xs) = 1" using pend.qsize_rep [of ex_mem 1 xs "(2, ys)"] inv m
    by (simp add: sys_inv_def ex_mem_def getQsize_def)
  from unknown_policy_leaks [OF _ this, of ex_mem 2 ys "''drop''"] inv m show ?thesis
    by (simp add: sys_inv_def known_policy_def)
qed


subsection \<open>The command line\<close>

lemma atoi_fmt_d:
  assumes "in_int x" shows "atoi (fmt_d x) = Done x"
proof -
  have ns: "\<not> isspace c" if "is_digit c \<or> c = CHR ''-''" for c
    using that by (auto simp: isspace_def is_digit_def)
  obtain c s where c: "fmt_nat (nat \<bar>x\<bar>) = c # s" "is_digit c"
    using fmt_nat_nonempty [of "nat \<bar>x\<bar>"] fmt_nat_digits [of "nat \<bar>x\<bar>"]
    by (cases "fmt_nat (nat \<bar>x\<bar>)") auto
  have v: "atoi_digits 0 (c # s) = \<bar>x\<bar>" using atoi_fmt_nat [of "nat \<bar>x\<bar>"] c(1) by simp
  have "c \<noteq> CHR ''-''" "c \<noteq> CHR ''+''" using c(2) by (auto simp: is_digit_def)
  then show ?thesis using v c assms
    by (cases "x < 0") (simp_all add: atoi_def fmt_d_def ns cint_eq del: atoi_digits.simps)
qed

text \<open>
  The command line. Started with the decimal representations of three \<open>int\<close> values and a policy
  name of at most 19 characters, the server gets exactly these values.
\<close>

theorem getargs_roundtrip:
  assumes "in_int port" "in_int max_threads" "in_int max_requests" "length policy < 20"
  shows "getargs [prog, fmt_d port, fmt_d max_threads, fmt_d max_requests, policy]
    = Done (port, max_threads, max_requests, policy)"
  using assms by (simp add: getargs_def atoi_fmt_d sprintf_into_def numeral_3_eq_3 eval_nat_numeral)

theorem getargs_roundtrip_witness:
  "getargs [''server'', fmt_d 8003, fmt_d 4, fmt_d 16, ''random''] = Done (8003, 4, 16, ''random'')"
  using getargs_roundtrip [of 8003 4 16 "''random''" "''server''"]
  by (simp add: in_int_def INT_MAX_def)

end
