(* ===== verification/Client.thy ===== *)
theory Client
  imports Server
begin

section \<open>The HTTP client (OS_HW3/client.c)\<close>

text \<open>
  One request and its response over the Rio package. The read and write scripts, the host name and
  the results of the connection calls are arguments; what is printed is collected in a string.
  The two loops of \<open>clientPrint\<close> are partial functions, and it is proved that they return.
\<close>

subsection \<open>Sending\<close>

definition LF :: string where "LF = [CHR 0x0A]"

definition client_request :: "string \<Rightarrow> string \<Rightarrow> string" where
  "client_request filename hostname =
     (''GET '' @ filename @ '' HTTP/1.1'' @ LF) @ ''host: '' @ hostname @ LF @ CRLF"

definition clientSend :: "wr_event list \<Rightarrow> string \<Rightarrow> int \<Rightarrow> string \<Rightarrow> (string \<times> wr_event list) run" where
  "clientSend ws filename host_rc hostname =
     run_bind (Gethostname host_rc) (\<lambda>_.
     run_bind (run_of (sprintf_into MAXLINE (''GET '' @ filename @ '' HTTP/1.1'' @ LF))) (\<lambda>_.
     run_bind (run_of (sprintf_into MAXLINE (client_request filename hostname))) (\<lambda>buf.
     Rio_writen ws buf)))"

subsection \<open>Printing\<close>

text \<open>
  \<open>sscanf(buf, "Content-Length: %d ", &length)\<close>: the literal text, white space, a number. A number
  that does not fit is not cut off here; the program only prints it.
\<close>

definition scan_length :: "string \<Rightarrow> int option" where
  "scan_length s =
     (let lit = ''Content-Length:'' in
      if \<not> is_prefix lit s then None
      else let t = dropWhile isspace (drop (length lit) s);
               neg = (t \<noteq> [] \<and> hd t = CHR ''-'');
               u = (if t \<noteq> [] \<and> (hd t = CHR ''-'' \<or> hd t = CHR ''+'') then tl t else t)
           in if u = [] \<or> \<not> is_digit (hd u) then None
              else Some (if neg then - atoi_digits 0 u else atoi_digits 0 u))"

definition length_note :: "string \<Rightarrow> string" where
  "length_note buf = (case scan_length buf of None \<Rightarrow> [] | Some n \<Rightarrow> ''Length = '' @ fmt_d n @ LF)"

text \<open>The header loop: \<open>n\<close> is the result of the last read, \<open>out\<close> what was printed.\<close>

partial_function (option) header_loop ::
  "rd_event list \<Rightarrow> rio_t \<Rightarrow> char list \<Rightarrow> int \<Rightarrow> string
     \<Rightarrow> (char list \<times> string \<times> rio_t \<times> rd_event list) run option" where
  "header_loop es rp buf n out =
     (if cstr buf \<noteq> CRLF \<and> n > 0 then
        (case Rio_readlineb es rp MAXBUF of
           Exited \<Rightarrow> Some Exited
         | Fault \<Rightarrow> Some Fault
         | Done (n', bytes, rp', es') \<Rightarrow>
             (let buf' = overlay bytes buf in
              header_loop es' rp' buf' n' (out @ ''Header: '' @ cstr buf @ length_note (cstr buf'))))
      else Some (Done (buf, out, rp, es)))"

partial_function (option) body_loop ::
  "rd_event list \<Rightarrow> rio_t \<Rightarrow> char list \<Rightarrow> int \<Rightarrow> string \<Rightarrow> string run option" where
  "body_loop es rp buf n out =
     (if n > 0 then
        (case Rio_readlineb es rp MAXBUF of
           Exited \<Rightarrow> Some Exited
         | Fault \<Rightarrow> Some Fault
         | Done (n', bytes, rp', es') \<Rightarrow> body_loop es' rp' (overlay bytes buf) n' (out @ cstr buf))
      else Some (Done out))"

text \<open>\<open>buf\<close> and \<open>junk\<close> are the initial contents of the array and of the Rio buffer.\<close>

definition clientPrint :: "rd_event list \<Rightarrow> char list \<Rightarrow> int \<Rightarrow> char list \<Rightarrow> string run option" where
  "clientPrint es junk fd buf =
     (case Rio_readlineb es (Rio_readinitb junk fd) MAXBUF of
        Exited \<Rightarrow> Some Exited
      | Fault \<Rightarrow> Some Fault
      | Done (n, bytes, rp, es1) \<Rightarrow>
          do { r \<leftarrow> header_loop es1 rp (overlay bytes buf) n [];
               case r of
                 Exited \<Rightarrow> Some Exited
               | Fault \<Rightarrow> Some Fault
               | Done (buf1, out, rp1, es2) \<Rightarrow>
                   (case Rio_readlineb es2 rp1 MAXBUF of
                      Exited \<Rightarrow> Some Exited
                    | Fault \<Rightarrow> Some Fault
                    | Done (n', bytes', rp2, es3) \<Rightarrow> body_loop es3 rp2 (overlay bytes' buf1) n' out) })"

text \<open>The network as seen by one run of the client.\<close>

record net =
  n_sock :: int
  n_found :: bool
  n_conn :: int
  n_rx :: "rd_event list"
  n_tx :: "wr_event list"
  n_host :: "int \<times> string"
  n_close :: int

text \<open>\<open>main\<close>: what was sent and printed when \<open>exit(0)\<close> is reached.\<close>

definition client_main ::
  "net \<Rightarrow> char list \<Rightarrow> char list \<Rightarrow> string list \<Rightarrow> (string \<times> string) run option" where
  "client_main net junk buf argv =
     (if length argv \<noteq> 4 then Some Exited
      else case run_bind (atoi (argv ! 2)) (\<lambda>port.
             run_bind (Open_clientfd (n_sock net) (n_found net) (n_conn net)) (\<lambda>fd.
             run_bind (clientSend (n_tx net) (argv ! 3) (fst (n_host net)) (snd (n_host net))) (\<lambda>(out, _).
             Done (fd, out)))) of
          Exited \<Rightarrow> Some Exited
        | Fault \<Rightarrow> Some Fault
        | Done (fd, out) \<Rightarrow>
            do { r \<leftarrow> clientPrint (n_rx net) junk fd buf;
                 Some (run_bind r (\<lambda>text. run_bind (Close (n_close net)) (\<lambda>_. Done (out, text)))) })"

subsection \<open>Lines of a response\<close>

definition plain :: "string \<Rightarrow> bool" where
  "plain s \<longleftrightarrow> NUL \<notin> set s"

text \<open>A header line: it ends with its only newline, fits the array and is not blank.\<close>

definition header_line :: "string \<Rightarrow> bool" where
  "header_line h \<longleftrightarrow> plain h \<and> h \<noteq> CRLF \<and> length h < MAXBUF \<and> (\<exists>s. h = s @ LF \<and> CHR 0x0A \<notin> set s)"

definition header_out :: "string \<Rightarrow> string list \<Rightarrow> string" where
  "header_out h hs = ''Header: '' @ h @ concat (map (\<lambda>x. length_note x @ ''Header: '' @ x) hs)"

lemma line_of_whole: "CHR 0x0A \<notin> set s \<Longrightarrow> length s < k \<Longrightarrow> line_of k (s @ LF @ r) = s @ LF"
proof (induction s arbitrary: k)
  case Nil
  then show ?case by (cases k) (auto simp: LF_def)
next
  case (Cons c s)
  then obtain j where "k = Suc j" by (cases k) auto
  then show ?case using Cons by auto
qed

lemma CRLF_line: "line_of (MAXBUF - 1) (CRLF @ r) = CRLF"
  using line_of_whole [of "[CHR 0x0D]" "MAXBUF - 1" r] by (simp add: LF_def CRLF_def MAXBUF_def)

lemma header_line_of: "header_line h \<Longrightarrow> line_of (MAXBUF - 1) (h @ r) = h"
  using line_of_whole [of _ "MAXBUF - 1" r] by (auto simp: header_line_def LF_def)

text \<open>One read: the next line and, if there was one, a positive count.\<close>

lemma read_line:
  assumes "no_err es" "rio_ok rp" "line_of (MAXBUF - 1) (avail rp es) = L"
  shows "\<exists>n rp' es'. Rio_readlineb es rp MAXBUF = Done (n, if L = [] then [] else L @ [NUL], rp', es')
    \<and> (n > 0 \<longleftrightarrow> L \<noteq> []) \<and> no_err es' \<and> rio_ok rp' \<and> avail rp' es' = drop (length L) (avail rp es)"
proof -
  have "L = [] \<longleftrightarrow> avail rp es = []"
    using assms(3) by (cases "avail rp es") (auto simp: line_of_Cons MAXBUF_def split: if_splits)
  then show ?thesis
    using readline_loop_avail [OF assms(1,2) order_refl _ refl, of MAXBUF "[]"] assms(3)
    by (auto simp: rio_readlineb_def Rio_readlineb_def Let_def MAXBUF_def)
qed

lemma cstr_overlay_plain: "plain s \<Longrightarrow> cstr (overlay (s @ [NUL]) buf) = s"
  by (simp add: plain_def cstr_overlay)

text \<open>
  What \<open>printf("%s", buf)\<close> shows of a body: the body is read in lines of at most \<open>MAXBUF - 1\<close> bytes, and of each
  the bytes before its first NUL are printed.
\<close>

function printed :: "string \<Rightarrow> string" where
  "printed s =
     (let L = line_of (MAXBUF - 1) s in if L = [] then [] else cstr L @ printed (drop (length L) s))"
  by auto
termination by (relation "measure length") (auto dest: line_of_shorter)

declare printed.simps [simp del]

lemma line_of_empty: "line_of (MAXBUF - 1) s = [] \<longleftrightarrow> s = []"
  by (cases s) (auto simp: line_of_Cons MAXBUF_def split: if_splits)

lemma printed_plain: "plain s \<Longrightarrow> printed s = s"
proof (induction s rule: printed.induct)
  case (1 s)
  define L where "L = line_of (MAXBUF - 1) s"
  have split: "s = L @ drop (length L) s" unfolding L_def by (rule line_of_prefix)
  then have p: "plain L" "plain (drop (length L) s)" using 1(2) unfolding plain_def by (metis UnCI set_append)+
  have "printed (drop (length L) s) = drop (length L) s" if "L \<noteq> []" using 1(1) [OF L_def] that p(2) by simp
  moreover have "cstr L = L" using p(1) by (auto simp: plain_def cstr_def takeWhile_eq_all_conv)
  moreover have "printed s = (if L = [] then [] else cstr L @ printed (drop (length L) s))"
    by (subst printed.simps) (simp add: L_def Let_def)
  ultimately show ?case using split line_of_empty [of s, folded L_def] by (cases "L = []") auto
qed

lemma body_loop_prints:
  assumes "no_err es" "rio_ok rp" "n > 0"
  shows "body_loop es rp buf n out = Some (Done (out @ cstr buf @ printed (avail rp es)))"
  using assms
proof (induction "length (avail rp es)" arbitrary: es rp buf n out rule: less_induct)
  case less
  define L where "L = line_of (MAXBUF - 1) (avail rp es)"
  obtain n' rp' es' where r: "Rio_readlineb es rp MAXBUF = Done (n', if L = [] then [] else L @ [NUL], rp', es')"
    "n' > 0 \<longleftrightarrow> L \<noteq> []" "no_err es'" "rio_ok rp'" "avail rp' es' = drop (length L) (avail rp es)"
    using read_line [OF less.prems(1,2) L_def [symmetric]] by blast
  have pr: "printed (avail rp es) = (if L = [] then [] else cstr L @ printed (avail rp' es'))"
    unfolding r(5) by (simp add: printed.simps [of "avail rp es"] L_def Let_def)
  show ?case
  proof (cases "L = []")
    case True
    then show ?thesis using r(1,2) less.prems(3) pr
      by (simp add: body_loop.simps [of es] body_loop.simps [of es'])
  next
    case False
    then have "length (avail rp' es') < length (avail rp es)"
      unfolding r(5) L_def using line_of_shorter [of "MAXBUF - 1" "avail rp es"] by simp
    then have "body_loop es' rp' (overlay (L @ [NUL]) buf) n' (out @ cstr buf)
        = Some (Done ((out @ cstr buf) @ cstr L @ printed (avail rp' es')))"
      using less.hyps [OF _ r(3,4), of n' "overlay (L @ [NUL]) buf" "out @ cstr buf"] False r(2) by (simp add: cstr_line)
    then show ?thesis using False r(1) less.prems(3) pr by (simp add: body_loop.simps [of es])
  qed
qed

lemma length_note_CRLF [simp]: "length_note CRLF = []"
  by (simp add: length_note_def scan_length_def CRLF_def)

lemma header_loop_prints:
  assumes "no_err es" "rio_ok rp" "avail rp es = concat hs @ CRLF @ B" "\<forall>x\<in>set hs. header_line x"
    "cstr buf \<noteq> CRLF" "n > 0"
  shows "\<exists>buf' rp' es'. header_loop es rp buf n out = Some (Done (buf', out @ header_out (cstr buf) hs, rp', es'))
    \<and> no_err es' \<and> rio_ok rp' \<and> avail rp' es' = B"
  using assms
proof (induction hs arbitrary: es rp buf n out)
  case Nil
  obtain m rp' es' where r: "Rio_readlineb es rp MAXBUF = Done (m, CRLF @ [NUL], rp', es')" "m > 0"
    "no_err es'" "rio_ok rp'" "avail rp' es' = B"
    using read_line [OF Nil.prems(1,2) refl] Nil.prems(3) CRLF_line [of B] by (auto simp: CRLF_def)
  have c: "cstr (overlay (CRLF @ [NUL]) buf) = CRLF"
    by (intro cstr_overlay) (simp add: CRLF_def NUL_def)
  show ?case using r Nil.prems(5,6) c
    by (simp add: header_loop.simps [of es] header_loop.simps [of es'] header_out_def)
next
  case (Cons h hs)
  have h: "header_line h" "plain h" "h \<noteq> CRLF" "h \<noteq> []"
    using Cons.prems(4) by (auto simp: header_line_def LF_def)
  obtain m rp' es' where r: "Rio_readlineb es rp MAXBUF = Done (m, h @ [NUL], rp', es')" "m > 0"
    "no_err es'" "rio_ok rp'" "avail rp' es' = concat hs @ CRLF @ B"
    using read_line [OF Cons.prems(1,2) refl] Cons.prems(3) h(4)
      header_line_of [OF h(1), of "concat hs @ CRLF @ B"] by auto
  let ?buf = "overlay (h @ [NUL]) buf"
  have c: "cstr ?buf = h" using h(2) by (rule cstr_overlay_plain)
  have "\<forall>x\<in>set hs. header_line x" "cstr ?buf \<noteq> CRLF" using Cons.prems(4) c h(3) by auto
  from Cons.IH [OF r(3-5) this r(2), of "out @ ''Header: '' @ cstr buf @ length_note h"]
  show ?case using r(1) Cons.prems(5,6) c
    by (simp add: header_loop.simps [of es] header_out_def)
qed

lemma clientPrint_prints:
  assumes "no_err es" "length junk = RIO_BUFSIZE"
    "stream es = concat (h # hs) @ CRLF @ body" "\<forall>x\<in>set (h # hs). header_line x"
  shows "clientPrint es junk fd buf = Some (Done (header_out h hs @ printed body))"
proof -
  let ?rp = "Rio_readinitb junk fd"
  have rp: "rio_ok ?rp" "avail ?rp es = stream es"
    using assms(2) by (simp_all add: Rio_readinitb_def rio_readinitb_def rio_ok_def avail_def unread_def)
  have h: "header_line h" "plain h" "h \<noteq> CRLF" "h \<noteq> []"
    using assms(4) by (auto simp: header_line_def LF_def)
  obtain n rp1 es1 where r: "Rio_readlineb es ?rp MAXBUF = Done (n, h @ [NUL], rp1, es1)" "n > 0"
    "no_err es1" "rio_ok rp1" "avail rp1 es1 = concat hs @ CRLF @ body"
    using read_line [OF assms(1) rp(1) refl] rp(2) assms(3) h(4)
      header_line_of [OF h(1), of "concat hs @ CRLF @ body"] by auto
  let ?buf = "overlay (h @ [NUL]) buf"
  have c: "cstr ?buf = h" using h(2) by (rule cstr_overlay_plain)
  obtain buf2 rp2 es2 where l: "header_loop es1 rp1 ?buf n [] = Some (Done (buf2, header_out h hs, rp2, es2))"
    "no_err es2" "rio_ok rp2" "avail rp2 es2 = body"
    using header_loop_prints [OF r(3-5) _ _ r(2), of ?buf "[]"] c h(3) assms(4) by auto
  define L where "L = line_of (MAXBUF - 1) body"
  obtain n3 rp3 es3 where b: "Rio_readlineb es2 rp2 MAXBUF = Done (n3, if L = [] then [] else L @ [NUL], rp3, es3)"
    "n3 > 0 \<longleftrightarrow> L \<noteq> []" "no_err es3" "rio_ok rp3" "avail rp3 es3 = drop (length L) body"
    using read_line [OF l(2,3) refl] l(4) by (auto simp: L_def)
  have pr: "printed body = (if L = [] then [] else cstr L @ printed (avail rp3 es3))"
    unfolding b(5) by (simp add: printed.simps [of body] L_def Let_def)
  have "body_loop es3 rp3 (overlay (if L = [] then [] else L @ [NUL]) buf2) n3 (header_out h hs)
      = Some (Done (header_out h hs @ printed body))"
  proof (cases "L = []")
    case True
    then show ?thesis using b(2) pr by (simp add: body_loop.simps [of es3])
  next
    case False
    then show ?thesis
      using body_loop_prints [OF b(3,4), of n3 "overlay (L @ [NUL]) buf2"] b(2) pr by (simp add: cstr_line)
  qed
  then show ?thesis using r(1) l(1) b(1) by (simp add: clientPrint_def)
qed

subsection \<open>Properties\<close>

text \<open>
  The client prints the response it gets. For a response of at least one header line, a blank
  line and a body, however the network cuts it into pieces, \<open>clientPrint\<close>
  returns; it has printed every header line after the word \<open>Header:\<close>, a note for each
  \<open>Content-Length\<close> after the first line, and then the body, byte for byte if it has no NUL bytes.
\<close>

theorem clientPrint_correct:
  assumes "no_err es" "length junk = RIO_BUFSIZE"
    "stream es = concat (h # hs) @ CRLF @ body" "\<forall>x\<in>set (h # hs). header_line x"
  shows "clientPrint es junk fd buf = Some (Done (header_out h hs @ printed body))"
  using assms by (rule clientPrint_prints)

theorem clientPrint_correct_witness:
  "clientPrint [RBytes ''HTTP/1.0 200 OK'', RIntr, RBytes (LF @ ''Content-Length: 2'' @ LF @ CRLF @ ''hi'')]
     (replicate RIO_BUFSIZE NUL) 4 [NUL]
   = Some (Done (''Header: HTTP/1.0 200 OK'' @ LF @ ''Length = 2'' @ LF @ ''Header: Content-Length: 2'' @ LF @ ''hi''))"
proof -
  have d: "fmt_d 2 = ''2''" by (simp add: fmt_d_def fmt_nat.simps digit_def) code_simp
  have n: "length_note (''Content-Length: 2'' @ LF) = ''Length = 2'' @ LF"
    by (simp add: length_note_def scan_length_def Let_def isspace_def is_digit_def LF_def d)
  have "header_line (''HTTP/1.0 200 OK'' @ LF)" "header_line (''Content-Length: 2'' @ LF)"
    by (auto simp: header_line_def plain_def LF_def CRLF_def NUL_def MAXBUF_def
        intro: exI [of _ "''HTTP/1.0 200 OK''"] exI [of _ "''Content-Length: 2''"])
  then show ?thesis
    using clientPrint_correct [of "[RBytes ''HTTP/1.0 200 OK'', RIntr, RBytes (LF @ ''Content-Length: 2'' @ LF @ CRLF @ ''hi'')]"
        "replicate RIO_BUFSIZE NUL" "''HTTP/1.0 200 OK'' @ LF" "[''Content-Length: 2'' @ LF]" "''hi''" 4 "[NUL]"]
    by (simp add: header_out_def n [unfolded LF_def, simplified] printed_plain plain_def NUL_def LF_def CRLF_def)
qed

end
