(* ===== verification/Doubles.thy ===== *)
theory Doubles
  imports Complex_Main OS_Prelude "HOL-Library.Log_Nat"
begin

section \<open>The C type double\<close>

text \<open>
  IEEE 754 binary64 as the rational number it stands for: a finite \<open>double\<close> is \<^term>\<open>Some x\<close>, an infinity or
  a NaN is \<^const>\<open>None\<close> (the programs of the repository only ever convert these to an integer, which is undefined for both).
  Every operation is the exact one followed by \<open>rnd\<close>, rounding to the nearest representable number, ties to
  even. The lemmas bound the error of a rounding.
\<close>

type_synonym double = "rat option"

subsection \<open>Rounding\<close>

text \<open>The nearest integer, the even one of two that are equally near.\<close>

definition rhe :: "rat \<Rightarrow> int" where
  "rhe x = (let f = \<lfloor>x\<rfloor>; d = x - of_int f in
     if d < 1 / 2 \<or> d = 1 / 2 \<and> even f then f else f + 1)"

lemma rhe_error: "\<bar>of_int (rhe x) - x\<bar> \<le> 1 / 2"
proof -
  have "of_int \<lfloor>x\<rfloor> \<le> x" "x < of_int \<lfloor>x\<rfloor> + 1" by linarith+
  then show ?thesis by (simp add: rhe_def Let_def abs_le_iff)
qed

lemma rhe_of_int [simp]: "rhe (of_int n) = n"
  by (simp add: rhe_def)

text \<open>The binary exponent of a positive number.\<close>

definition log2_floor :: "rat \<Rightarrow> int" where
  "log2_floor x = (let (a, b) = quotient_of x; l = bitlen a - bitlen b in
     if 2 powi l \<le> x then l else l - 1)"

lemma powi_nat: "0 \<le> k \<Longrightarrow> (2 :: rat) powi k = 2 ^ nat k"
  by (simp add: power_int_def)

lemma log2_floor_le:
  assumes "0 < x" shows "2 powi log2_floor x \<le> x"
proof -
  obtain a b where q: "quotient_of x = (a, b)" by (cases "quotient_of x")
  have b: "0 < b" using quotient_of_denom_pos [OF q] .
  have x: "x = of_int a / of_int b" using quotient_of_div [OF q] .
  have a: "0 < a" using assms b unfolding x by (simp add: zero_less_divide_iff)
  define l where "l = bitlen a - bitlen b"
  have "1 \<le> bitlen a" "0 \<le> bitlen b" using a by (auto simp: bitlen_alt_def)
  have "(2 :: int) ^ nat (bitlen a - 1) \<le> a" "b < 2 ^ nat (bitlen b)" using bitlen_bounds a b by auto
  then have "(2 :: rat) ^ nat (bitlen a - 1) \<le> of_int a" "of_int b < (2 :: rat) ^ nat (bitlen b)"
    by (metis of_int_le_iff of_int_less_iff of_int_power of_int_numeral)+
  then have "2 powi (bitlen a - 1) \<le> (of_int a :: rat)" "of_int b < (2 :: rat) powi bitlen b"
    using \<open>1 \<le> bitlen a\<close> \<open>0 \<le> bitlen b\<close> by (simp_all add: powi_nat)
  then have "2 powi (bitlen a - 1) / 2 powi bitlen b \<le> x"
    unfolding x using a b by (intro frac_le) auto
  then have "2 powi (l - 1) \<le> x"
    by (simp add: l_def power_int_diff [symmetric] algebra_simps)
  then show ?thesis unfolding log2_floor_def q by (simp add: Let_def flip: l_def)
qed

text \<open>Rounding to 53 significant bits, with the least exponent -1074; too large a result is an infinity.\<close>

definition rnd :: "rat \<Rightarrow> double" where
  "rnd x =
     (if x = 0 then Some 0
      else let e = max (log2_floor \<bar>x\<bar> - 52) (- 1074);
               y = of_int (rhe (x * 2 powi (- e))) * 2 powi e in
           if \<bar>y\<bar> < 2 ^ 1024 then Some y else None)"

lemma rnd_error_exp:
  assumes "x \<noteq> 0" "e = max (log2_floor \<bar>x\<bar> - 52) (- 1074)"
  shows "\<bar>of_int (rhe (x * 2 powi (- e))) * 2 powi e - x\<bar> \<le> \<bar>x\<bar> / 2 ^ 53 + 1 / 2 ^ 1000"
proof -
  let ?z = "x * 2 powi (- e)"
  have p: "(2 :: rat) powi e > 0" by simp
  have xz: "x = ?z * 2 powi e" by (simp add: power_int_minus)
  have "of_int (rhe ?z) * 2 powi e - x = (of_int (rhe ?z) - ?z) * 2 powi e"
    by (subst (2) xz) (simp add: algebra_simps)
  also have "\<bar>\<dots>\<bar> = \<bar>of_int (rhe ?z) - ?z\<bar> * 2 powi e" by (simp add: abs_mult)
  also have "\<dots> \<le> 1 / 2 * 2 powi e" using p rhe_error [of ?z] by (intro mult_right_mono) auto
  finally have "\<bar>of_int (rhe ?z) * 2 powi e - x\<bar> \<le> 2 powi e / 2" by simp
  moreover have "(2 :: rat) powi e \<le> \<bar>x\<bar> / 2 ^ 52 + 1 / 2 ^ 1074"
  proof (cases "e = - 1074")
    case True
    then show ?thesis by (simp add: power_int_minus_divide)
  next
    case False
    then have "e = log2_floor \<bar>x\<bar> - 52" using assms(2) by (simp split: if_splits add: max_def)
    then have "(2 :: rat) powi e = 2 powi log2_floor \<bar>x\<bar> / 2 ^ 52" by (simp add: power_int_diff)
    also have "\<dots> \<le> \<bar>x\<bar> / 2 ^ 52" using log2_floor_le [of "\<bar>x\<bar>"] assms(1) by (intro divide_right_mono) auto
    finally show ?thesis by (simp add: add_increasing2)
  qed
  ultimately show ?thesis by simp
qed

lemma rnd_close:
  assumes "\<bar>x\<bar> \<le> 2 ^ 1000"
  shows "\<exists>y. rnd x = Some y \<and> \<bar>y - x\<bar> \<le> \<bar>x\<bar> / 2 ^ 53 + 1 / 2 ^ 1000"
proof (cases "x = 0")
  case True
  then show ?thesis by (simp add: rnd_def)
next
  case False
  define e where "e = max (log2_floor \<bar>x\<bar> - 52) (- 1074)"
  define y :: rat where "y = of_int (rhe (x * 2 powi (- e))) * 2 powi e"
  have y: "\<bar>y - x\<bar> \<le> \<bar>x\<bar> / 2 ^ 53 + 1 / 2 ^ 1000" using rnd_error_exp [OF False e_def] by (simp add: y_def)
  then have "\<bar>y\<bar> \<le> \<bar>x\<bar> + (\<bar>x\<bar> / 2 ^ 53 + 1 / 2 ^ 1000)" by linarith
  also have "\<dots> \<le> 2 ^ 1000 + (2 ^ 1000 / 2 ^ 53 + 1 / 2 ^ 1000)"
    using assms by (intro add_mono divide_right_mono) auto
  also have "\<dots> < 2 ^ 1024" by simp
  finally have "\<bar>y\<bar> < 2 ^ 1024" .
  then have "rnd x = Some y" using False
    unfolding rnd_def Let_def e_def [symmetric] y_def [symmetric] by (simp only: if_True if_False)
  then show ?thesis using y by blast
qed


text \<open>Integers of at most 53 bits are represented exactly.\<close>

lemma rnd_of_int:
  assumes "\<bar>n\<bar> < 2 ^ 53" shows "rnd (of_int n) = Some (of_int n)"
proof (cases "n = 0")
  case True
  then show ?thesis by (simp add: rnd_def)
next
  case False
  define e where "e = max (log2_floor \<bar>of_int n :: rat\<bar> - 52) (- 1074)"
  have "2 powi log2_floor \<bar>of_int n :: rat\<bar> \<le> \<bar>of_int n :: rat\<bar>" using False by (intro log2_floor_le) simp
  also have "\<dots> < 2 powi 53" using assms by (simp flip: of_int_abs)
  finally have "log2_floor \<bar>of_int n :: rat\<bar> < 53" by (rule power_int_le_imp_less_exp [rotated]) simp_all
  then have e: "e \<le> 0" by (simp add: e_def)
  have "(of_int n :: rat) * 2 powi (- e) = of_int (n * 2 ^ nat (- e))" using e by (simp add: powi_nat)
  then have "of_int (rhe ((of_int n :: rat) * 2 powi (- e))) * 2 powi e = (of_int n :: rat) * 2 powi (- e) * 2 powi e"
    by (simp only: rhe_of_int)
  also have "\<dots> = of_int n" by (simp add: power_int_minus)
  finally have y: "of_int (rhe ((of_int n :: rat) * 2 powi (- e))) * 2 powi e = (of_int n :: rat)" .
  have "\<bar>of_int n :: rat\<bar> < 2 ^ 53" using assms by (simp flip: of_int_abs)
  also have "\<dots> < 2 ^ 1024" by simp
  finally show ?thesis using False unfolding rnd_def Let_def e_def [symmetric] y by simp
qed

end
