(* ===== verification/Cgi.thy ===== *)
theory Cgi
  imports Doubles Request
begin

section \<open>The CGI program (OS_HW3/output.c)\<close>

text \<open>
  The program the server runs for dynamic content: it sleeps for the number of seconds in
  \<open>QUERY_STRING\<close> and writes a response that says how long that took. The value of the variable and the two
  readings of the clock are arguments; the result is what is written to standard output. Arithmetic is that of
  \<open>Doubles\<close>; the conversion of a \<open>double\<close> to an unsigned integer is undefined when the value does not fit.
\<close>

subsection \<open>Reading a number: atof\<close>

definition digit_val :: "nat \<Rightarrow> char \<Rightarrow> nat option" where
  "digit_val b c =
     (let n = of_char (lower c) :: nat;
          v = (if 48 \<le> n \<and> n \<le> 57 then n - 48 else if 97 \<le> n \<and> n \<le> 102 then n - 87 else b) in
      if v < b then Some v else None)"

text \<open>The digits at the start of a string: their value, their number, the rest.\<close>

fun scan_digits :: "nat \<Rightarrow> nat \<Rightarrow> nat \<Rightarrow> string \<Rightarrow> nat \<times> nat \<times> string" where
  "scan_digits b v n [] = (v, n, [])"
| "scan_digits b v n (c # s) =
     (case digit_val b c of None \<Rightarrow> (v, n, c # s) | Some d \<Rightarrow> scan_digits b (v * b + d) (Suc n) s)"

text \<open>Digits with at most one point among them, and at least one digit.\<close>

definition scan_mantissa :: "nat \<Rightarrow> string \<Rightarrow> (rat \<times> string) option" where
  "scan_mantissa b s =
     (let (v, n, r) = scan_digits b 0 0 s;
          (w, m, r') = (if r \<noteq> [] \<and> hd r = CHR ''.'' then scan_digits b 0 0 (tl r) else (0, 0, r)) in
      if n + m = 0 then None else Some (of_nat v + of_nat w / of_nat b ^ m, r'))"

text \<open>The exponent after the letter \<open>e\<close> (or \<open>p\<close>): 0 when there is none.\<close>

definition scan_exponent :: "char \<Rightarrow> string \<Rightarrow> int" where
  "scan_exponent mark s =
     (if s \<noteq> [] \<and> lower (hd s) = mark then
        (let t = tl s; neg = (t \<noteq> [] \<and> hd t = CHR ''-'');
             u = (if t \<noteq> [] \<and> (hd t = CHR ''-'' \<or> hd t = CHR ''+'') then tl t else t);
             (v, n, r) = scan_digits 10 0 0 u in
         if neg then - int v else int v)
      else 0)"

definition atof :: "string \<Rightarrow> double" where
  "atof s =
     (let t = dropWhile isspace s; neg = (t \<noteq> [] \<and> hd t = CHR ''-'');
          u = (if t \<noteq> [] \<and> (hd t = CHR ''-'' \<or> hd t = CHR ''+'') then tl t else t);
          sgn = (if neg then - 1 else 1 :: rat);
          l = map lower u in
      if is_prefix ''inf'' l \<or> is_prefix ''nan'' l then None
      else if is_prefix ''0x'' l \<and> scan_mantissa 16 (drop 2 u) \<noteq> None then
        (case the (scan_mantissa 16 (drop 2 u)) of (m, r) \<Rightarrow> rnd (sgn * m * 2 powi scan_exponent (CHR ''p'') r))
      else (case scan_mantissa 10 u of
              None \<Rightarrow> Some 0
            | Some (m, r) \<Rightarrow> rnd (sgn * m * 10 powi scan_exponent (CHR ''e'') r)))"

subsection \<open>The program\<close>

text \<open>The global variable \<open>spinfor\<close>: its initial value 5.0, and what \<open>getargs\<close> makes of it.\<close>

definition spinfor0 :: double where "spinfor0 = Some 5"

text \<open>The first token of \<open>strtok(buf, delim)\<close>.\<close>

definition strtok :: "string \<Rightarrow> char \<Rightarrow> string option" where
  "strtok buf delim =
     (let t = dropWhile (\<lambda>c. c = delim) buf in
      if t = [] then None else Some (takeWhile (\<lambda>c. c \<noteq> delim) t))"

definition getargs :: "string option \<Rightarrow> double" where
  "getargs query_string =
     (case query_string of
        None \<Rightarrow> spinfor0
      | Some buf \<Rightarrow> (case strtok buf (CHR ''&'') of None \<Rightarrow> spinfor0 | Some p \<Rightarrow> atof p))"

text \<open>\<open>gettimeofday\<close> returned \<open>rc\<close> and the time \<open>t\<close>; a failing assertion ends the program.\<close>

definition Time_GetSeconds :: "int \<Rightarrow> timeval \<Rightarrow> double run" where
  "Time_GetSeconds rc t =
     (if rc \<noteq> 0 then Exited
      else Done (do { s \<leftarrow> rnd (of_int (tv_sec t));
                      u \<leftarrow> rnd (of_int (tv_usec t));
                      q \<leftarrow> rnd (u / 1000000);
                      rnd (s + q) }))"

text \<open>\<open>usleep(spinfor * 1e6)\<close>: the argument is converted to \<open>useconds_t\<close>, an unsigned 32-bit integer.\<close>

definition usleep_arg :: "double \<Rightarrow> nat run" where
  "usleep_arg spin =
     (case Option.bind spin (\<lambda>x. rnd (x * 1000000)) of
        None \<Rightarrow> Fault
      | Some x \<Rightarrow> if - 1 < x \<and> x < 2 ^ 32 then Done (nat \<lfloor>x\<rfloor>) else Fault)"

text \<open>\<open>%.2f\<close>\<close>

definition fmt_f2 :: "rat \<Rightarrow> string" where
  "fmt_f2 x = (let h = nat \<bar>rhe (x * 100)\<bar> in
     (if x < 0 then ''-'' else '''') @ fmt_nat (h div 100) @ ''.'' @ pad0 2 (fmt_nat (h mod 100)))"

definition cgi_content :: "rat \<Rightarrow> string" where
  "cgi_content elapsed =
     ''<p>Welcome to the CGI program</p>'' @ CRLF @
     ''<p>My only purpose is to waste time on the server!</p>'' @ CRLF @
     ''<p>I spun for '' @ fmt_f2 elapsed @ '' seconds</p>'' @ CRLF"

definition cgi_header :: "nat \<Rightarrow> string list" where
  "cgi_header n = [''Content-length: '' @ fmt_lu (int n) @ CRLF, ''Content-type: text/html'' @ CRLF]"

definition cgi_main :: "string option \<Rightarrow> int \<Rightarrow> timeval \<Rightarrow> int \<Rightarrow> timeval \<Rightarrow> string run" where
  "cgi_main query_string rc1 now1 rc2 now2 =
     (let spin = getargs query_string in
      run_bind (Time_GetSeconds rc1 now1) (\<lambda>t1.
      run_bind (usleep_arg spin) (\<lambda>_.
      run_bind (Time_GetSeconds rc2 now2) (\<lambda>t2.
      run_bind (run_of (do { a \<leftarrow> t1; b \<leftarrow> t2; rnd (b - a) })) (\<lambda>d.
      run_bind (run_of (sprintf_into MAXBUF (cgi_content d))) (\<lambda>content.
      Done (concat (cgi_header (length content)) @ CRLF @ content)))))))"


subsection \<open>The response\<close>

text \<open>A reading of the clock in this century, and the time it stands for.\<close>

definition time_ok :: "timeval \<Rightarrow> bool" where
  "time_ok t \<longleftrightarrow> 0 \<le> tv_sec t \<and> tv_sec t \<le> 2 ^ 32 \<and> 0 \<le> tv_usec t \<and> tv_usec t < 1000000"

definition seconds :: "timeval \<Rightarrow> rat" where
  "seconds t = of_int (tv_sec t) + of_int (tv_usec t) / 1000000"

lemma time_bounds:
  assumes "time_ok t"
  shows "0 \<le> (of_int (tv_sec t) :: rat)" "(of_int (tv_sec t) :: rat) \<le> 4294967296"
    "0 \<le> (of_int (tv_usec t) :: rat)" "(of_int (tv_usec t) :: rat) < 1000000"
  using assms by (simp_all add: time_ok_def)

lemma seconds_bound: "time_ok t \<Longrightarrow> 0 \<le> seconds t" "time_ok t \<Longrightarrow> seconds t \<le> 4294967297"
  using time_bounds [of t] by (simp_all add: seconds_def)

lemma rnd_bound:
  assumes "\<bar>x\<bar> \<le> 8589934592"
  obtains y where "rnd x = Some y" "\<bar>y - x\<bar> \<le> 1 / 1000000"
proof -
  have "\<bar>x\<bar> / 2 ^ 53 \<le> 8589934592 / 2 ^ 53" using assms by (intro divide_right_mono) auto
  moreover have "\<bar>x\<bar> \<le> 2 ^ 1000" using assms by (rule order_trans) simp
  moreover have "(8589934592 / 2 ^ 53 + 1 / 2 ^ 1000 :: rat) \<le> 1 / 1000000" by simp
  ultimately show thesis using rnd_close [of x] that by fastforce
qed

lemma Time_GetSeconds_close:
  assumes "time_ok t"
  obtains x where "Time_GetSeconds 0 t = Done (Some x)" "\<bar>x - seconds t\<bar> \<le> 1 / 500000"
proof -
  let ?s = "of_int (tv_sec t) :: rat" and ?u = "of_int (tv_usec t) :: rat"
  have i: "rnd ?s = Some ?s" "rnd ?u = Some ?u" using assms by (auto simp: time_ok_def intro!: rnd_of_int)
  note b = time_bounds [OF assms]
  have "\<bar>?u / 1000000\<bar> \<le> 8589934592" using b by simp
  then obtain q where q: "rnd (?u / 1000000) = Some q" "\<bar>q - ?u / 1000000\<bar> \<le> 1 / 1000000" by (rule rnd_bound)
  have "\<bar>?s + q\<bar> \<le> 8589934592" using b q(2) by linarith
  then obtain x where x: "rnd (?s + q) = Some x" "\<bar>x - (?s + q)\<bar> \<le> 1 / 1000000" by (rule rnd_bound)
  have "Time_GetSeconds 0 t = Done (Some x)" by (simp add: Time_GetSeconds_def i q(1) x(1))
  moreover have "\<bar>x - seconds t\<bar> \<le> 1 / 500000" unfolding seconds_def using q(2) x(2) by linarith
  ultimately show thesis by (rule that)
qed

lemma elapsed_close:
  assumes "time_ok now1" "time_ok now2"
  obtains a b d where "Time_GetSeconds 0 now1 = Done (Some a)" "Time_GetSeconds 0 now2 = Done (Some b)"
    "rnd (b - a) = Some d" "\<bar>d - (seconds now2 - seconds now1)\<bar> \<le> 1 / 100000"
proof -
  obtain a where a: "Time_GetSeconds 0 now1 = Done (Some a)" "\<bar>a - seconds now1\<bar> \<le> 1 / 500000"
    using Time_GetSeconds_close [OF assms(1)] .
  obtain b where b: "Time_GetSeconds 0 now2 = Done (Some b)" "\<bar>b - seconds now2\<bar> \<le> 1 / 500000"
    using Time_GetSeconds_close [OF assms(2)] .
  note s = seconds_bound [OF assms(1)] seconds_bound [OF assms(2)]
  have "\<bar>b - a\<bar> \<le> 8589934592" using a(2) b(2) s by linarith
  then obtain d where d: "rnd (b - a) = Some d" "\<bar>d - (b - a)\<bar> \<le> 1 / 1000000" by (rule rnd_bound)
  have "\<bar>d - (seconds now2 - seconds now1)\<bar> \<le> 1 / 100000" using a(2) b(2) d(2) by linarith
  with a(1) b(1) d(1) show thesis by (rule that)
qed

lemma rhe_sign: "0 \<le> x \<Longrightarrow> 0 \<le> rhe x" "x \<le> 0 \<Longrightarrow> rhe x \<le> 0"
proof -
  have "0 \<le> rhe x" if "0 \<le> x"
  proof -
    have "(- 1 :: rat) < of_int (rhe x)" using rhe_error [of x] that by linarith
    then show ?thesis by linarith
  qed
  moreover have "rhe x \<le> 0" if "x \<le> 0"
  proof -
    have "of_int (rhe x) < (1 :: rat)" using rhe_error [of x] that by linarith
    then show ?thesis by linarith
  qed
  ultimately show "0 \<le> x \<Longrightarrow> 0 \<le> rhe x" "x \<le> 0 \<Longrightarrow> rhe x \<le> 0" by blast+
qed

text \<open>The text of \<open>h\<close> hundredths, and the hundredths \<open>%.2f\<close> prints.\<close>

definition hundredths :: "bool \<Rightarrow> nat \<Rightarrow> string" where
  "hundredths neg h = (if neg then ''-'' else '''') @ fmt_nat (h div 100) @ ''.'' @ pad0 2 (fmt_nat (h mod 100))"

lemma fmt_f2_value:
  obtains h where "fmt_f2 x = hundredths (x < 0) h" "\<bar>(if x < 0 then - of_nat h else of_nat h) / 100 - x\<bar> \<le> 1 / 200"
proof
  let ?r = "rhe (x * 100)"
  show "fmt_f2 x = hundredths (x < 0) (nat \<bar>?r\<bar>)" by (simp add: fmt_f2_def hundredths_def Let_def)
  have "(if x < 0 then - of_nat (nat \<bar>?r\<bar>) else of_nat (nat \<bar>?r\<bar>) :: rat) = of_int ?r"
    using rhe_sign [of "x * 100"] by auto
  moreover have "\<bar>of_int ?r - x * 100\<bar> \<le> 1 / 2" by (rule rhe_error)
  then have "\<bar>of_int ?r / 100 - x\<bar> \<le> 1 / 200" by linarith
  ultimately show "\<bar>(if x < 0 then - of_nat (nat \<bar>?r\<bar>) else of_nat (nat \<bar>?r\<bar>)) / 100 - x\<bar> \<le> 1 / 200" by simp
qed

lemma length_fmt_f2:
  assumes "\<bar>x\<bar> \<le> 10000000000" shows "length (fmt_f2 x) \<le> 30"
proof -
  let ?h = "nat \<bar>rhe (x * 100)\<bar>"
  have "\<bar>of_int (rhe (x * 100)) :: rat\<bar> \<le> 1000000000001" using rhe_error [of "x * 100"] assms by linarith
  then have "\<bar>rhe (x * 100)\<bar> \<le> 1000000000001" by linarith
  then have "?h div 100 < 10 ^ Suc 15" "?h mod 100 < 10 ^ Suc 1" by simp_all
  from length_fmt_nat [OF this(1)] length_fmt_nat [OF this(2)] show ?thesis
    by (simp add: fmt_f2_def Let_def length_pad0)
qed

lemma cgi_main_response:
  assumes "usleep_arg (getargs q) = Done w" "time_ok now1" "time_ok now2"
  obtains d where
    "cgi_main q 0 now1 0 now2 = Done (concat (cgi_header (length (cgi_content d))) @ CRLF @ cgi_content d)"
    "\<bar>d - (seconds now2 - seconds now1)\<bar> \<le> 1 / 100000" "length (cgi_content d) < MAXBUF"
proof -
  obtain a b d where t: "Time_GetSeconds 0 now1 = Done (Some a)" "Time_GetSeconds 0 now2 = Done (Some b)"
    "rnd (b - a) = Some d" "\<bar>d - (seconds now2 - seconds now1)\<bar> \<le> 1 / 100000"
    using elapsed_close [OF assms(2,3)] .
  have "\<bar>d\<bar> \<le> 10000000000"
    using seconds_bound [OF assms(2)] seconds_bound [OF assms(3)] t(4) by linarith
  from length_fmt_f2 [OF this] have l: "length (cgi_content d) < MAXBUF"
    by (simp add: cgi_content_def CRLF_def MAXBUF_def)
  then have "cgi_main q 0 now1 0 now2 = Done (concat (cgi_header (length (cgi_content d))) @ CRLF @ cgi_content d)"
    using assms(1) t(1-3) by (simp add: cgi_main_def sprintf_into_def)
  with t(4) l show thesis by (intro that)
qed


subsection \<open>Properties\<close>

text \<open>
  C4. The CGI program. For clock readings of this century, whatever \<open>QUERY_STRING\<close> is: when the number of
  microseconds it asks for is representable, the program writes a complete response whose \<open>Content-length\<close> is the
  length of its body, without overrunning \<open>content\<close>, and the time it prints differs from the real one by at
  most half a hundredth of a second and ten microseconds, in spite of the rounding of every operation on
  \<open>double\<close>s. When it is not representable (negative, or 4295 seconds or more, or not a finite number), the conversion
  for \<open>usleep\<close> is undefined.
\<close>

theorem cgi_response_correct:
  assumes "time_ok now1" "time_ok now2"
  shows "case usleep_arg (getargs q) of
      Done w \<Rightarrow> \<exists>body neg h. cgi_main q 0 now1 0 now2
          = Done (''Content-length: '' @ fmt_lu (int (length body)) @ CRLF @ ''Content-type: text/html'' @ CRLF @ CRLF @ body)
        \<and> body = ''<p>Welcome to the CGI program</p>'' @ CRLF
            @ ''<p>My only purpose is to waste time on the server!</p>'' @ CRLF
            @ ''<p>I spun for '' @ hundredths neg h @ '' seconds</p>'' @ CRLF
        \<and> length body < MAXBUF
        \<and> \<bar>(if neg then - of_nat h else of_nat h) / 100 - (seconds now2 - seconds now1)\<bar> \<le> 1 / 200 + 1 / 100000
    | _ \<Rightarrow> cgi_main q 0 now1 0 now2 = Fault"
proof (cases "usleep_arg (getargs q)")
  case (Done w)
  obtain d where d:
    "cgi_main q 0 now1 0 now2 = Done (concat (cgi_header (length (cgi_content d))) @ CRLF @ cgi_content d)"
    "\<bar>d - (seconds now2 - seconds now1)\<bar> \<le> 1 / 100000" "length (cgi_content d) < MAXBUF"
    using cgi_main_response [OF Done assms] .
  obtain h where h: "fmt_f2 d = hundredths (d < 0) h" "\<bar>(if d < 0 then - of_nat h else of_nat h) / 100 - d\<bar> \<le> 1 / 200"
    using fmt_f2_value .
  have "\<bar>(if d < 0 then - of_nat h else of_nat h) / 100 - (seconds now2 - seconds now1)\<bar> \<le> 1 / 200 + 1 / 100000"
    using h(2) d(2) by linarith
  then show ?thesis unfolding Done run.case using d(1,3) h(1)
    by (intro exI [of _ "cgi_content d"] exI [of _ "d < 0"] exI [of _ h])
      (simp_all add: cgi_header_def cgi_content_def)
next
  case Exited
  then show ?thesis by (simp add: usleep_arg_def split: option.splits if_splits)
next
  case Fault
  obtain a where "Time_GetSeconds 0 now1 = Done (Some a)" using Time_GetSeconds_close [OF assms(1)] .
  then show ?thesis using Fault by (simp add: cgi_main_def)
qed

definition ex_clock :: "int \<Rightarrow> int \<Rightarrow> timeval" where
  "ex_clock s u = \<lparr>tv_sec = s, tv_usec = u\<rparr>"

lemma ex_query:
  "usleep_arg (getargs (Some ''2&x'')) = Done 2000000" "usleep_arg (getargs (Some ''5000'')) = Fault"
  "usleep_arg (getargs (Some ''2'')) = Done 2000000"
proof -
  have g: "getargs (Some ''2&x'') = rnd 2" "getargs (Some ''5000'') = rnd 5000" "getargs (Some ''2'') = rnd 2"
    by (simp_all add: getargs_def strtok_def atof_def isspace_def lower_def scan_mantissa_def digit_val_def
        scan_exponent_def of_char_def Let_def)
  have "rnd 2 = Some 2" "rnd 5000 = Some 5000" "rnd 2000000 = Some 2000000" "rnd 5000000000 = Some 5000000000"
    using rnd_of_int [of 2] rnd_of_int [of 5000] rnd_of_int [of 2000000] rnd_of_int [of 5000000000] by simp_all
  then show "usleep_arg (getargs (Some ''2&x'')) = Done 2000000" "usleep_arg (getargs (Some ''5000'')) = Fault"
      "usleep_arg (getargs (Some ''2'')) = Done 2000000"
    unfolding g by (simp_all add: usleep_arg_def)
qed

theorem cgi_response_correct_witness:
  "cgi_main (Some ''5000'') 0 (ex_clock 1700000000 5) 0 (ex_clock 1700000002 9) = Fault
   \<and> (\<exists>out. cgi_main (Some ''2&x'') 0 (ex_clock 1700000000 5) 0 (ex_clock 1700000002 9) = Done out)"
proof -
  have "time_ok (ex_clock 1700000000 5)" "time_ok (ex_clock 1700000002 9)"
    by (simp_all add: time_ok_def ex_clock_def)
  from cgi_response_correct [OF this, of "Some ''5000''"] cgi_response_correct [OF this, of "Some ''2&x''"]
  show ?thesis unfolding ex_query(1,2) by auto
qed

end
