(* ===== verification/Http.thy ===== *)
theory Http
  imports Client Cgi
begin

section \<open>A request from end to end\<close>

text \<open>
  The client of \<open>client.c\<close>, the handler of \<open>request.c\<close> and the CGI program of \<open>output.c\<close> put together: what the
  client sends is what the handler reads, and what the handler (and its child) sends is what the client
  reads, in both directions cut into pieces in any way.
\<close>

subsection \<open>Lines\<close>

text \<open>A text that \<open>rio_readlineb\<close> and the string functions take as one line.\<close>

definition one_line :: "string \<Rightarrow> bool" where
  "one_line s \<longleftrightarrow> NUL \<notin> set s \<and> CHR 0x0A \<notin> set s"

lemma one_line_append [simp]: "one_line (s @ t) \<longleftrightarrow> one_line s \<and> one_line t"
  by (auto simp: one_line_def)

lemma one_line_Cons: "one_line (c # s) \<longleftrightarrow> c \<noteq> NUL \<and> c \<noteq> CHR 0x0A \<and> one_line s"
  by (auto simp: one_line_def)

lemma one_line_Nil [simp]: "one_line []"
  by (simp add: one_line_def)

lemma header_line_CRLF:
  assumes "one_line s" "s \<noteq> []" "length s + 2 < MAXBUF"
  shows "header_line (s @ CRLF)"
  using assms unfolding header_line_def plain_def one_line_def
  by (auto simp: CRLF_def LF_def NUL_def intro: exI [of _ "s @ [CHR 0x0D]"])

lemma digits_one_line: "\<forall>c\<in>set s. is_digit c \<Longrightarrow> one_line s"
  by (auto simp: one_line_def is_digit_def NUL_def)

lemma fmt_one_line [simp]: "one_line (fmt_nat n)" "one_line (fmt_d x)" "one_line (fmt_lu x)"
    "one_line (pad0 w (fmt_lu x))" "one_line (fmt_time t)"
proof -
  show n: "one_line (fmt_nat n)" for n using fmt_nat_digits by (rule digits_one_line)
  then show "one_line (fmt_d x)" "one_line (fmt_lu x)"
    by (simp_all add: fmt_d_def fmt_lu_def one_line_Cons NUL_def)
  show p: "one_line (pad0 w (fmt_lu x))" for w x
    using n by (auto simp: pad0_def fmt_lu_def one_line_def NUL_def)
  show "one_line (fmt_time t)" using p n by (simp add: fmt_time_def fmt_lu_def one_line_Cons NUL_def)
qed

text \<open>The header lines of the statistics.\<close>

definition stat_lines :: "timeval \<Rightarrow> timeval \<Rightarrow> int \<Rightarrow> int \<Rightarrow> int \<Rightarrow> int \<Rightarrow> string list" where
  "stat_lines p d i tot stat dyn =
     [''Stat-Req-Arrival:: '' @ fmt_time p @ CRLF, ''Stat-Req-Dispatch:: '' @ fmt_time d @ CRLF,
      ''Stat-Thread-Id:: '' @ fmt_d i @ CRLF, ''Stat-Thread-Count:: '' @ fmt_d tot @ CRLF,
      ''Stat-Thread-Static:: '' @ fmt_d stat @ CRLF, ''Stat-Thread-Dynamic:: '' @ fmt_d dyn @ CRLF]"

lemma stat_lines_concat: "stat_headers p d i tot stat dyn = concat (stat_lines p d i tot stat dyn)"
  by (simp add: stat_headers_def stat_lines_def)

lemma header_line_field:
  assumes "one_line v" "length v \<le> 100" "one_line n" "n \<noteq> []" "length n \<le> 100"
  shows "header_line (n @ v @ CRLF)"
  using header_line_CRLF [of "n @ v"] assms by (simp add: MAXBUF_def)

lemma length_fmt_time: "length (fmt_time t) \<le> 100"
  using length_fmt_lu [of "tv_sec t"] length_fmt_lu [of "tv_usec t"] by (simp add: fmt_time_def length_pad0)

lemma length_fmt_d100: "in_int x \<Longrightarrow> length (fmt_d x) \<le> 100"
  using length_fmt_d [of x] by simp

lemma stat_lines_header:
  assumes "in_int i" "in_int tot" "in_int stat" "in_int dyn"
  shows "\<forall>x\<in>set (stat_lines p d i tot stat dyn). header_line x"
  using assms unfolding stat_lines_def list.set ball_simps
  by (intro conjI header_line_field length_fmt_time length_fmt_d100 fmt_one_line; simp add: one_line_Cons NUL_def)

lemma no_length_note: "\<not> is_prefix ''Content-Length:'' s \<Longrightarrow> length_note s = []"
  by (simp add: length_note_def scan_length_def)

lemma stat_lines_note: "\<forall>x\<in>set (stat_lines p d i tot stat dyn). length_note x = []"
  by (simp add: stat_lines_def no_length_note)

lemma length_note_value:
  assumes "0 \<le> n" shows "length_note (''Content-Length: '' @ fmt_d n @ CRLF) = ''Length = '' @ fmt_d n @ LF"
proof -
  obtain c s where c: "fmt_nat (nat n) = c # s" using fmt_nat_nonempty by (cases "fmt_nat (nat n)") auto
  have dig: "\<forall>x\<in>set (c # s). is_digit x" using fmt_nat_digits [of "nat n"] c by simp
  then have hd: "is_digit c" "\<not> isspace c" "c \<noteq> CHR ''-''" "c \<noteq> CHR ''+''"
    by (auto simp: is_digit_def isspace_def)
  have "atoi_digits 0 ((c # s) @ CRLF) = atoi_digits (atoi_digits 0 (c # s)) CRLF"
    using dig by (rule atoi_digits_append)
  also have "\<dots> = n" using atoi_fmt_nat [of "nat n"] c assms by (simp add: CRLF_def)
  finally have "scan_length (''Content-Length: '' @ fmt_d n @ CRLF) = Some n"
    using hd assms c by (simp add: scan_length_def fmt_d_def isspace_def Let_def del: atoi_digits.simps)
  then show ?thesis by (simp add: length_note_def)
qed


subsection \<open>The request\<close>

lemma scan_word_next:
  assumes "w \<noteq> []" "\<forall>c\<in>set w. \<not> isspace c" "isspace b"
  shows "scan_word (w @ b # r) = (w, b # r)" "scan_word (CHR '' '' # w @ b # r) = (w, b # r)"
  using scan_word_word [of w "b # r"] assms by simp_all

text \<open>A name that can stand in a request line.\<close>

definition uri_ok :: "string \<Rightarrow> bool" where
  "uri_ok uri \<longleftrightarrow> uri \<noteq> [] \<and> (\<forall>c\<in>set uri. \<not> isspace c \<and> c \<noteq> NUL)"

lemma scan_get_line:
  assumes "uri_ok uri"
  shows "scan_request (cstr (''GET '' @ uri @ '' HTTP/1.1'' @ LF)) st = (''GET'', uri, ''HTTP/1.1'')"
proof -
  let ?l = "''GET '' @ uri @ '' HTTP/1.1'' @ LF"
  have "\<forall>c\<in>set ?l. c \<noteq> NUL" using assms by (auto simp: uri_ok_def LF_def NUL_def)
  then have c: "cstr ?l = ?l" unfolding cstr_def by (simp only: takeWhile_eq_all_conv)
  have "scan_word ?l = (''GET'', CHR '' '' # uri @ '' HTTP/1.1'' @ LF)"
    using scan_word_next(1) [of "''GET''" "CHR '' ''" "uri @ '' HTTP/1.1'' @ LF"] by (simp add: isspace_def)
  moreover have "scan_word (CHR '' '' # uri @ '' HTTP/1.1'' @ LF) = (uri, '' HTTP/1.1'' @ LF)"
    using scan_word_next(2) [of uri "CHR '' ''" "''HTTP/1.1'' @ LF"] assms by (simp add: uri_ok_def isspace_def)
  moreover have "scan_word ('' HTTP/1.1'' @ LF) = (''HTTP/1.1'', LF)"
    using scan_word_next(2) [of "''HTTP/1.1''" "CHR 0x0A" "[]"] by (simp add: isspace_def LF_def)
  ultimately show ?thesis using assms unfolding c by (simp add: scan_request_def uri_ok_def)
qed

lemma drop_line: "drop (length (a @ b @ c)) (a @ b @ c @ r) = r" "drop (length (a @ b)) (a @ b @ r) = r"
  by simp_all

lemma has_blank_host:
  assumes "one_line host" "length host + 8 < MAXLINE"
  shows "has_blank (''host: '' @ host @ LF @ CRLF)"
proof -
  have l: "line_of (MAXLINE - 1) (''host: '' @ host @ LF @ CRLF) = ''host: '' @ host @ LF"
    using line_of_whole [of "''host: '' @ host" "MAXLINE - 1" CRLF] assms by (simp add: one_line_def)
  have "line_of (MAXLINE - 1) CRLF = CRLF"
    using line_of_whole [of "[CHR 0x0D]" "MAXLINE - 1" "[]"] by (simp add: LF_def CRLF_def MAXLINE_def)
  then have "has_blank CRLF"
    by (simp add: has_blank.simps [of CRLF]) (simp add: CRLF_def cstr_def NUL_def)
  moreover have "cstr (''host: '' @ host @ LF) \<noteq> CRLF" by (simp add: cstr_def CRLF_def NUL_def)
  ultimately show ?thesis
    by (subst has_blank.simps) (simp only: l Let_def drop_line if_True if_False append_is_Nil_conv list.simps simp_thms)
qed

text \<open>What the client sends is a \<open>GET\<close> request for the handler.\<close>

lemma client_get_request:
  assumes "uri_ok uri" "one_line host" "length (client_request uri host) < MAXLINE"
    and "no_err (rx s)" "stream (rx s) = client_request uri host"
    and "length (s_rio st) = RIO_BUFSIZE" "cstr (s_hdr st) \<noteq> CRLF"
  shows "get_request st s uri"
proof -
  let ?l = "''GET '' @ uri @ '' HTTP/1.1''" and ?r = "''host: '' @ host @ LF @ CRLF"
  have st: "stream (rx s) = ?l @ LF @ ?r" using assms(5) by (simp add: client_request_def)
  have len: "length uri + length host + 22 < MAXLINE"
    using assms(3) by (simp add: client_request_def LF_def CRLF_def)
  have "CHR 0x0A \<notin> set ?l" using assms(1) by (auto simp: uri_ok_def isspace_def)
  then have l: "line_of (MAXLINE - 1) (?l @ LF @ ?r) = ?l @ LF" using len by (intro line_of_whole) simp_all
  have "has_blank ?r" using assms(2) len by (intro has_blank_host) simp_all
  moreover have "scan_request (cstr (?l @ LF)) st = (''GET'', uri, ''HTTP/1.1'')"
    using scan_get_line [OF assms(1)] by simp
  moreover have "drop (length (?l @ LF)) (?l @ LF @ ?r) = ?r"
    by (rule drop_line)
  ultimately show ?thesis using assms(4,6,7)
    unfolding get_request_def st Let_def l by (simp only: strcasecmp_eq_def) simp
qed

lemma clientSend_sends:
  assumes "WFail False \<notin> set ws" "0 \<le> rc" "length (client_request uri host) < MAXLINE"
  shows "\<exists>ws'. clientSend ws uri rc host = Done (client_request uri host, ws')"
proof -
  obtain ws' where "writen_loop ws (client_request uri host) [] = (True, client_request uri host, ws')"
    using writen_loop_ok [of ws "client_request uri host" "[]"] assms(1) by auto
  then show ?thesis using assms(2,3)
    by (intro exI [of _ ws'])
      (simp add: clientSend_def Gethostname_def sprintf_into_def client_request_def Rio_writen_def rio_writen_def)
qed


subsection \<open>The response\<close>

text \<open>
  A client that reaches the server: its system calls succeed, it can send its request, and the handler reads what
  was sent; nothing has been sent back yet. The pieces in which the two directions arrive are arbitrary.
\<close>

definition connected :: "net \<Rightarrow> stack \<Rightarrow> rq \<Rightarrow> string \<Rightarrow> bool" where
  "connected net st s uri \<longleftrightarrow>
     n_sock net \<ge> 0 \<and> n_found net \<and> n_conn net \<ge> 0 \<and> n_close net \<ge> 0 \<and> fst (n_host net) \<ge> 0
     \<and> WFail False \<notin> set (n_tx net) \<and> no_err (n_rx net)
     \<and> uri_ok uri \<and> one_line (snd (n_host net)) \<and> length (client_request uri (snd (n_host net))) < MAXLINE
     \<and> no_err (rx s) \<and> stream (rx s) = client_request uri (snd (n_host net)) \<and> tx_ok s \<and> sent s = []
     \<and> length (s_rio st) = RIO_BUFSIZE \<and> cstr (s_hdr st) \<noteq> CRLF"

lemma connected_get: "connected net st s uri \<Longrightarrow> get_request st s uri"
  by (rule client_get_request [of uri "snd (n_host net)"]) (simp_all add: connected_def)

lemma client_main_prints:
  assumes c: "connected net st s uri" and a: "atoi port = Done pt" "length junk = RIO_BUFSIZE"
    and r: "stream (n_rx net) = concat (h # hs) @ CRLF @ body" "\<forall>x\<in>set (h # hs). header_line x"
  shows "client_main net junk buf [prog, host, port, uri] = Some (Done (stream (rx s), header_out h hs @ printed body))"
proof -
  have n: "n_sock net \<ge> 0" "n_found net" "n_conn net \<ge> 0" "n_close net \<ge> 0" "no_err (n_rx net)"
      "stream (rx s) = client_request uri (snd (n_host net))"
    using c by (simp_all add: connected_def)
  obtain ws' where w: "clientSend (n_tx net) uri (fst (n_host net)) (snd (n_host net)) = Done (stream (rx s), ws')"
    using clientSend_sends [of "n_tx net" "fst (n_host net)" uri "snd (n_host net)"] c
    by (auto simp: connected_def)
  have p: "clientPrint (n_rx net) junk fd buf = Some (Done (header_out h hs @ printed body))" for fd
    using clientPrint_prints [OF n(5) a(2) r] .
  show ?thesis using a(1) n(1-4) w p
    by (simp add: client_main_def Open_clientfd_def open_clientfd_def Close_def eval_nat_numeral)
qed

text \<open>The header lines as the client shows them.\<close>

definition shown :: "string list \<Rightarrow> string" where
  "shown ls = concat (map (\<lambda>x. ''Header: '' @ x) ls)"

lemma shown_append: "shown (xs @ ys) = shown xs @ shown ys"
  by (simp add: shown_def)

lemma header_out_shown: "\<forall>x\<in>set hs. length_note x = [] \<Longrightarrow> header_out h hs = shown (h # hs)"
  by (induction hs) (simp_all add: header_out_def shown_def)

definition status_lines :: "string list" where
  "status_lines = [''HTTP/1.0 200 OK'' @ CRLF, ''Server: OS-HW3 Web Server'' @ CRLF]"

definition entity_lines :: "int \<Rightarrow> string \<Rightarrow> string list" where
  "entity_lines n t = [''Content-Length: '' @ fmt_d n @ CRLF, ''Content-Type: '' @ t @ CRLF]"

definition thread_lines :: "rq \<Rightarrow> timeval \<Rightarrow> timeval \<Rightarrow> int \<Rightarrow> string list" where
  "thread_lines s p d i = stat_lines p d i (total_counter s ! nat i) (static_counter s ! nat i) (dynamic_counter s ! nat i)"

lemma thread_stats_lines: "thread_stats s p d i = concat (thread_lines s p d i)"
  by (simp add: thread_stats_def thread_lines_def stat_lines_concat)

lemma thread_lines_header: "counters_ok s i \<Longrightarrow> \<forall>x\<in>set (thread_lines s p d i). header_line x"
  unfolding thread_lines_def counters_ok_def by (intro stat_lines_header) auto

lemma thread_lines_note: "\<forall>x\<in>set (thread_lines s p d i). length_note x = []"
  unfolding thread_lines_def by (rule stat_lines_note)

lemma status_lines_header: "\<forall>x\<in>set status_lines. header_line x"
  unfolding status_lines_def list.set ball_simps
  by (intro conjI header_line_CRLF; simp add: one_line_Cons NUL_def MAXBUF_def)

lemma entity_lines_header:
  assumes "in_int n" shows "\<forall>x\<in>set (entity_lines n (requestGetFiletype f)). header_line x"
proof -
  have "one_line (requestGetFiletype f)" "length (requestGetFiletype f) \<le> 100"
    by (auto simp: requestGetFiletype_def one_line_Cons NUL_def)
  then show ?thesis using length_fmt_d100 [OF assms] unfolding entity_lines_def list.set ball_simps
    by (intro conjI header_line_field fmt_one_line; simp add: one_line_Cons NUL_def)
qed

lemma header_out_entity:
  assumes "0 \<le> n" "\<forall>x\<in>set ls. length_note x = []"
  shows "header_out (''HTTP/1.0 200 OK'' @ CRLF) ((''Server: OS-HW3 Web Server'' @ CRLF) # entity_lines n t @ ls)
    = shown status_lines @ ''Length = '' @ fmt_d n @ LF @ shown (entity_lines n t @ ls)"
proof -
  have "concat (map (\<lambda>x. length_note x @ ''Header: '' @ x) ls) = shown ls"
    using assms(2) by (induction ls) (simp_all add: shown_def)
  moreover have "length_note (''Content-Type: '' @ t @ CRLF) = []" "length_note (''Server: OS-HW3 Web Server'' @ CRLF) = []"
    by (simp_all add: no_length_note)
  ultimately show ?thesis
    using length_note_value [OF assms(1)]
    by (simp add: header_out_def shown_def status_lines_def entity_lines_def)
qed


text \<open>What the CGI program contributes.\<close>

lemma cgi_header_lines: "\<forall>x\<in>set (cgi_header n). header_line x"
proof -
  have "length (fmt_lu (int n)) \<le> 100" using length_fmt_lu [of "int n"] by simp
  then show ?thesis using header_line_CRLF [of "''Content-type: text/html''"] unfolding cgi_header_def list.set ball_simps
    by (intro conjI header_line_field fmt_one_line; simp add: one_line_Cons NUL_def MAXBUF_def)
qed

lemma cgi_header_note: "\<forall>x\<in>set (cgi_header n). length_note x = []"
  by (simp add: cgi_header_def no_length_note)

lemma cgi_content_plain: "plain (cgi_content e)"
proof -
  have "NUL \<notin> set (fmt_nat n)" for n using fmt_one_line(1) [of n] by (simp add: one_line_def)
  then show ?thesis by (auto simp: plain_def cgi_content_def fmt_f2_def Let_def pad0_def CRLF_def NUL_def)
qed

subsection \<open>Properties\<close>

text \<open>
  C2. A file from end to end. When a client that is connected to the server asks for a regular file
  that the owner may read, \<open>requestHandle\<close> returns and has sent the header and the file byte for byte. When this reaches the
  client, in pieces of any size, the client's \<open>main\<close> has sent what the handler read and prints the status and server lines, the
  length of the file, the other header lines with the statistics of the thread, and the file: all of it if it has no NUL
  bytes. Of a line with a NUL byte (of at most 8191 bytes) it prints only what is before the NUL, since it prints strings.
\<close>

theorem http_get_file:
  assumes "connected net st s uri" "requestParseURI uri (s_cgiargs st) = Done (True, f, args)"
    and "os_stat os f = Some sb" "st_reg sb" "st_rusr sb" "st_size sb = int (length content)" "in_int (st_size sb)"
    and "os_open os f \<ge> 0" "os_mmap os f (st_size sb) = Some content"
      "os_close os (os_open os f) \<ge> 0" "os_munmap os \<ge> 0"
    and "incr (total_counter s) i = Done tc" "incr (static_counter s) i = Done sc"
      "s1 = s\<lparr>total_counter := tc, static_counter := sc\<rparr>" "counters_ok s1 i"
    and "atoi port = Done pt" "length junk = RIO_BUFSIZE"
  shows "\<exists>s' out. requestHandle os st s fd (Some p) (Some d) i = Some (Done s')
    \<and> sent s' = concat (status_lines @ entity_lines (int (length content)) (requestGetFiletype f)
        @ thread_lines s1 p d i) @ CRLF @ content
    \<and> (stream (n_rx net) = sent s' \<longrightarrow>
       client_main net junk buf [prog, host, port, uri] = Some (Done (stream (rx s),
         shown status_lines @ ''Length = '' @ fmt_d (int (length content)) @ LF
         @ shown (entity_lines (int (length content)) (requestGetFiletype f) @ thread_lines s1 p d i) @ out)))
    \<and> out = printed content \<and> (NUL \<notin> set content \<longrightarrow> out = content)"
proof -
  let ?n = "int (length content)" and ?t = "requestGetFiletype f"
  let ?hs = "(''Server: OS-HW3 Web Server'' @ CRLF) # entity_lines ?n ?t @ thread_lines s1 p d i"
  have tx: "tx_ok s" "sent s = []" using assms(1) by (simp_all add: connected_def)
  obtain s' where s': "requestHandle os st s fd (Some p) (Some d) i = Some (Done s')"
      "sent s' = static_header ?n ?t @ thread_stats s1 p d i @ CRLF @ content"
    using requestHandle_static [OF connected_get [OF assms(1)] assms(2-5,7,8,9,10,11) tx(1) assms(12,13), where fd = fd and p = p and d = d]
      assms(6,14,15) tx(2) by auto
  have lines: "sent s' = concat ((''HTTP/1.0 200 OK'' @ CRLF) # ?hs) @ CRLF @ content"
    unfolding s'(2) thread_stats_lines by (simp add: static_header_def entity_lines_def)
  have hl: "\<forall>x\<in>set ((''HTTP/1.0 200 OK'' @ CRLF) # ?hs). header_line x"
    using status_lines_header entity_lines_header [of ?n f] thread_lines_header [OF assms(15), of p d] assms(6,7)
    by (auto simp: status_lines_def)
  have "client_main net junk buf [prog, host, port, uri] = Some (Done (stream (rx s),
      header_out (''HTTP/1.0 200 OK'' @ CRLF) ?hs @ printed content))" if "stream (n_rx net) = sent s'"
    using client_main_prints [OF assms(1,16,17) _ hl] that lines by metis
  moreover have "sent s' = concat (status_lines @ entity_lines ?n ?t @ thread_lines s1 p d i) @ CRLF @ content"
    unfolding lines by (simp add: status_lines_def)
  ultimately show ?thesis
    using s'(1) header_out_entity [OF _ thread_lines_note, of ?n ?t s1 p d i] printed_plain [of content]
    by (intro exI [of _ s'] exI [of _ "printed content"]) (auto simp: plain_def)
qed

text \<open>
  C19. A CGI program from end to end. When a connected client asks for the program of \<open>output.c\<close>, with a number
  of seconds that \<open>usleep\<close> can take, the handler returns after its child has, and the client prints the header
  lines of the server and of the program and then exactly the program's page. Unlike for a file it does not print
  the length: the program spells \<open>Content-length\<close>, and the client looks for \<open>Content-Length\<close>.
\<close>

theorem http_get_cgi:
  assumes "connected net st s uri" "requestParseURI uri (s_cgiargs st) = Done (False, f, args)"
    and "os_stat os f = Some sb" "st_reg sb" "st_xusr sb"
    and "os_fork os \<ge> 0" "os_waitpid os (os_fork os) \<ge> 0" "os_setenv os \<ge> 0" "os_dup2 os \<ge> 0"
      "os_execve os f = Some (\<lambda>q. child_output (cgi_main (Some q) 0 now1 0 now2))"
    and "time_ok now1" "time_ok now2" "usleep_arg (Cgi.getargs (Some args)) = Done w"
    and "incr (total_counter s) i = Done tc" "incr (dynamic_counter s) i = Done dc"
      "s1 = s\<lparr>total_counter := tc, dynamic_counter := dc\<rparr>" "counters_ok s1 i"
    and "atoi port = Done pt" "length junk = RIO_BUFSIZE"
  shows "\<exists>s' page. requestHandle os st s fd (Some p) (Some d) i = Some (Done s')
    \<and> (\<exists>e. page = cgi_content e \<and> \<bar>e - (seconds now2 - seconds now1)\<bar> \<le> 1 / 100000)
    \<and> (stream (n_rx net) = sent s' \<longrightarrow>
       client_main net junk buf [prog, host, port, uri] = Some (Done (stream (rx s),
         shown (status_lines @ thread_lines s1 p d i @ cgi_header (length page)) @ page)))"
proof -
  have tx: "tx_ok s" "sent s = []" using assms(1) by (simp_all add: connected_def)
  obtain e where e: "cgi_main (Some args) 0 now1 0 now2
      = Done (concat (cgi_header (length (cgi_content e))) @ CRLF @ cgi_content e)"
      "\<bar>e - (seconds now2 - seconds now1)\<bar> \<le> 1 / 100000"
    using cgi_main_response [OF assms(13,11,12)] by blast
  let ?page = "cgi_content e"
  let ?hs = "(''Server: OS-HW3 Web Server'' @ CRLF) # thread_lines s1 p d i @ cgi_header (length ?page)"
  have child: "child_output (cgi_child os f args) = concat (cgi_header (length ?page)) @ CRLF @ ?page"
    using assms(8-10) e(1) by (simp add: cgi_child_def Setenv_def Dup2_def child_output_def)
  obtain s' where s': "requestHandle os st s fd (Some p) (Some d) i = Some (Done s')"
      "sent s' = (''HTTP/1.0 200 OK'' @ CRLF @ ''Server: OS-HW3 Web Server'' @ CRLF)
        @ thread_stats s1 p d i @ concat (cgi_header (length ?page)) @ CRLF @ ?page"
    using requestHandle_dynamic [OF connected_get [OF assms(1)] assms(2-7) tx(1) assms(14,15), where fd = fd and p = p and d = d]
      assms(16,17) tx(2) unfolding child by auto
  have lines: "sent s' = concat ((''HTTP/1.0 200 OK'' @ CRLF) # ?hs) @ CRLF @ ?page"
    unfolding s'(2) thread_stats_lines by simp
  have hl: "\<forall>x\<in>set ((''HTTP/1.0 200 OK'' @ CRLF) # ?hs). header_line x"
    using status_lines_header cgi_header_lines thread_lines_header [OF assms(17), of p d]
    by (auto simp: status_lines_def)
  have "length_note (''Server: OS-HW3 Web Server'' @ CRLF) = []" by (simp add: no_length_note)
  then have nt: "\<forall>x\<in>set ?hs. length_note x = []"
    using thread_lines_note [of s1 p d i] cgi_header_note by (auto simp del: append_Cons)
  have "client_main net junk buf [prog, host, port, uri] = Some (Done (stream (rx s),
      header_out (''HTTP/1.0 200 OK'' @ CRLF) ?hs @ ?page))" if "stream (n_rx net) = sent s'"
    using client_main_prints [OF assms(1,18,19) _ hl] printed_plain [OF cgi_content_plain] that lines by metis
  moreover have "header_out (''HTTP/1.0 200 OK'' @ CRLF) ?hs
      = shown (status_lines @ thread_lines s1 p d i @ cgi_header (length ?page))"
    unfolding header_out_shown [OF nt] by (simp add: status_lines_def)
  ultimately show ?thesis using s'(1) e(2) by metis
qed


subsection \<open>Witnesses\<close>

definition ex_net :: "string \<Rightarrow> net" where
  "ex_net resp = \<lparr>n_sock = 3, n_found = True, n_conn = 0, n_rx = [RIntr, RBytes resp], n_tx = [WOk 2, WFail True],
     n_host = (0, ''h''), n_close = 0\<rparr>"

definition ex_conn :: "string \<Rightarrow> rq" where
  "ex_conn uri = ex_rq\<lparr>rx := [RBytes (client_request uri ''h'')]\<rparr>"

lemma ex_connected:
  assumes "uri \<in> {''/a.html'', ''/o.cgi?2''}"
  shows "connected (ex_net resp) ex_stack (ex_conn uri) uri"
proof -
  have "uri_ok uri" "length (client_request uri ''h'') < MAXLINE"
    using assms by (auto simp: uri_ok_def isspace_def NUL_def client_request_def LF_def CRLF_def MAXLINE_def)
  then show ?thesis
    by (simp add: connected_def ex_net_def ex_conn_def ex_rq_def ex_stack_def one_line_def NUL_def tx_ok_def cstr_def
        CRLF_def no_err_def)
qed

lemma ex_port: "atoi (fmt_d 80) = Done 80"
  by (rule atoi_fmt_d) (simp add: in_int_def INT_MAX_def)

lemma ex_junk: "length (replicate RIO_BUFSIZE NUL) = RIO_BUFSIZE"
  by simp

theorem http_get_file_witness:
  "\<exists>net s' out. connected net ex_stack (ex_conn ''/a.html'') ''/a.html''
    \<and> requestHandle ex_os ex_stack (ex_conn ''/a.html'') 4 (Some ex_time) (Some ex_time) 1 = Some (Done s')
    \<and> stream (n_rx net) = sent s'
    \<and> client_main net (replicate RIO_BUFSIZE NUL) [NUL] [''client'', ''h'', fmt_d 80, ''/a.html'']
      = Some (Done (client_request ''/a.html'' ''h'', out @ ''hi''))"
proof -
  let ?s = "ex_conn ''/a.html''" and ?sb = "\<lparr>st_reg = True, st_rusr = True, st_xusr = False, st_size = 2\<rparr>"
  let ?s1 = "?s\<lparr>total_counter := [3, 6], static_counter := [0, 5]\<rparr>"
  have u: "requestParseURI ''/a.html'' (s_cgiargs ex_stack) = Done (True, ''./public//a.html'', [])"
    by (simp add: requestParseURI_def sprintf_into_def MAXLINE_def)
  have o: "os_stat ex_os ''./public//a.html'' = Some ?sb" "st_reg ?sb" "st_rusr ?sb" "st_size ?sb = int (length ''hi'')"
      "in_int (st_size ?sb)" "os_open ex_os ''./public//a.html'' \<ge> 0"
      "os_mmap ex_os ''./public//a.html'' (st_size ?sb) = Some ''hi''"
      "os_close ex_os (os_open ex_os ''./public//a.html'') \<ge> 0" "os_munmap ex_os \<ge> 0"
    by (simp_all add: ex_os_def in_int_def INT_MAX_def plain_def NUL_def)
  have c: "incr (total_counter ?s) 1 = Done [3, 6]" "incr (static_counter ?s) 1 = Done [0, 5]" "counters_ok ?s1 1"
    by (simp_all add: ex_conn_def ex_rq_def ex_incr counters_ok_def in_int_def INT_MAX_def)
  have k: "connected (ex_net resp) ex_stack ?s ''/a.html''" for resp by (rule ex_connected) simp
  have run: "\<exists>s'. requestHandle ex_os ex_stack ?s 4 (Some ex_time) (Some ex_time) 1 = Some (Done s')
      \<and> (resp = sent s' \<longrightarrow> (\<exists>out. client_main (ex_net resp) (replicate RIO_BUFSIZE NUL) [NUL]
          [''client'', ''h'', fmt_d 80, ''/a.html''] = Some (Done (client_request ''/a.html'' ''h'', out @ ''hi''))))" for resp
    using http_get_file [OF k [of resp] u o c(1,2) refl c(3) ex_port ex_junk,
        where fd = 4 and p = ex_time and d = ex_time and buf = "[NUL]" and prog = "''client''" and host = "''h''"]
    by (auto simp: ex_net_def ex_conn_def NUL_def)
  obtain s' where s': "requestHandle ex_os ex_stack ?s 4 (Some ex_time) (Some ex_time) 1 = Some (Done s')"
    using run [of "[]"] by blast
  with run [of "sent s'"] k [of "sent s'"]
  show ?thesis by (intro exI [of _ "ex_net (sent s')"]) (auto simp: ex_net_def)
qed


definition ex_cgi_os :: os where
  "ex_cgi_os = ex_os\<lparr>os_stat := (\<lambda>f. Some \<lparr>st_reg = True, st_rusr = True, st_xusr = True, st_size = 9\<rparr>),
     os_execve := (\<lambda>f. Some (\<lambda>q. child_output (cgi_main (Some q) 0 (ex_clock 1700000000 5) 0 (ex_clock 1700000002 9))))\<rparr>"

theorem http_get_cgi_witness:
  "\<exists>net s' out page. connected net ex_stack (ex_conn ''/o.cgi?2'') ''/o.cgi?2''
    \<and> requestHandle ex_cgi_os ex_stack (ex_conn ''/o.cgi?2'') 4 (Some ex_time) (Some ex_time) 1 = Some (Done s')
    \<and> stream (n_rx net) = sent s'
    \<and> client_main net (replicate RIO_BUFSIZE NUL) [NUL] [''client'', ''h'', fmt_d 80, ''/o.cgi?2'']
      = Some (Done (client_request ''/o.cgi?2'' ''h'', out @ cgi_content page))"
proof -
  let ?s = "ex_conn ''/o.cgi?2''" and ?sb = "\<lparr>st_reg = True, st_rusr = True, st_xusr = True, st_size = 9\<rparr>"
  let ?s1 = "?s\<lparr>total_counter := [3, 6], dynamic_counter := [1, 2]\<rparr>" and ?f = "''./public//o.cgi''"
  have u: "requestParseURI ''/o.cgi?2'' (s_cgiargs ex_stack) = Done (False, ?f, ''2'')"
    by (simp add: requestParseURI_def sprintf_into_def MAXLINE_def Let_def)
  have o: "os_stat ex_cgi_os ?f = Some ?sb" "st_reg ?sb" "st_xusr ?sb" "os_fork ex_cgi_os \<ge> 0"
      "os_waitpid ex_cgi_os (os_fork ex_cgi_os) \<ge> 0" "os_setenv ex_cgi_os \<ge> 0" "os_dup2 ex_cgi_os \<ge> 0"
      "os_execve ex_cgi_os ?f
        = Some (\<lambda>q. child_output (cgi_main (Some q) 0 (ex_clock 1700000000 5) 0 (ex_clock 1700000002 9)))"
    by (simp_all add: ex_cgi_os_def ex_os_def)
  have t: "time_ok (ex_clock 1700000000 5)" "time_ok (ex_clock 1700000002 9)"
    by (simp_all add: time_ok_def ex_clock_def)
  have c: "incr (total_counter ?s) 1 = Done [3, 6]" "incr (dynamic_counter ?s) 1 = Done [1, 2]" "counters_ok ?s1 1"
    by (simp_all add: ex_conn_def ex_rq_def incr_Done counters_ok_def in_int_def INT_MAX_def)
  have k: "connected (ex_net resp) ex_stack ?s ''/o.cgi?2''" for resp by (rule ex_connected) simp
  have run: "\<exists>s'. requestHandle ex_cgi_os ex_stack ?s 4 (Some ex_time) (Some ex_time) 1 = Some (Done s')
      \<and> (resp = sent s' \<longrightarrow> (\<exists>out page. client_main (ex_net resp) (replicate RIO_BUFSIZE NUL) [NUL]
          [''client'', ''h'', fmt_d 80, ''/o.cgi?2''] = Some (Done (client_request ''/o.cgi?2'' ''h'', out @ cgi_content page))))"
    for resp
    using http_get_cgi [OF k [of resp] u o t ex_query(3) c(1,2) refl c(3) ex_port ex_junk,
        where fd = 4 and p = ex_time and d = ex_time and buf = "[NUL]" and prog = "''client''" and host = "''h''"]
    by (fastforce simp: ex_net_def ex_conn_def)
  obtain s' where s': "requestHandle ex_cgi_os ex_stack ?s 4 (Some ex_time) (Some ex_time) 1 = Some (Done s')"
    using run [of "[]"] by blast
  with run [of "sent s'"] k [of "sent s'"]
  show ?thesis by (intro exI [of _ "ex_net (sent s')"]) (auto simp: ex_net_def)
qed

end
