(* ===== verification/Microsecond.thy ===== *)
theory Microsecond
  imports Server Doubles
begin

section \<open>A comparison of times (OS_HW3/server.c)\<close>

text \<open>
  \<open>isGreaterThanOneMicrosecond\<close>, which the program defines and does not use. The numbers are \<open>double\<close>s, and so is
  the literal \<open>0.000001\<close>.
\<close>

definition isGreaterThanOneMicrosecond :: "timeval \<Rightarrow> int option" where
  "isGreaterThanOneMicrosecond res =
     do { u \<leftarrow> rnd (of_int (tv_usec res));
          q \<leftarrow> rnd (u / 1000000);
          s \<leftarrow> rnd (of_int (tv_sec res));
          totalSeconds \<leftarrow> rnd (s + q);
          lit \<leftarrow> rnd (1 / 1000000);
          Some (if totalSeconds > lit then 1 else 0) }"

lemma rnd_near:
  assumes "0 \<le> x" "x \<le> 8589934592"
  obtains y where "rnd x = Some y" "x * 9 / 10 - 1 / 1000000000 \<le> y" "y \<le> x * 11 / 10 + 1 / 1000000000"
proof -
  have "\<bar>x\<bar> \<le> 8589934592" using assms by simp
  then have "\<bar>x\<bar> \<le> 2 ^ 1000" by (rule order_trans) simp
  then obtain y where y: "rnd x = Some y" "\<bar>y - x\<bar> \<le> \<bar>x\<bar> / 2 ^ 53 + 1 / 2 ^ 1000" using rnd_close by blast
  have "\<bar>x\<bar> / 2 ^ 53 \<le> x / 10" "(1 / 2 ^ 1000 :: rat) \<le> 1 / 1000000000" using assms by simp_all
  then have "\<bar>y - x\<bar> \<le> x / 10 + 1 / 1000000000" using y(2) by linarith
  then have "x * 9 / 10 - 1 / 1000000000 \<le> y" "y \<le> x * 11 / 10 + 1 / 1000000000" by linarith+
  with y(1) show thesis by (rule that)
qed

lemma le_of_near:
  assumes "x * 9 / 10 - 1 / 1000000000 \<le> y" "16 / 10000000 \<le> x" shows "1439 / 1000000000 \<le> (y :: rat)"
  using assms by simp

lemma isGreaterThanOneMicrosecond_value:
  assumes "0 \<le> tv_sec t" "tv_sec t \<le> 2 ^ 32" "0 \<le> tv_usec t" "tv_usec t < 1000000" "tv_sec t \<noteq> 0 \<or> tv_usec t \<noteq> 1"
  shows "isGreaterThanOneMicrosecond t = Some (if tv_sec t = 0 \<and> tv_usec t = 0 then 0 else 1)"
proof -
  let ?s = "of_int (tv_sec t) :: rat" and ?u = "of_int (tv_usec t) :: rat"
  have i: "rnd ?u = Some ?u" "rnd ?s = Some ?s" using assms by (auto intro!: rnd_of_int)
  have b: "0 \<le> ?s" "?s \<le> 4294967296" "0 \<le> ?u" "?u < 1000000" using assms by simp_all
  obtain q where q: "rnd (?u / 1000000) = Some q" "?u / 1000000 * 9 / 10 - 1 / 1000000000 \<le> q"
      "q \<le> ?u / 1000000 * 11 / 10 + 1 / 1000000000"
    using rnd_near [of "?u / 1000000"] b by auto
  obtain l where l: "rnd (1 / 1000000) = Some l" "1 / 1000000 * 9 / 10 - 1 / 1000000000 \<le> l"
      "l \<le> 1 / 1000000 * 11 / 10 + 1 / 1000000000"
    using rnd_near [of "1 / 1000000"] by auto
  show ?thesis
  proof (cases "tv_sec t = 0 \<and> tv_usec t = 0")
    case True
    then have "rnd (0 :: rat) = Some 0" "q = 0" using q(1) by (simp_all add: rnd_def)
    then show ?thesis using True l q(1) by (simp add: isGreaterThanOneMicrosecond_def rnd_def)
  next
    case False
    then have "1 \<le> tv_sec t \<or> 2 \<le> tv_usec t" using assms(1,3,5) by linarith
    then have "1 \<le> ?s \<or> 2 \<le> ?u" by (metis of_int_1_le_iff of_int_le_iff of_int_numeral)
    then have p: "16 / 10000000 \<le> ?s + q" using b q(2) by linarith
    have "?s + q \<le> 8589934592" using b q(3) by linarith
    then obtain y where y: "rnd (?s + q) = Some y" "(?s + q) * 9 / 10 - 1 / 1000000000 \<le> y"
      using rnd_near [of "?s + q"] p by auto
    have "l \<le> 1101 / 1000000000" using l(3) by simp
    moreover have "1439 / 1000000000 \<le> y" using y(2) p by (rule le_of_near)
    ultimately have "l < y" by simp
    then show ?thesis using False i q(1) y(1) l(1) by (simp add: isGreaterThanOneMicrosecond_def)
  qed
qed

end
