(* ===== verification/Drain.thy ===== *)
theory Drain
  imports Server
begin

section \<open>The server comes to rest (OS_HW3/server.c)\<close>

text \<open>
  What happens when no further connection arrives. The steps of \<open>work\<close> are those of the server in which
  \<open>accept\<close> does not return and no thread wakes up without a signal. Every one of them makes a number smaller
  that counts what is left to do, so that there are only finitely many; when none is possible any more
  and no worker is inside \<open>requestHandle\<close>, all connections are closed.
\<close>

subsection \<open>Steps without new connections\<close>

inductive work :: "int \<Rightarrow> server \<Rightarrow> server \<Rightarrow> bool" for max_tasks where
  block: "main_at s = MBlockR fd t \<Longrightarrow> allocates mal \<Longrightarrow>
     main_block max_tasks mal (shared s) fd t = Done r \<Longrightarrow> after_main s r ws s' \<Longrightarrow> work max_tasks s s'"
| bf: "main_at s = MBfR fd \<Longrightarrow> main_bf max_tasks (shared s) fd = Done r \<Longrightarrow>
     after_main s r ws s' \<Longrightarrow> work max_tasks s s'"
| wait: "i < length (workers s) \<Longrightarrow> workers s ! i = WIdle \<Longrightarrow>
     worker_take mal now (shared s) = Some (m, None) \<Longrightarrow>
     work max_tasks s (s\<lparr>shared := m, workers := (workers s)[i := WWait]\<rparr>)"
| take: "i < length (workers s) \<Longrightarrow> workers s ! i = WIdle \<Longrightarrow>
     allocates mal \<Longrightarrow>
     worker_take mal now (shared s) = Some (m, Some (fd, Some t)) \<Longrightarrow>
     work max_tasks s (s\<lparr>shared := m, workers := (workers s)[i := WRun fd t]\<rparr>)"
| handle: "i < length (workers s) \<Longrightarrow> workers s ! i = WRun fd t \<Longrightarrow>
     static_counter q = stat_cnt s \<Longrightarrow> dynamic_counter q = dyn_cnt s \<Longrightarrow> total_counter q = all_cnt s \<Longrightarrow>
     requestHandle os st q fd (Some t) (Some (timersub now t)) (int i) = Some (Done q') \<Longrightarrow>
     work max_tasks s (s\<lparr>workers := (workers s)[i := WDone fd], closed := add_mset fd (closed s),
       stat_cnt := static_counter q', dyn_cnt := dynamic_counter q', all_cnt := total_counter q'\<rparr>)"
| finish: "i < length (workers s) \<Longrightarrow> workers s ! i = WDone fd \<Longrightarrow>
     worker_finish (shared s) fd = Some m \<Longrightarrow>
     work max_tasks s
       (s\<lparr>shared := m, workers := (workers s)[i := WIdle], main_at := signal_main (main_at s)\<rparr>)"

lemma work_step: "work T s s' \<Longrightarrow> step policy T s s'"
  by (induction rule: work.induct) (auto intro: step.intros)

lemma work_accepted: "work T s s' \<Longrightarrow> accepted s' = accepted s \<and> length (workers s') = length (workers s)"
  by (induction rule: work.induct)
    (auto simp: after_main_def split: prod.splits if_splits elim: signal_worker.cases)

lemma works_reachable: "(work T ^^ n) s s' \<Longrightarrow> reachable policy N T s \<Longrightarrow> reachable policy N T s'"
proof (induction n arbitrary: s')
  case (Suc n)
  then show ?case using reachable.step work_step by (metis relpowp_Suc_E)
qed simp

lemma works_accepted: "(work T ^^ n) s s' \<Longrightarrow> accepted s' = accepted s"
proof (induction n arbitrary: s')
  case (Suc n)
  then show ?case using work_accepted by (metis relpowp_Suc_E)
qed simp

subsection \<open>What is left to do\<close>

text \<open>
  The weights of the places where a thread can be, and 4 for a request in the queue: a request passes from
  the listener (at most 6) through the queue to a worker, and a worker that is done may wake the listener.
\<close>

fun worker_left :: "worker_pc \<Rightarrow> nat" where
  "worker_left WWait = 0"
| "worker_left WIdle = 1"
| "worker_left (WDone fd) = 3"
| "worker_left (WRun fd t) = 4"

fun main_left :: "main_pc \<Rightarrow> nat" where
  "main_left MAccept = 0"
| "main_left (MBfW fd) = 0"
| "main_left (MBfR fd) = 1"
| "main_left (MBlockW fd t) = 5"
| "main_left (MBlockR fd t) = 6"

definition left :: "server \<Rightarrow> nat" where
  "left s = 4 * nat (getQsize (pending_reqs (shared s))) + sum_list (map worker_left (workers s)) + main_left (main_at s)"

lemma workers_left_update:
  "i < length ws \<Longrightarrow>
   sum_list (map worker_left (ws[i := w])) + worker_left (ws ! i) = sum_list (map worker_left ws) + worker_left w"
  by (induction ws arbitrary: i) (auto split: nat.split)

lemma signal_worker_left:
  "signal_worker ws ws' \<Longrightarrow> sum_list (map worker_left ws') \<le> Suc (sum_list (map worker_left ws))"
proof (induction rule: signal_worker.induct)
  case (somebody i ws)
  then show ?case using workers_left_update [of i ws WIdle] by simp
qed simp

lemma signal_main_left: "main_left (signal_main pc) \<le> Suc (main_left pc)"
  by (cases pc) simp_all

lemma workers_left_le: "sum_list (map worker_left ws) \<le> 4 * length ws"
proof (induction ws)
  case (Cons w ws)
  have "worker_left w \<le> 4" by (cases w) simp_all
  then show ?case using Cons by simp
qed simp

lemma left_rep:
  "mem_rep (shared s) T xs N ys \<Longrightarrow>
   left s = 4 * length xs + sum_list (map worker_left (workers s)) + main_left (main_at s)"
  using pend.qsize_rep [of "shared s" T xs "(N, ys)"] by (simp add: left_def)

lemma main_block_left:
  assumes inv: "sys_inv T N s xs ys" and al: "allocates mal" and m: "main_at s = MBlockR fd t"
    and r: "main_block T mal (shared s) fd t = Done r" and am: "after_main s r ws s'"
  shows "left s' < left s"
proof -
  have rep: "mem_rep (shared s) T xs N ys" using inv by (simp add: sys_inv_def)
  note old = left_rep [OF rep]
  show ?thesis
  proof (cases "is_overloaded T (shared s)")
    case True
    then have "r = (shared s, [], MBlockW fd t, False)" using r by (simp add: main_block_def)
    then show ?thesis using am m by (simp add: after_main_def left_def)
  next
    case False
    then have "int (length xs) < T" using is_overloaded_rep [OF rep] by simp
    then obtain mem' where p: "pend_insert (mal (qheap (shared s))) (shared s) fd (Some t) = Some mem'"
      "mem_rep mem' T (xs @ [(fd, Some t)]) N ys"
      using pend.ins_room [of "shared s" T xs "(N, ys)" "mal (qheap (shared s))" fd "Some t"]
        allocates_fresh [OF al rep] rep by auto
    then have "r = (mem', [], MAccept, True)" using r False by (simp add: main_block_def main_insert_def)
    then have s': "shared s' = mem'" "main_at s' = MAccept" "signal_worker (workers s) (workers s')"
      using am by (simp_all add: after_main_def)
    then have "left s' = 4 * Suc (length xs) + sum_list (map worker_left (workers s'))"
      using left_rep [of s' T "xs @ [(fd, Some t)]" N ys] p(2) by simp
    then show ?thesis using old m signal_worker_left [OF s'(3)] by simp
  qed
qed

lemma work_left:
  assumes "work T s s'" "sys_inv T N s xs ys"
  shows "left s' < left s"
proof -
  have rep: "mem_rep (shared s) T xs N ys" using assms(2) by (simp add: sys_inv_def)
  note old = left_rep [OF rep]
  show ?thesis using assms(1)
  proof cases
    case (block fd t mal r ws)
    then show ?thesis using main_block_left [OF assms(2)] by blast
  next
    case (bf fd r ws)
    then show ?thesis by (auto simp: main_bf_def after_main_def left_def split: if_splits)
  next
    case (wait i mal now m)
    then have "m = shared s" by (auto simp: worker_take_def Option.bind_eq_Some_conv split: if_splits)
    then show ?thesis using wait workers_left_update [of i "workers s" WWait] by (simp add: left_def)
  next
    case (take i mal now m fd t)
    obtain x zs where xs: "xs = x # zs"
      using take(5) worker_take_empty [of "shared s" T N ys mal now] rep by (cases xs) auto
    obtain us where "sys_inv T N s' zs us"
      using inv_take_Cons [OF assms(2) [unfolded xs] take(2-5)] unfolding take(1) by blast
    then have "left s' = 4 * length zs + sum_list (map worker_left (workers s')) + main_left (main_at s')"
      using left_rep [of s' T zs N us] by (simp add: sys_inv_def)
    then show ?thesis using old xs take(1-3) workers_left_update [of i "workers s" "WRun fd t"] by simp
  next
    case (handle i fd t q os st now q')
    then show ?thesis using workers_left_update [of i "workers s" "WDone fd"] by (simp add: left_def)
  next
    case (finish i fd m)
    obtain us where "sys_inv T N s' xs us" using inv_finish [OF assms(2) finish(2-4)] unfolding finish(1) by blast
    then have "left s' = 4 * length xs + sum_list (map worker_left (workers s')) + main_left (main_at s')"
      using left_rep [of s' T xs N us] by (simp add: sys_inv_def)
    then show ?thesis
      using old finish(1-3) workers_left_update [of i "workers s" WIdle] signal_main_left [of "main_at s"] by simp
  qed
qed


lemma works_left:
  assumes "(work T ^^ n) s s'" "reachable policy N T s" "well_started policy N T"
  shows "n + left s' \<le> left s"
  using assms(1)
proof (induction n arbitrary: s')
  case (Suc n)
  then obtain u where u: "(work T ^^ n) s u" "work T u s'" by (metis relpowp_Suc_E)
  obtain xs ys where "sys_inv T N u xs ys"
    using reachable_inv [OF works_reachable [OF u(1) assms(2)] assms(3)] by blast
  from work_left [OF u(2) this] show ?case using Suc.IH [OF u(1)] by simp
qed simp

lemma left_bound:
  assumes "sys_inv T N s xs ys" shows "int (left s) \<le> 4 * (T + N) + 6"
proof -
  have "left s = 4 * length xs + sum_list (map worker_left (workers s)) + main_left (main_at s)"
    using left_rep [of s T xs N ys] assms by (simp add: sys_inv_def)
  moreover have "main_left (main_at s) \<le> 6" by (cases "main_at s") simp_all
  moreover have "int (length xs) \<le> T" "int (length (workers s)) = N" using assms by (simp_all add: sys_inv_def)
  ultimately have "left s \<le> 4 * (length xs + length (workers s)) + 6" using workers_left_le [of "workers s"] by simp
  then have "int (left s) \<le> int (4 * (length xs + length (workers s)) + 6)" by (rule of_nat_mono)
  then show ?thesis using \<open>int (length xs) \<le> T\<close> \<open>int (length (workers s)) = N\<close> by simp
qed

subsection \<open>The states in which nothing is left\<close>

lemma signal_worker_total: "\<exists>ws'. signal_worker ws ws'"
  by (metis in_set_conv_nth signal_worker.intros)

lemma after_main_total: "\<exists>ws s'. after_main s r ws s'"
  using signal_worker_total [of "workers s"] by (cases r) (simp add: after_main_def, metis)

text \<open>A worker that can make no step waits or is inside \<open>requestHandle\<close>.\<close>

lemma worker_rests:
  assumes "sys_inv T N s xs ys" "\<nexists>s'. work T s s'" "w \<in> set (workers s)"
  shows "w = WWait \<or> (\<exists>fd t. w = WRun fd t)"
proof -
  obtain i where i: "i < length (workers s)" "workers s ! i = w" using assms(3) by (metis in_set_conv_nth)
  show ?thesis
  proof (cases w)
    case WIdle
    then show ?thesis
      using idle_enabled [OF assms(1) ex_alloc_ok i(1), of ex_time] i assms(2) work.wait work.take [OF _ _ ex_alloc_ok]
      by metis
  next
    case (WDone fd)
    then show ?thesis using done_enabled [OF assms(1) i(1)] i assms(2) work.finish by metis
  qed simp_all
qed

lemma all_wait:
  assumes "\<forall>w\<in>set ws. w = WWait" shows "busy_fds ws = {#}" "open_fds ws = {#}" "\<not> awake ws"
  using assms by (induction ws) (auto simp: busy_fds_def open_fds_def awake_def)

text \<open>A listener that holds a connection can go on when the queues are empty.\<close>

lemma main_rests:
  assumes "sys_inv T N s [] []" "0 < T" "\<nexists>s'. work T s s'" shows "main_at s = MAccept"
proof (cases "main_at s")
  case (MBlockR fd t)
  have rep: "mem_rep (shared s) T [] N []" using assms(1) by (simp add: sys_inv_def)
  have "main_ok T N [] [] fd (main_block T ex_alloc (shared s) fd t)"
    using assms(2) by (intro main_block_ok [OF rep ex_alloc_ok]) (simp_all add: timed_def)
  moreover have "main_block T ex_alloc (shared s) fd t \<noteq> Exited"
    by (cases "pend_insert (ex_alloc (qheap (shared s))) (shared s) fd (Some t)") (simp_all add: main_block_def main_insert_def)
  ultimately obtain r where r: "main_block T ex_alloc (shared s) fd t = Done r"
    by (cases "main_block T ex_alloc (shared s) fd t") (auto simp: main_ok_def)
  obtain ws s' where "after_main s r ws s'" using after_main_total by blast
  then show ?thesis using work.block [OF MBlockR ex_alloc_ok r] assms(3) by blast
next
  case (MBfR fd)
  obtain r where r: "main_bf T (shared s) fd = Done r" unfolding main_bf_def by (metis (full_types))
  obtain ws s' where "after_main s r ws s'" using after_main_total by blast
  then show ?thesis using work.bf [OF MBfR r] assms(3) by blast
qed (use assms(1,2) in \<open>simp_all add: sys_inv_def\<close>)

subsection \<open>The property\<close>

text \<open>
  C10. The server finishes what it has accepted. From every reachable state, however the threads are scheduled, at most
  \<open>4 * (max_tasks + max_threads) + 6\<close> steps are possible without a new connection (and without wake-ups that no signal
  caused). When no such step is left and no worker is inside \<open>requestHandle\<close>, all workers wait, the
  listener is back at \<open>accept\<close>, both queues are empty and exactly the connections accepted have been closed.
\<close>

theorem server_drains:
  assumes "reachable policy max_threads max_tasks s" "well_started policy max_threads max_tasks"
    "0 < max_threads" "0 < max_tasks" "(work max_tasks ^^ n) s s'"
  shows "int n \<le> 4 * (max_tasks + max_threads) + 6
    \<and> ((\<nexists>u. work max_tasks s' u) \<and> (\<forall>fd t. WRun fd t \<notin> set (workers s')) \<longrightarrow>
        (\<forall>w\<in>set (workers s'). w = WWait) \<and> main_at s' = MAccept
        \<and> isQempty (pending_reqs (shared s')) \<and> isQempty (busy_threads (shared s')) \<and> closed s' = accepted s)"
proof (rule conjI [OF _ impI], goal_cases)
  case 1
  obtain xs ys where "sys_inv max_tasks max_threads s xs ys" using reachable_inv [OF assms(1,2)] by blast
  from left_bound [OF this] show ?case using works_left [OF assms(5,1,2)] by linarith
next
  case 2
  obtain xs ys where inv: "sys_inv max_tasks max_threads s' xs ys"
    using reachable_inv [OF works_reachable [OF assms(5,1)] assms(2)] by blast
  have w: "\<forall>w\<in>set (workers s'). w = WWait" using worker_rests [OF inv] 2 by blast
  note a = all_wait [OF w]
  have ne: "workers s' \<noteq> []" using inv assms(3) by (auto simp: sys_inv_def)
  have e: "xs = []" "ys = []" using inv a ne by (auto simp: sys_inv_def)
  have m: "main_at s' = MAccept" using main_rests [OF inv [unfolded e] assms(4)] 2 by blast
  have rep: "mem_rep (shared s') max_tasks [] max_threads []" using inv e by (simp add: sys_inv_def)
  have "accepted s' = closed s'" using inv a m e by (simp add: sys_inv_def)
  then have "closed s' = accepted s" using works_accepted [OF assms(5)] by simp
  then show ?case using w m pend_empty_rep [OF rep] busy_empty_rep [OF rep] by simp
qed


subsection \<open>Witness\<close>

text \<open>Two workers that find the queue empty and begin to wait.\<close>

definition ex_resting :: server where
  "ex_resting = (init_server 2 1)\<lparr>workers := [WWait, WWait]\<rparr>"

lemma ex_resting_works: "(work 1 ^^ 2) (init_server 2 1) ex_resting"
proof -
  let ?s = "init_server 2 1" and ?u = "(init_server 2 1)\<lparr>workers := [WWait, WIdle]\<rparr>"
  have t: "worker_take ex_alloc ex_time (shared ?s) = Some (shared ?s, None)"
    by (simp add: worker_take_def init_server_def q_exec)
  have w: "workers ?s = [WIdle, WIdle]" by (simp add: init_server_def numeral_2_eq_2)
  have "work 1 ?s (?s\<lparr>shared := shared ?s, workers := (workers ?s)[0 := WWait]\<rparr>)"
    by (rule work.wait [OF _ _ t]) (simp_all add: w)
  then have a: "work 1 ?s ?u" by (simp add: w)
  have "work 1 ?u (?u\<lparr>shared := shared ?u, workers := (workers ?u)[1 := WWait]\<rparr>)"
    by (rule work.wait [of _ _ ex_alloc ex_time]) (use t in simp_all)
  then have b: "work 1 ?u ex_resting" by (simp add: ex_resting_def)
  show ?thesis using a b by (auto simp: numeral_2_eq_2 OO_def)
qed

lemma ex_resting_rests: "\<nexists>u. work 1 ex_resting u"
proof
  assume "\<exists>u. work 1 ex_resting u"
  then obtain u where "work 1 ex_resting u" ..
  then show False
    by cases (auto simp: ex_resting_def init_server_def less_Suc_eq nth_Cons split: nat.splits)
qed

theorem server_drains_witness:
  "reachable ''block'' 2 1 (init_server 2 1) \<and> (work 1 ^^ 2) (init_server 2 1) ex_resting
   \<and> closed ex_resting = accepted (init_server 2 1) \<and> isQempty (pending_reqs (shared ex_resting))"
proof -
  have r: "reachable ''block'' 2 1 (init_server 2 1)" by (rule reachable.start)
  have "\<forall>fd t. WRun fd t \<notin> set (workers ex_resting)" by (simp add: ex_resting_def)
  then show ?thesis
    using server_drains [OF r ex_started _ _ ex_resting_works] ex_resting_rests r ex_resting_works by auto
qed

end
