(* ===== verification/Weight.thy ===== *)
theory Weight
  imports OS_Prelude
begin

section \<open>The weight system calls (OS_HW2/kernel/hw2.c)\<close>

text \<open>
  The system calls added to the kernel, over a table of tasks. A task has the fields of
  \<open>struct task_struct\<close> that the calls use: \<open>pid\<close>, the new field \<open>weight\<close> (\<open>sched.h\<close>), \<open>real_parent\<close>
  and the list \<open>children\<close>. Following a pointer to a task that does not exist is undefined
  (\<^const>\<open>None\<close>). The search through the ancestors need not end; \<^const>\<open>None\<close> then means that it does
  not return. The wrappers of the user library (\<open>hw2_test.cxx\<close>) and the numbers of the calls
  (\<open>syscall_64.tbl\<close>) are modelled too.
\<close>

subsection \<open>State\<close>

type_synonym tid = nat

record task =
  pid :: int
  weight :: int
  real_parent :: tid
  children :: "tid list"

type_synonym tasks = "tid \<rightharpoonup> task"

definition EINVAL :: int where "EINVAL = 22"
definition ESRCH :: int where "ESRCH = 3"

text \<open>The first task, as the macro \<open>INIT_TASK\<close> of \<open>init_task.h\<close> makes it.\<close>

definition INIT_TASK :: "tid \<Rightarrow> task" where
  "INIT_TASK tsk = \<lparr>pid = 0, weight = 0, real_parent = tsk, children = []\<rparr>"

subsection \<open>The calls\<close>

text \<open>The result of \<open>sys_hello\<close>, and what it writes to the kernel log.\<close>

definition sys_hello :: "int \<times> string" where
  "sys_hello = (0, ''Hello, World!'' @ [CHR 0x0A])"

definition sys_set_weight :: "tasks \<Rightarrow> tid \<Rightarrow> int \<Rightarrow> (int \<times> tasks) option" where
  "sys_set_weight k current w =
     (if w < 0 then Some (- EINVAL, k)
      else do { k' \<leftarrow> upd k (Some current) (\<lambda>t. t\<lparr>weight := w\<rparr>); Some (0, k') })"

definition sys_get_weight :: "tasks \<Rightarrow> tid \<Rightarrow> int option" where
  "sys_get_weight k current = do { t \<leftarrow> k current; Some (weight t) }"

text \<open>
  The loop \<open>while (current_ancestor->pid != 1)\<close>. \<open>a % b == 0\<close> of C and \<open>a mod b = 0\<close> agree for every
  \<open>b\<close> other than 0.
\<close>

partial_function (option) ancestor_loop ::
  "tasks \<Rightarrow> int \<Rightarrow> tid \<Rightarrow> int \<Rightarrow> int \<Rightarrow> int option" where
  "ancestor_loop k cur_weight anc min_weight min_pid =
     do { t \<leftarrow> k anc;
          if pid t = 1 then Some min_pid
          else do {
            p \<leftarrow> k (real_parent t);
            if weight p = 0 then ancestor_loop k cur_weight (real_parent t) min_weight min_pid
            else if cur_weight mod weight p = 0 \<and> weight p < min_weight
              then ancestor_loop k cur_weight (real_parent t) (weight p) (pid p)
            else ancestor_loop k cur_weight (real_parent t) min_weight min_pid
          } }"

definition sys_get_lightest_divisor_ancestor :: "tasks \<Rightarrow> tid \<Rightarrow> int option" where
  "sys_get_lightest_divisor_ancestor k current =
     do { t \<leftarrow> k current;
          if pid t = 1 then Some (pid t)
          else if weight t = 0 then Some (pid t)
          else ancestor_loop k (weight t) current (weight t) (pid t) }"

text \<open>\<open>list_for_each\<close> over the children: the sum, in a \<open>long\<close>, and the number of entries.\<close>

fun siblings_loop :: "tasks \<Rightarrow> tid list \<Rightarrow> int \<Rightarrow> int \<Rightarrow> (int \<times> int) option" where
  "siblings_loop k [] s n = Some (s, n)"
| "siblings_loop k (c # cs) s n =
     do { t \<leftarrow> k c; siblings_loop k cs (to_signed 64 (s + weight t)) (to_signed 32 (n + 1)) }"

definition sys_get_siblings_sum :: "tasks \<Rightarrow> tid \<Rightarrow> int option" where
  "sys_get_siblings_sum k current =
     do { t \<leftarrow> k current;
          if pid t = 0 \<or> pid t = 1 then Some (- ESRCH)
          else do {
            faza \<leftarrow> k (real_parent t);
            (s, num_of_sibs) \<leftarrow> siblings_loop k (children faza) 0 0;
            if num_of_sibs = 1 then Some (- ESRCH)
            else Some (to_signed 64 (s - weight t))
          } }"

subsection \<open>From user space\<close>

text \<open>The entries that \<open>syscall_64.tbl\<close> adds. Other numbers are not modelled.\<close>

definition do_syscall :: "tasks \<Rightarrow> tid \<Rightarrow> nat \<Rightarrow> int \<Rightarrow> (int \<times> tasks) option" where
  "do_syscall k current nr arg =
     (if nr = 333 then Some (fst sys_hello, k)
      else if nr = 334 then sys_set_weight k current (to_signed 32 arg)
      else if nr = 335 then do { r \<leftarrow> sys_get_weight k current; Some (r, k) }
      else if nr = 336 then do { r \<leftarrow> sys_get_siblings_sum k current; Some (r, k) }
      else if nr = 337 then do { r \<leftarrow> sys_get_lightest_divisor_ancestor k current; Some (r, k) }
      else None)"

text \<open>\<open>syscall(2)\<close> of the C library: an error becomes -1 and \<open>errno\<close>.\<close>

definition syscall_ret :: "int \<Rightarrow> int \<times> int option" where
  "syscall_ret r = (if - 4095 \<le> r \<and> r < 0 then (- 1, Some (- r)) else (r, None))"

text \<open>The wrappers: the result is converted to \<open>int\<close>; the second component is \<open>errno\<close> when set.\<close>

definition wrapper :: "nat \<Rightarrow> tasks \<Rightarrow> tid \<Rightarrow> int \<Rightarrow> (int \<times> int option \<times> tasks) option" where
  "wrapper nr k current arg =
     do { (r, k') \<leftarrow> do_syscall k current nr arg;
          let (v, e) = syscall_ret r in Some (to_signed 32 v, e, k') }"

definition set_weight :: "tasks \<Rightarrow> tid \<Rightarrow> int \<Rightarrow> (int \<times> int option \<times> tasks) option" where
  "set_weight k current w = wrapper 334 k current w"

definition get_weight :: "tasks \<Rightarrow> tid \<Rightarrow> (int \<times> int option \<times> tasks) option" where
  "get_weight k current = wrapper 335 k current 0"

definition get_siblings_sum :: "tasks \<Rightarrow> tid \<Rightarrow> (int \<times> int option \<times> tasks) option" where
  "get_siblings_sum k current = wrapper 336 k current 0"

definition get_lightest_divisor_ancestor :: "tasks \<Rightarrow> tid \<Rightarrow> (int \<times> int option \<times> tasks) option" where
  "get_lightest_divisor_ancestor k current = wrapper 337 k current 0"

text \<open>
  The test program \<open>test1.cxx\<close>: what it prints. A failing assertion ends it.
\<close>

definition test1_main :: "tasks \<Rightarrow> tid \<Rightarrow> (string \<times> tasks) run option" where
  "test1_main k current =
     do { (x, e, k1) \<leftarrow> get_weight k current;
          let out1 = ''weight: '' @ fmt_d x @ [CHR 0x0A] in
          if x \<noteq> 0 then Some Exited
          else do {
            (y, e, k2) \<leftarrow> set_weight k1 current 5;
            let out2 = out1 @ ''set_weight returns: '' @ fmt_d y @ [CHR 0x0A] in
            if y \<noteq> 0 then Some Exited
            else do {
              (z, e, k3) \<leftarrow> get_weight k2 current;
              let out3 = out2 @ ''new weight: '' @ fmt_d z @ [CHR 0x0A] in
              if z \<noteq> 5 then Some Exited
              else Some (Done (out3 @ ''===== SUCCESS ====='' @ [CHR 0x0A], k3)) } } }"

subsection \<open>Ancestors\<close>

text \<open>
  \<open>lineage k ts\<close>: each task of \<open>ts\<close> is the parent of the one before it, and the last one, and only
  the last one, is \<open>init\<close>.
\<close>

fun lineage :: "tasks \<Rightarrow> tid \<Rightarrow> task list \<Rightarrow> bool" where
  "lineage k a [] = False"
| "lineage k a [t] = (k a = Some t \<and> pid t = 1)"
| "lineage k a (t # u # ts) = (k a = Some t \<and> pid t \<noteq> 1 \<and> lineage k (real_parent t) (u # ts))"

text \<open>A task whose weight is not 0 and divides \<open>w\<close>.\<close>

definition divisor :: "int \<Rightarrow> task \<Rightarrow> bool" where
  "divisor w t \<longleftrightarrow> weight t \<noteq> 0 \<and> weight t dvd w"

text \<open>The position, in a lineage, of the first divisor of least weight.\<close>

definition lightest_at :: "int \<Rightarrow> task list \<Rightarrow> nat \<Rightarrow> bool" where
  "lightest_at w ts i \<longleftrightarrow> i < length ts \<and> divisor w (ts ! i)
     \<and> (\<forall>j < length ts. divisor w (ts ! j) \<longrightarrow> weight (ts ! i) \<le> weight (ts ! j))
     \<and> (\<forall>j < i. divisor w (ts ! j) \<longrightarrow> weight (ts ! i) < weight (ts ! j))"

fun scan :: "int \<Rightarrow> task list \<Rightarrow> task \<Rightarrow> task" where
  "scan w [] b = b"
| "scan w (t # ts) b = scan w ts (if divisor w t \<and> weight t < weight b then t else b)"

lemma lineage_head: "lineage k a (t # ts) \<Longrightarrow> k a = Some t"
  by (cases ts) auto

lemma ancestor_loop_scan:
  assumes "lineage k a (t # ts)"
  shows "ancestor_loop k w a (weight b) (pid b) = Some (pid (scan w ts b))"
  using assms
proof (induction ts arbitrary: a t b)
  case Nil
  then show ?case by (subst ancestor_loop.simps) simp
next
  case (Cons u ts)
  have l: "k a = Some t" "pid t \<noteq> 1" "lineage k (real_parent t) (u # ts)" using Cons.prems by auto
  have "k (real_parent t) = Some u" using l(3) by (rule lineage_head)
  then show ?case using l(1,2) Cons.IH [OF l(3)]
    by (subst ancestor_loop.simps) (auto simp: divisor_def dvd_eq_mod_eq_0)
qed

lemma lightest_at_snoc:
  "lightest_at w ts i \<Longrightarrow>
   lightest_at w (ts @ [t]) (if divisor w t \<and> weight t < weight (ts ! i) then length ts else i)"
  by (auto simp: lightest_at_def nth_append less_Suc_eq)

lemma scan_lightest:
  assumes "lightest_at w us i"
  shows "\<exists>j. lightest_at w (us @ ts) j \<and> scan w ts (us ! i) = (us @ ts) ! j"
  using assms
proof (induction ts arbitrary: us i)
  case Nil
  then show ?case by auto
next
  case (Cons t ts)
  let ?i = "if divisor w t \<and> weight t < weight (us ! i) then length us else i"
  have "(us @ [t]) ! ?i = (if divisor w t \<and> weight t < weight (us ! i) then t else us ! i)"
    using Cons.prems by (auto simp: lightest_at_def nth_append)
  then show ?case using Cons.IH [OF lightest_at_snoc [OF Cons.prems, of t]] by auto
qed

lemma ancestor_loop_lineage:
  assumes "ancestor_loop k w a mw mp = Some r" shows "\<exists>ts. lineage k a ts"
proof (rule ancestor_loop.raw_induct [where P = "\<lambda>k w a mw mp r. \<exists>ts. lineage k a ts", OF _ assms])
  fix loop k w a mw mp r
  assume IH: "\<And>k w a mw mp r. loop k w a mw mp = Some r \<Longrightarrow> \<exists>ts. lineage k a ts"
    and eq: "do { t \<leftarrow> k a;
          if pid t = 1 then Some mp
          else do {
            p \<leftarrow> k (real_parent t);
            if weight p = 0 then loop k w (real_parent t) mw mp
            else if w mod weight p = 0 \<and> weight p < mw then loop k w (real_parent t) (weight p) (pid p)
            else loop k w (real_parent t) mw mp
          } } = Some r"
  from eq obtain t where t: "k a = Some t" by (auto simp: Option.bind_eq_Some_conv)
  show "\<exists>ts. lineage k a ts"
  proof (cases "pid t = 1")
    case True
    then have "lineage k a [t]" using t by simp
    then show ?thesis ..
  next
    case False
    with eq t obtain mw' mp' where "loop k w (real_parent t) mw' mp' = Some r"
      by (auto simp: Option.bind_eq_Some_conv split: if_splits)
    from IH [OF this] obtain ts where "lineage k (real_parent t) ts" ..
    then have "lineage k a (t # ts)" using t False by (cases ts) auto
    then show ?thesis ..
  qed
qed


subsection \<open>Siblings\<close>

definition weights_ok :: "tasks \<Rightarrow> bool" where
  "weights_ok k \<longleftrightarrow> (\<forall>t\<in>ran k. 0 \<le> weight t \<and> weight t \<le> INT_MAX)"

definition weight_of :: "tasks \<Rightarrow> tid \<Rightarrow> int" where
  "weight_of k a = (case k a of None \<Rightarrow> 0 | Some t \<Rightarrow> weight t)"

lemma weights_okD: "weights_ok k \<Longrightarrow> k a = Some t \<Longrightarrow> 0 \<le> weight t \<and> weight t \<le> INT_MAX"
  by (auto simp: weights_ok_def ran_def)

lemma weight_of_bounds: "weights_ok k \<Longrightarrow> 0 \<le> weight_of k a \<and> weight_of k a \<le> INT_MAX"
  by (auto simp: weight_of_def INT_MAX_def split: option.split dest: weights_okD)

lemma sum_weight_bounds:
  "weights_ok k \<Longrightarrow> 0 \<le> sum_list (map (weight_of k) cs) \<and>
     sum_list (map (weight_of k) cs) \<le> int (length cs) * INT_MAX"
proof (induction cs)
  case (Cons c cs)
  then show ?case using weight_of_bounds [OF Cons.prems, of c] by (simp add: algebra_simps)
qed simp

lemma siblings_loop_sum:
  assumes "weights_ok k" "set cs \<subseteq> dom k" "0 \<le> s" "0 \<le> n" "n + int (length cs) \<le> INT_MAX"
    "s + int (length cs) * INT_MAX < 2 ^ 63"
  shows "siblings_loop k cs s n = Some (s + sum_list (map (weight_of k) cs), n + int (length cs))"
  using assms
proof (induction cs arbitrary: s n)
  case (Cons c cs)
  obtain t where t: "k c = Some t" using Cons.prems(2) by auto
  have w: "0 \<le> weight t" "weight t \<le> INT_MAX" using weights_okD [OF Cons.prems(1) t] by auto
  have bound: "s + weight t + int (length cs) * INT_MAX < 2 ^ 63"
    using Cons.prems(6) w by (simp add: algebra_simps)
  moreover have "0 \<le> int (length cs) * INT_MAX" by (simp add: INT_MAX_def)
  ultimately have "s + weight t < 2 ^ 63" by linarith
  then have a: "to_signed 64 (s + weight t) = s + weight t"
    using w Cons.prems(3) by (intro to_signed_id) simp_all
  have b: "to_signed 32 (n + 1) = n + 1"
    using Cons.prems(4,5) by (intro to_signed_id) (simp_all add: INT_MAX_def)
  have "siblings_loop k cs (s + weight t) (n + 1)
      = Some (s + weight t + sum_list (map (weight_of k) cs), n + 1 + int (length cs))"
    using Cons.prems w bound by (intro Cons.IH) simp_all
  moreover have "weight_of k c = weight t" using t by (simp add: weight_of_def)
  ultimately show ?case using t a b by (simp add: add.assoc)
qed simp

text \<open>The search for a caller that is not \<open>init\<close> and whose weight is not 0.\<close>

lemma lightest_general:
  assumes "k current = Some t" "pid t \<noteq> 1" "weight t \<noteq> 0"
  shows "(\<forall>r. sys_get_lightest_divisor_ancestor k current = Some r \<longrightarrow>
      (\<exists>ts. lineage k current (t # ts)))
    \<and> (\<forall>ts. lineage k current (t # ts) \<longrightarrow>
      (\<exists>i. lightest_at (weight t) (t # ts) i
         \<and> sys_get_lightest_divisor_ancestor k current = Some (pid ((t # ts) ! i))))"
proof (intro conjI allI impI)
  have eq: "sys_get_lightest_divisor_ancestor k current
      = ancestor_loop k (weight t) current (weight t) (pid t)"
    using assms by (simp add: sys_get_lightest_divisor_ancestor_def)
  {
    fix r assume "sys_get_lightest_divisor_ancestor k current = Some r"
    then obtain us where us: "lineage k current us" using ancestor_loop_lineage eq by metis
    then obtain u ts where "us = u # ts" by (cases us) auto
    then show "\<exists>ts. lineage k current (t # ts)" using us lineage_head [of k current u ts] assms(1) by auto
  next
    fix ts assume l: "lineage k current (t # ts)"
    have "lightest_at (weight t) [t] 0" using assms(3) by (simp add: lightest_at_def divisor_def)
    from scan_lightest [OF this, of ts] show "\<exists>i. lightest_at (weight t) (t # ts) i
        \<and> sys_get_lightest_divisor_ancestor k current = Some (pid ((t # ts) ! i))"
      using ancestor_loop_scan [OF l, of "weight t" t] eq by auto
  }
qed

subsection \<open>Properties\<close>

text \<open>
  C20. The lightest divisor ancestor. The call returns if and only if the caller is \<open>init\<close>, has
  weight 0 (the weight of a new task), or descends from \<open>init\<close>. In the first two cases it returns the caller's own \<open>pid\<close>;
  otherwise the \<open>pid\<close> of a task of the lineage (the caller and its ancestors up to \<open>init\<close>) whose weight is not
  0, divides the caller's and is the least such weight, the nearest such task when there are several.
\<close>

theorem lightest_divisor_ancestor_correct:
  assumes "k current = Some t"
  shows "((\<exists>r. sys_get_lightest_divisor_ancestor k current = Some r) \<longleftrightarrow>
      pid t = 1 \<or> weight t = 0 \<or> (\<exists>ts. lineage k current (t # ts)))
    \<and> (pid t = 1 \<or> weight t = 0 \<longrightarrow> sys_get_lightest_divisor_ancestor k current = Some (pid t))
    \<and> (\<forall>ts. pid t \<noteq> 1 \<and> weight t \<noteq> 0 \<and> lineage k current (t # ts) \<longrightarrow>
      (\<exists>i. lightest_at (weight t) (t # ts) i
         \<and> sys_get_lightest_divisor_ancestor k current = Some (pid ((t # ts) ! i))))"
proof (cases "pid t = 1 \<or> weight t = 0")
  case True
  then have "sys_get_lightest_divisor_ancestor k current = Some (pid t)"
    using assms by (auto simp: sys_get_lightest_divisor_ancestor_def)
  then show ?thesis using True by blast
next
  case False
  then show ?thesis using lightest_general [of k current t] assms by blast
qed

text \<open>
  C21. The siblings' sum. For a caller other than \<open>idle\<close> and \<open>init\<close> that is listed once among its
  parent's children, the call returns the sum of the weights of the other children, or \<open>-ESRCH\<close> if
  there is none. Weights are non-negative \<open>int\<close>s, so the \<open>long\<close> sum does not overflow.
\<close>

theorem siblings_sum_correct:
  assumes "k current = Some t" "pid t \<noteq> 0" "pid t \<noteq> 1" "k (real_parent t) = Some f"
    "children f = as @ current # bs" "set (children f) \<subseteq> dom k" "weights_ok k"
    "int (length (children f)) \<le> INT_MAX"
  shows "sys_get_siblings_sum k current =
    Some (if as @ bs = [] then - ESRCH else sum_list (map (weight_of k) (as @ bs)))"
proof -
  let ?S = "sum_list (map (weight_of k) (as @ bs))"
  have "int (length (children f)) * INT_MAX \<le> INT_MAX * INT_MAX"
    using assms(8) by (intro mult_right_mono) (simp_all add: INT_MAX_def)
  also have "\<dots> < 2 ^ 63" by (simp add: INT_MAX_def)
  finally have small: "int (length (children f)) * INT_MAX < 2 ^ 63" .
  have loop: "siblings_loop k (children f) 0 0
      = Some (sum_list (map (weight_of k) (children f)), int (length (children f)))"
    using siblings_loop_sum [OF assms(7,6), of 0 0] assms(8) small by simp
  have s: "sum_list (map (weight_of k) (children f)) - weight t = ?S"
    using assms(1,5) by (simp add: weight_of_def)
  have "0 \<le> ?S" "?S \<le> int (length (as @ bs)) * INT_MAX" using sum_weight_bounds [OF assms(7)] by blast+
  moreover have "int (length (as @ bs)) * INT_MAX \<le> int (length (children f)) * INT_MAX"
    using assms(5) by (simp add: INT_MAX_def)
  ultimately have "to_signed 64 ?S = ?S" using small by (intro to_signed_id) simp_all
  moreover have "int (length (children f)) = 1 \<longleftrightarrow> as @ bs = []"
    using assms(5) by (cases as; cases bs) auto
  ultimately show ?thesis using assms(1-4) loop s by (simp add: sys_get_siblings_sum_def)
qed

text \<open>
  C22. Setting and getting the weight from user space. \<open>set_weight\<close> with a negative value returns -1
  with \<open>errno\<close> EINVAL and changes nothing; with another \<open>int\<close> it returns 0, \<open>get_weight\<close> of the
  same task then returns the value, every other task keeps its weight, and weights stay
  non-negative \<open>int\<close>s.
\<close>

theorem set_get_weight:
  assumes "in_int w" "k current = Some t" "weights_ok k"
  shows "\<exists>k'. set_weight k current w = Some (if w < 0 then (- 1, Some EINVAL, k) else (0, None, k'))
    \<and> (0 \<le> w \<longrightarrow> get_weight k' current = Some (w, None, k') \<and> weights_ok k'
         \<and> (\<forall>a. a \<noteq> current \<longrightarrow> k' a = k a))"
proof -
  have w: "to_signed 32 w = w" using assms(1) by (intro to_signed_id) (simp_all add: in_int_def INT_MAX_def)
  have m: "to_signed 32 (- 1) = - 1" "to_signed 32 0 = 0" by (simp_all add: to_signed_def)
  let ?k = "k(current \<mapsto> t\<lparr>weight := w\<rparr>)"
  have "weights_ok ?k" if "0 \<le> w"
    using assms(1,3) that by (auto simp: weights_ok_def ran_def in_int_def split: if_splits)
  then show ?thesis using assms(2) w m
    by (intro exI [of _ ?k]) (auto simp: set_weight_def get_weight_def wrapper_def do_syscall_def
        sys_set_weight_def sys_get_weight_def syscall_ret_def EINVAL_def)
qed

text \<open>The test program succeeds for a task of weight 0, such as the first one, and leaves it with weight 5.\<close>

lemma test1_succeeds:
  assumes "k current = Some t" "weight t = 0"
  shows "\<exists>out. test1_main k current = Some (Done (out, k(current \<mapsto> t\<lparr>weight := 5\<rparr>)))"
  using assms by (simp add: test1_main_def set_weight_def get_weight_def wrapper_def do_syscall_def
      sys_set_weight_def sys_get_weight_def syscall_ret_def to_signed_def)

lemma test1_init: "\<exists>out k'. test1_main [tsk \<mapsto> INIT_TASK tsk] tsk = Some (Done (out, k'))"
  using test1_succeeds [of "[tsk \<mapsto> INIT_TASK tsk]" tsk] by (auto simp: INIT_TASK_def)

text \<open>
  The wrapper of the siblings' sum converts the \<open>long\<close> to an \<open>int\<close>: a sum from \<open>2 ^ 31\<close> on, which two siblings can
  reach, comes out wrong.
\<close>

lemma get_siblings_sum_truncates:
  assumes "sys_get_siblings_sum k current = Some S" "0 \<le> S"
  shows "get_siblings_sum k current = Some (to_signed 32 S, None, k)" "S < 2 ^ 31 \<Longrightarrow> to_signed 32 S = S"
  using assms by (auto simp: get_siblings_sum_def wrapper_def do_syscall_def syscall_ret_def intro: to_signed_id)

definition ex_tasks :: tasks where
  "ex_tasks = [10 \<mapsto> \<lparr>pid = 1, weight = 3, real_parent = 0, children = [20]\<rparr>,
     20 \<mapsto> \<lparr>pid = 7, weight = 4, real_parent = 10, children = [30, 31, 32]\<rparr>,
     30 \<mapsto> \<lparr>pid = 8, weight = 6, real_parent = 20, children = []\<rparr>,
     31 \<mapsto> \<lparr>pid = 9, weight = 12, real_parent = 20, children = []\<rparr>,
     32 \<mapsto> \<lparr>pid = 10, weight = 5, real_parent = 20, children = []\<rparr>]"

lemma ex_tasks_ok: "weights_ok ex_tasks"
  by (auto simp: weights_ok_def ex_tasks_def ran_def INT_MAX_def split: if_splits)

theorem lightest_divisor_ancestor_correct_witness:
  "sys_get_lightest_divisor_ancestor ex_tasks 31 = Some 1"
proof -
  let ?t = "\<lparr>pid = 9, weight = 12, real_parent = 20, children = []\<rparr>"
  let ?u = "\<lparr>pid = 7, weight = 4, real_parent = 10, children = [30, 31, 32]\<rparr>"
  let ?v = "\<lparr>pid = 1, weight = 3, real_parent = 0, children = [20]\<rparr>"
  have "lineage ex_tasks 31 [?t, ?u, ?v]" by (simp add: ex_tasks_def)
  moreover have "ex_tasks 31 = Some ?t" by (simp add: ex_tasks_def)
  ultimately have "\<exists>i. lightest_at (weight ?t) [?t, ?u, ?v] i
      \<and> sys_get_lightest_divisor_ancestor ex_tasks 31 = Some (pid ([?t, ?u, ?v] ! i))"
    using lightest_divisor_ancestor_correct [of ex_tasks 31 ?t, THEN conjunct2, THEN conjunct2, THEN spec, of "[?u, ?v]"]
    by simp
  then obtain i where i: "lightest_at 12 [?t, ?u, ?v] i"
    "sys_get_lightest_divisor_ancestor ex_tasks 31 = Some (pid ([?t, ?u, ?v] ! i))" by auto
  have "weight ([?t, ?u, ?v] ! i) \<le> weight ([?t, ?u, ?v] ! 2)" "i < 3"
    using i(1) by (auto simp: lightest_at_def divisor_def)
  then have "i = 2" by (auto simp: less_Suc_eq numeral_3_eq_3)
  then show ?thesis using i(2) by simp
qed

theorem siblings_sum_correct_witness:
  "sys_get_siblings_sum ex_tasks 31 = Some 11"
  using siblings_sum_correct [of ex_tasks 31 _ _ "[30]" "[32]"] ex_tasks_ok
  by (simp add: ex_tasks_def weight_of_def INT_MAX_def)

theorem set_get_weight_witness:
  "\<exists>k'. set_weight ex_tasks 31 5 = Some (0, None, k') \<and> get_weight k' 31 = Some (5, None, k')"
  using set_get_weight [of 5 ex_tasks 31, OF _ _ ex_tasks_ok] by (auto simp: ex_tasks_def in_int_def INT_MAX_def)

end
