(* ===== verification/Allocator.thy ===== *)
theory Allocator
  imports OS_Prelude
begin

section \<open>What the allocators promise\<close>

text \<open>
  The contract that \<open>malloc_2\<close> and \<open>malloc_3\<close> share. \<open>holds s A\<close>: the state \<open>s\<close> of the program implements
  the abstract heap \<open>A\<close>; \<open>live A\<close> maps the pointers handed out and not yet freed to the bytes they may
  be used for. \<open>env A k n\<close>: the kernel's answers \<open>k\<close> (of \<open>sbrk\<close> and \<open>mmap\<close>) are possible ones for a
  request \<open>n\<close>; \<open>freeable A p\<close>: the pointer may be freed in \<open>A\<close>.
\<close>

locale allocator =
  fixes holds :: "'s \<Rightarrow> 'a \<Rightarrow> bool"
    and live :: "'a \<Rightarrow> addr \<rightharpoonup> nat"
    and alloc :: "'k \<Rightarrow> 's \<Rightarrow> 'n \<Rightarrow> (addr option \<times> 's) option"
    and release :: "'s \<Rightarrow> addr option \<Rightarrow> 's option"
    and env :: "'a \<Rightarrow> 'k \<Rightarrow> 'n \<Rightarrow> bool"
    and asked :: "'n \<Rightarrow> nat"
    and freeable :: "'a \<Rightarrow> addr \<Rightarrow> bool"
  assumes alloc_live: "holds s A \<Longrightarrow> env A k n \<Longrightarrow>
      \<exists>r s' A'. alloc k s n = Some (r, s') \<and> holds s' A'
        \<and> (case r of
             None \<Rightarrow> live A' = live A
           | Some p \<Rightarrow> \<exists>c \<ge> asked n. live A p = None \<and> live A' = (live A)(p \<mapsto> c))"
    and release_live: "holds s A \<Longrightarrow> live A p = Some c \<Longrightarrow> freeable A p \<Longrightarrow>
      \<exists>s' A'. release s (Some p) = Some s' \<and> holds s' A' \<and> live A' = (live A)(p := None)"
    and release_null: "release s None = Some s"
    and live_apart: "holds s A \<Longrightarrow> live A p = Some c \<Longrightarrow> live A q = Some d \<Longrightarrow> p \<noteq> q \<Longrightarrow>
      p + c \<le> q \<or> q + d \<le> p"
begin

text \<open>A new block has the bytes asked for and shares none of them with a block in use.\<close>

lemma alloc_apart:
  assumes "holds s A" "env A k n" "alloc k s n = Some (Some p, s')" "live A q = Some d"
  shows "p + asked n \<le> q \<or> q + d \<le> p"
proof -
  obtain A' c where a: "holds s' A'" "asked n \<le> c" "live A p = None" "live A' = (live A)(p \<mapsto> c)"
    using alloc_live [OF assms(1,2)] assms(3) by fastforce
  then have "live A' p = Some c" "live A' q = Some d" "p \<noteq> q" using assms(4) by auto
  from live_apart [OF a(1) this] show ?thesis using a(2) by linarith
qed

text \<open>Allocating and freeing the block at once leaves the blocks in use as they were.\<close>

lemma alloc_release:
  assumes "holds s A" "env A k n" "alloc k s n = Some (Some p, s')"
    "\<And>A'. holds s' A' \<Longrightarrow> freeable A' p"
  shows "\<exists>s'' A''. release s' (Some p) = Some s'' \<and> holds s'' A'' \<and> live A'' = live A"
proof -
  obtain A' c where a: "holds s' A'" "live A p = None" "live A' = (live A)(p \<mapsto> c)"
    using alloc_live [OF assms(1,2)] assms(3) by fastforce
  then have "live A' p = Some c" by simp
  from release_live [OF a(1) this assms(4) [OF a(1)]]
  obtain s'' A'' where "release s' (Some p) = Some s''" "holds s'' A''" "live A'' = (live A')(p := None)"
    by blast
  moreover have "(live A')(p := None) = live A" using a by auto
  ultimately show ?thesis by metis
qed

end

end
