(* ===== verification/Malloc2.thy ===== *)
theory Malloc2
  imports Allocator "HOL-Library.Word"
begin

section \<open>The simple allocators (OS_HW4/malloc_1.cpp and malloc_2.cpp)\<close>

text \<open>
  \<open>malloc_1\<close> only moves the program break. \<open>malloc_2\<close> keeps a list of blocks, each preceded by its
  metadata, reuses the first free block that is large enough and never splits or joins blocks. The
  metadata are cells of a heap, followed pointer by pointer; the user's bytes are a separate map. A
  \<open>size_t\<close> is a word of 64 bits, so products and counters wrap around as in the program.

  The program break is part of the state, and \<open>sbrk\<close> moves it by the amount that the code asks for. What
  the allocators do not decide is an argument of the operations: \<^const>\<open>None\<close> when \<open>sbrk\<close> fails,
  \<open>Some g\<close> when it succeeds after other code of the process has raised the break by \<open>g\<close> bytes.

  An operation that returns no result is undefined (or does not return, for the loops along the
  list). \<open>memcpy\<close> is undefined when its regions overlap; reading beyond the old block in \<open>srealloc\<close>
  is taken to succeed.
\<close>

type_synonym size_t = "64 word"

definition MAX_SIZE :: size_t where "MAX_SIZE = 100000000"

text \<open>
  \<open>sbrk\<close> of an amount that C reads as a signed number: the old break, or failure, and the new break.
\<close>

definition sbrk :: "nat option \<Rightarrow> size_t \<Rightarrow> addr \<Rightarrow> addr option \<times> addr" where
  "sbrk k increment brk =
     (case k of
        None \<Rightarrow> (None, brk)
      | Some g \<Rightarrow> (Some (brk + g), nat (int (brk + g) + sint increment)))"

subsection \<open>malloc_1\<close>

definition smalloc1 :: "nat option \<Rightarrow> size_t \<Rightarrow> addr \<Rightarrow> addr option \<times> addr" where
  "smalloc1 k n brk =
     (if n = 0 then (None, brk)
      else if n > MAX_SIZE then (None, brk)
      else sbrk k n brk)"

subsection \<open>State of malloc_2\<close>

record MallocMetadata =
  size :: size_t
  is_free :: bool
  next_md :: "addr option"
  prev_md :: "addr option"

record arena =
  mds :: "addr \<rightharpoonup> MallocMetadata"
  bytes :: "addr \<Rightarrow> char"
  globalPointersList :: "addr option"
  num_of_free_blocks :: size_t
  num_of_free_bytes :: size_t
  num_of_allocated_blocks :: size_t
  num_of_allocated_bytes :: size_t
  num_of_meta_data_bytes :: size_t
  prog_break :: addr


text \<open>\<open>sizeof(MallocMetadata)\<close>.\<close>

definition SZ :: nat where "SZ = 32"







subsection \<open>Bytes\<close>


subsection \<open>Operations of malloc_2\<close>

text \<open>The first loop: a free block of at least \<open>n\<close> bytes.\<close>

partial_function (option) fit_loop ::
  "(addr \<rightharpoonup> MallocMetadata) \<Rightarrow> addr option \<Rightarrow> size_t \<Rightarrow> addr option option" where
  "fit_loop h tempptr n =
     (case tempptr of
        None \<Rightarrow> Some None
      | Some a \<Rightarrow>
          do { m \<leftarrow> h a;
               if size m \<ge> n \<and> is_free m then Some (Some a) else fit_loop h (next_md m) n })"

text \<open>The second loop: the last block of the list.\<close>

partial_function (option) last_loop :: "(addr \<rightharpoonup> MallocMetadata) \<Rightarrow> addr \<Rightarrow> addr option" where
  "last_loop h a =
     do { m \<leftarrow> h a; case next_md m of None \<Rightarrow> Some a | Some b \<Rightarrow> last_loop h b }"

text \<open>Taking a free block, and appending a new one at \<open>a\<close>.\<close>

definition claim :: "arena \<Rightarrow> addr \<Rightarrow> arena option" where
  "claim st a =
     do { m \<leftarrow> mds st a;
          Some (st\<lparr>num_of_free_blocks := num_of_free_blocks st - 1,
                   num_of_free_bytes := num_of_free_bytes st - size m,
                   mds := (mds st)(a \<mapsto> m\<lparr>is_free := False\<rparr>)\<rparr>) }"

definition append_block :: "arena \<Rightarrow> addr \<Rightarrow> size_t \<Rightarrow> arena option" where
  "append_block st a n =
     (let st1 = st\<lparr>num_of_meta_data_bytes := num_of_meta_data_bytes st + of_nat SZ,
                   num_of_allocated_bytes := num_of_allocated_bytes st + n,
                   num_of_allocated_blocks := num_of_allocated_blocks st + 1\<rparr> in
      case globalPointersList st of
        None \<Rightarrow>
          Some (st1\<lparr>globalPointersList := Some a,
                    mds := (mds st)(a \<mapsto> \<lparr>size = n, is_free = False, next_md = None, prev_md = None\<rparr>)\<rparr>)
      | Some g \<Rightarrow>
          do { t \<leftarrow> last_loop (mds st) g;
               let h = (mds st)(a \<mapsto> \<lparr>size = n, is_free = False, next_md = None, prev_md = Some t\<rparr>) in
               do { h' \<leftarrow> upd h (Some t) (\<lambda>m. m\<lparr>next_md := Some a\<rparr>); Some (st1\<lparr>mds := h'\<rparr>) } })"

text \<open>
  What the three allocating functions share: the block found or appended (its metadata's address)
  and whether it was a reused one, or no block.
\<close>

definition get_block :: "arena \<Rightarrow> nat option \<Rightarrow> size_t \<Rightarrow> (addr option \<times> arena) option" where
  "get_block st k n =
     do { f \<leftarrow> fit_loop (mds st) (globalPointersList st) n;
          case f of
            Some a \<Rightarrow> do { st' \<leftarrow> claim st a; Some (Some a, st') }
          | None \<Rightarrow>
              (case sbrk k (n + of_nat SZ) (prog_break st) of
                 (None, brk) \<Rightarrow> Some (None, st)
               | (Some a, brk) \<Rightarrow>
                   do { st' \<leftarrow> append_block (st\<lparr>prog_break := brk\<rparr>) a n; Some (Some a, st') }) }"

definition smalloc :: "arena \<Rightarrow> nat option \<Rightarrow> size_t \<Rightarrow> (addr option \<times> arena) option" where
  "smalloc st k n =
     (if n = 0 then Some (None, st)
      else if n > MAX_SIZE then Some (None, st)
      else do { (b, st') \<leftarrow> get_block st k n; Some (map_option (\<lambda>a. a + SZ) b, st') })"

definition scalloc :: "arena \<Rightarrow> nat option \<Rightarrow> size_t \<Rightarrow> size_t \<Rightarrow> (addr option \<times> arena) option" where
  "scalloc st k num n =
     (if n = 0 \<or> num = 0 then Some (None, st)
      else if n * num > MAX_SIZE then Some (None, st)
      else do { (b, st') \<leftarrow> get_block st k (n * num);
                case b of
                  None \<Rightarrow> Some (None, st')
                | Some a \<Rightarrow>
                    Some (Some (a + SZ), st'\<lparr>bytes := memset (bytes st') (a + SZ) NUL (unat (n * num))\<rparr>) })"

definition sfree :: "arena \<Rightarrow> addr option \<Rightarrow> arena option" where
  "sfree st p =
     (case p of
        None \<Rightarrow> Some st
      | Some q \<Rightarrow>
          do { m \<leftarrow> mds st (q - SZ);
               if is_free m then Some st
               else Some (st\<lparr>mds := (mds st)(q - SZ \<mapsto> m\<lparr>is_free := True\<rparr>),
                             num_of_free_blocks := num_of_free_blocks st + 1,
                             num_of_free_bytes := num_of_free_bytes st + size m\<rparr>) })"


subsection \<open>The list of blocks\<close>

text \<open>A block as the specification sees it: the address of its metadata, its size, whether it is free.\<close>

type_synonym blk = "addr \<times> size_t \<times> bool"

abbreviation blk_addrs :: "blk list \<Rightarrow> addr list" where
  "blk_addrs bs \<equiv> map fst bs"

fun seg :: "(addr \<rightharpoonup> MallocMetadata) \<Rightarrow> addr option \<Rightarrow> blk list \<Rightarrow> addr option \<Rightarrow> bool" where
  "seg h p [] q \<longleftrightarrow> p = q"
| "seg h p ((a, s, f) # bs) q \<longleftrightarrow>
     p = Some a \<and> (\<exists>m. h a = Some m \<and> size m = s \<and> is_free m = f \<and> seg h (next_md m) bs q)"

definition free_blks :: "blk list \<Rightarrow> blk list" where
  "free_blks bs = filter (\<lambda>(a, s, f). f) bs"

definition sizes :: "blk list \<Rightarrow> size_t" where
  "sizes bs = sum_list (map (fst \<circ> snd) bs)"

text \<open>Blocks lie one after the other, each with its metadata and its bytes.\<close>

definition blk_end :: "blk \<Rightarrow> nat" where
  "blk_end b = fst b + SZ + unat (fst (snd b))"

definition disjoint_blks :: "blk list \<Rightarrow> bool" where
  "disjoint_blks bs \<longleftrightarrow> sorted_wrt (\<lambda>x y. blk_end x \<le> fst y) bs"

text \<open>Every block lies below the program break.\<close>

definition below :: "addr \<Rightarrow> blk list \<Rightarrow> bool" where
  "below brk bs \<longleftrightarrow> 0 < brk \<and> (\<forall>b\<in>set bs. 0 < fst b \<and> blk_end b \<le> brk)"

definition arena_inv :: "arena \<Rightarrow> blk list \<Rightarrow> bool" where
  "arena_inv st bs \<longleftrightarrow>
     seg (mds st) (globalPointersList st) bs None \<and> disjoint_blks bs \<and> dom (mds st) = set (blk_addrs bs)
     \<and> num_of_free_blocks st = of_nat (length (free_blks bs))
     \<and> num_of_free_bytes st = sizes (free_blks bs)
     \<and> num_of_allocated_blocks st = of_nat (length bs)
     \<and> num_of_allocated_bytes st = sizes bs
     \<and> num_of_meta_data_bytes st = of_nat SZ * of_nat (length bs)
     \<and> below (prog_break st) bs"

text \<open>First fit on the list.\<close>

fun fits :: "size_t \<Rightarrow> blk \<Rightarrow> bool" where
  "fits n (a, s, f) \<longleftrightarrow> n \<le> s \<and> f"

subsection \<open>Facts about the break and the list\<close>

lemma sint_request:
  assumes "n \<le> MAX_SIZE"
  shows "sint (n + of_nat SZ) = int (SZ + unat n)"
proof -
  have n: "unat n \<le> 100000000" using assms by (simp add: word_le_nat_alt MAX_SIZE_def)
  have "unat (n + of_nat SZ) = unat n + SZ"
    using n by (simp add: unat_word_ariths SZ_def)
  then have "uint (n + of_nat SZ) = int (SZ + unat n)" by (metis add.commute uint_nat)
  moreover have "signed_take_bit 63 (int (SZ + unat n)) = int (SZ + unat n)"
    using n by (intro signed_take_bit_int_eq_self) (simp_all add: SZ_def del: of_nat_unat)
  ultimately show ?thesis by (simp add: sint_uint del: of_nat_unat)
qed

lemma sbrk_request:
  assumes "n \<le> MAX_SIZE"
  shows "sbrk (Some g) (n + of_nat SZ) brk = (Some (brk + g), brk + g + SZ + unat n)"
  unfolding sbrk_def sint_request [OF assms] by (simp flip: of_nat_add del: of_nat_unat)

lemma sbrk_None [simp]: "sbrk None m brk = (None, brk)"
  by (simp add: sbrk_def)

lemma below_flag [simp]: "below brk (xs @ (a, s, False) # ys) \<longleftrightarrow> below brk (xs @ (a, s, True) # ys)"
  by (auto simp: below_def blk_end_def)

lemma below_mono: "below brk bs \<Longrightarrow> brk \<le> brk' \<Longrightarrow> below brk' bs"
  by (fastforce simp: below_def)

lemma below_snoc:
  "below brk (bs @ [(a, n, f)]) \<longleftrightarrow> below brk bs \<and> 0 < a \<and> a + SZ + unat n \<le> brk"
  by (auto simp: below_def blk_end_def)

lemma blk_seg_append [simp]: "seg h p (xs @ ys) q \<longleftrightarrow> (\<exists>r. seg h p xs r \<and> seg h r ys q)"
  by (induction h p xs q rule: seg.induct) auto

lemma blk_seg_frame [simp]: "a \<notin> set (blk_addrs bs) \<Longrightarrow> seg (h(a := v)) p bs q = seg h p bs q"
  by (induction h p bs q rule: seg.induct) auto

lemma seg_None: "seg h None bs None \<longleftrightarrow> bs = []"
  by (cases bs) auto

lemma disjoint_distinct: "disjoint_blks bs \<Longrightarrow> distinct (blk_addrs bs)"
proof (induction bs)
  case (Cons b bs)
  have "fst b \<noteq> fst c" if "c \<in> set bs" for c
  proof -
    have "blk_end b \<le> fst c" using Cons.prems that by (simp add: disjoint_blks_def)
    then show ?thesis by (simp add: blk_end_def SZ_def)
  qed
  then show ?case using Cons by (auto simp: disjoint_blks_def)
qed simp

lemma disjoint_flag:
  "disjoint_blks (xs @ (a, s, f) # ys) \<Longrightarrow> disjoint_blks (xs @ (a, s, f') # ys)"
  by (auto simp: disjoint_blks_def sorted_wrt_append blk_end_def)

lemma free_blks_append [simp]: "free_blks (xs @ ys) = free_blks xs @ free_blks ys"
  by (simp add: free_blks_def)

lemma free_blks_Cons [simp]: "free_blks ((a, s, f) # xs) = (if f then [(a, s, f)] else []) @ free_blks xs"
  "free_blks [] = []"
  by (simp_all add: free_blks_def)

lemma sizes_append [simp]: "sizes (xs @ ys) = sizes xs + sizes ys"
  by (simp add: sizes_def)

lemma sizes_Cons [simp]: "sizes ((a, s, f) # xs) = s + sizes xs" "sizes [] = 0"
  by (simp_all add: sizes_def)

lemma seg_set_free:
  assumes "seg h p (xs @ (a, s, f) # ys) q" "distinct (blk_addrs (xs @ (a, s, f) # ys))" "h a = Some m"
  shows "seg (h(a \<mapsto> m\<lparr>is_free := f'\<rparr>)) p (xs @ (a, s, f') # ys) q"
  using assms by auto

lemma arena_invD:
  assumes "arena_inv st bs"
  shows "seg (mds st) (globalPointersList st) bs None" "disjoint_blks bs" "distinct (blk_addrs bs)"
    "dom (mds st) = set (blk_addrs bs)"
  using assms disjoint_distinct by (auto simp: arena_inv_def)

lemma arena_inv_bytes [simp]: "arena_inv (st\<lparr>bytes := v\<rparr>) bs = arena_inv st bs"
  by (simp add: arena_inv_def)

lemma arena_inv_break: "arena_inv st bs \<Longrightarrow> prog_break st \<le> brk \<Longrightarrow> arena_inv (st\<lparr>prog_break := brk\<rparr>) bs"
  using below_mono by (auto simp: arena_inv_def)

lemma arena_inv_below: "arena_inv st bs \<Longrightarrow> below (prog_break st) bs"
  by (simp add: arena_inv_def)

lemma inv_cell:
  assumes "arena_inv st (xs @ (a, s, f) # ys)"
  shows "\<exists>m. mds st a = Some m \<and> size m = s \<and> is_free m = f"
  using arena_invD(1) [OF assms] by auto

subsection \<open>The loops\<close>

lemma fit_loop_seg:
  assumes "seg h p bs None"
  shows "fit_loop h p n = Some (map_option fst (find (fits n) bs))"
  using assms
proof (induction bs arbitrary: p)
  case Nil
  then show ?case by (simp add: fit_loop.simps)
next
  case (Cons b bs)
  obtain a s f where "b = (a, s, f)" by (cases b)
  then show ?case using Cons by (auto simp: fit_loop.simps [of h "Some a"])
qed

lemma last_loop_seg:
  assumes "seg h (Some a) bs None" "bs \<noteq> []"
  shows "last_loop h a = Some (fst (last bs))"
  using assms
proof (induction bs arbitrary: a)
  case (Cons b bs)
  obtain s f where b: "b = (a, s, f)" using Cons.prems by (cases b) auto
  then obtain m where m: "h a = Some m" "seg h (next_md m) bs None" using Cons.prems by auto
  show ?case
  proof (cases bs)
    case Nil
    then show ?thesis using m b by (simp add: last_loop.simps [of h a])
  next
    case (Cons c cs)
    then obtain d where "next_md m = Some d" using m(2) by (cases c) auto
    then show ?thesis using Cons.IH [of d] m Cons by (simp add: last_loop.simps [of h a])
  qed
qed simp

subsection \<open>Taking, adding and freeing a block\<close>

lemma claim_inv:
  assumes inv: "arena_inv st (xs @ (a, s, True) # ys)"
  shows "\<exists>st'. claim st a = Some st' \<and> arena_inv st' (xs @ (a, s, False) # ys)
    \<and> bytes st' = bytes st \<and> prog_break st' = prog_break st"
proof -
  note D = arena_invD [OF inv]
  obtain m where m: "mds st a = Some m" "size m = s" using inv_cell [OF inv] by auto
  have "disjoint_blks (xs @ (a, s, False) # ys)" using disjoint_flag [OF D(2)] .
  then show ?thesis
    using seg_set_free [OF D(1,3) m(1), of False] inv m
    by (auto simp: claim_def arena_inv_def simp del: blk_seg_append)
qed

lemma append_block_inv:
  assumes inv: "arena_inv st bs" and fresh: "below a bs" and brk: "a + SZ + unat n \<le> prog_break st"
  shows "\<exists>st'. append_block st a n = Some st' \<and> arena_inv st' (bs @ [(a, n, False)])
    \<and> bytes st' = bytes st \<and> prog_break st' = prog_break st"
proof -
  note D = arena_invD [OF inv]
  have a: "a \<notin> set (blk_addrs bs)" using fresh by (fastforce simp: below_def blk_end_def SZ_def)
  have be: "below (prog_break st) (bs @ [(a, n, False)])"
    using arena_inv_below [OF inv] fresh brk by (simp add: below_snoc) (simp add: below_def)
  have dj: "disjoint_blks (bs @ [(a, n, False)])"
    using D(2) fresh by (simp add: disjoint_blks_def sorted_wrt_append below_def)
  show ?thesis
  proof (cases bs rule: rev_cases)
    case Nil
    then show ?thesis using inv dj be by (auto simp: append_block_def arena_inv_def Let_def)
  next
    case (snoc cs b)
    obtain t s f where b: "b = (t, s, f)" by (cases b)
    obtain g where g: "globalPointersList st = Some g"
      using D(1) snoc seg_None [of "mds st" bs] by (cases "globalPointersList st") auto
    have l: "last_loop (mds st) g = Some t" using last_loop_seg [of "mds st" g bs] D(1) g snoc b by simp
    obtain m where m: "mds st t = Some m" "size m = s" "is_free m = f" "next_md m = None"
      "seg (mds st) (Some g) cs (Some t)"
      using D(1) g snoc b by auto
    let ?n = "\<lparr>size = n, is_free = False, next_md = None, prev_md = Some t\<rparr>"
    let ?h = "(mds st)(a \<mapsto> ?n, t \<mapsto> m\<lparr>next_md := Some a\<rparr>)"
    have ne: "a \<noteq> t" "a \<notin> set (blk_addrs cs)" "t \<notin> set (blk_addrs cs)" using a D(3) snoc b by auto
    have sg: "seg ?h (Some g) (bs @ [(a, n, False)]) None"
      using m ne snoc b by auto
    have dm: "dom ?h = set (blk_addrs (bs @ [(a, n, False)]))" using D(4) snoc b by auto
    have "append_block st a n = Some (st\<lparr>num_of_meta_data_bytes := num_of_meta_data_bytes st + of_nat SZ,
        num_of_allocated_bytes := num_of_allocated_bytes st + n,
        num_of_allocated_blocks := num_of_allocated_blocks st + 1, mds := ?h\<rparr>)"
      using g l m(1) ne(1) by (simp add: append_block_def Let_def)
    then show ?thesis using inv dj be sg dm g
      by (simp add: arena_inv_def algebra_simps del: blk_seg_append fun_upd_apply)
  qed
qed

lemma sfree_inv:
  assumes inv: "arena_inv st (xs @ (a, s, f) # ys)"
  shows "\<exists>st'. sfree st (Some (a + SZ)) = Some st' \<and> arena_inv st' (xs @ (a, s, True) # ys)
    \<and> bytes st' = bytes st \<and> prog_break st' = prog_break st"
proof -
  note D = arena_invD [OF inv]
  obtain m where m: "mds st a = Some m" "size m = s" "is_free m = f" using inv_cell [OF inv] by auto
  show ?thesis
  proof (cases f)
    case True
    then show ?thesis using inv m by (simp add: sfree_def)
  next
    case False
    have "disjoint_blks (xs @ (a, s, True) # ys)" using disjoint_flag [OF D(2)] .
    then show ?thesis
      using seg_set_free [OF D(1,3) m(1), of True] inv m False
      by (auto simp: sfree_def arena_inv_def simp del: blk_seg_append)
  qed
qed


subsection \<open>The specification\<close>

fun take_fit :: "size_t \<Rightarrow> blk list \<Rightarrow> (addr \<times> blk list) option" where
  "take_fit n [] = None"
| "take_fit n ((a, s, f) # bs) =
     (if n \<le> s \<and> f then Some (a, (a, s, False) # bs)
      else map_option (\<lambda>(x, bs'). (x, (a, s, f) # bs')) (take_fit n bs))"

text \<open>
  The specification's state: the blocks and the program break. A new block takes the bytes of its
  metadata and of its contents from the break on.
\<close>

type_synonym heap2 = "blk list \<times> addr"

fun a_get :: "nat option \<Rightarrow> size_t \<Rightarrow> heap2 \<Rightarrow> addr option \<times> heap2" where
  "a_get k n (bs, brk) =
     (case take_fit n bs of
        Some (a, bs') \<Rightarrow> (Some a, bs', brk)
      | None \<Rightarrow>
          (case k of
             None \<Rightarrow> (None, bs, brk)
           | Some g \<Rightarrow> (Some (brk + g), bs @ [(brk + g, n, False)], brk + g + SZ + unat n)))"

definition a_alloc :: "nat option \<Rightarrow> size_t \<Rightarrow> heap2 \<Rightarrow> addr option \<times> heap2" where
  "a_alloc k n s =
     (if n = 0 \<or> n > MAX_SIZE then (None, s)
      else let (b, s') = a_get k n s in (map_option (\<lambda>a. a + SZ) b, s'))"







text \<open>
  What a call should do to the blocks. It is undefined for a pointer that the allocator did not
  return, and for a reallocation whose new place is not clear of the bytes it copies.
\<close>

definition a_calloc :: "nat option \<Rightarrow> size_t \<Rightarrow> size_t \<Rightarrow> heap2 \<Rightarrow> addr option \<times> heap2" where
  "a_calloc k num n s =
     (if n = 0 \<or> num = 0 \<or> n * num > MAX_SIZE then (None, s)
      else let (b, s') = a_get k (n * num) s in (map_option (\<lambda>a. a + SZ) b, s'))"





text \<open>The state of the program implements the state of the specification.\<close>

definition implements :: "arena \<Rightarrow> heap2 \<Rightarrow> bool" where
  "implements st s \<longleftrightarrow> arena_inv st (fst s) \<and> prog_break st = snd s"

subsection \<open>The operations implement the specification\<close>

lemma take_fit_Some:
  "take_fit n bs = Some (a, bs') \<Longrightarrow>
   \<exists>xs s ys. bs = xs @ (a, s, True) # ys \<and> bs' = xs @ (a, s, False) # ys \<and> n \<le> s
     \<and> find (fits n) bs = Some (a, s, True)"
proof (induction bs arbitrary: bs')
  case (Cons b bs)
  obtain c s f where b: "b = (c, s, f)" by (cases b)
  show ?case
  proof (cases "n \<le> s \<and> f")
    case True
    then have "b # bs = [] @ (a, s, True) # bs \<and> bs' = [] @ (a, s, False) # bs"
      using Cons.prems b by auto
    then show ?thesis using True b by fastforce
  next
    case False
    then obtain bs1 where "take_fit n bs = Some (a, bs1)" "bs' = b # bs1" using Cons.prems b by auto
    with Cons.IH [of bs1] obtain xs u ys where
      "bs = xs @ (a, u, True) # ys" "bs1 = xs @ (a, u, False) # ys" "n \<le> u"
      "find (fits n) bs = Some (a, u, True)" by blast
    then have "b # bs = (b # xs) @ (a, u, True) # ys \<and> bs' = (b # xs) @ (a, u, False) # ys"
      using \<open>bs' = b # bs1\<close> by simp
    then show ?thesis using \<open>n \<le> u\<close> \<open>find (fits n) bs = Some (a, u, True)\<close> False b by fastforce
  qed
qed simp

lemma take_fit_None: "take_fit n bs = None \<Longrightarrow> find (fits n) bs = None"
  by (induction n bs rule: take_fit.induct) (auto split: if_splits)

lemma implementsI: "arena_inv st bs \<Longrightarrow> implements st (bs, prog_break st)"
  by (simp add: implements_def)

lemma implementsD:
  assumes "implements st (bs, brk)"
  shows "arena_inv st bs" "prog_break st = brk"
  using assms by (simp_all add: implements_def)

lemma implements_bytes [simp]: "implements (st\<lparr>bytes := v\<rparr>) s = implements st s"
  by (simp add: implements_def)

lemma get_block_refines:
  assumes s: "implements st s" and n: "n \<le> MAX_SIZE"
  shows "\<exists>st'. get_block st k n = Some (fst (a_get k n s), st')
    \<and> implements st' (snd (a_get k n s)) \<and> bytes st' = bytes st"
proof -
  obtain bs brk where e: "s = (bs, brk)" by (cases s)
  note inv = implementsD [OF s [unfolded e]]
  note loop = fit_loop_seg [OF arena_invD(1) [OF inv(1)], of n]
  show ?thesis
  proof (cases "take_fit n bs")
    case None
    show ?thesis
    proof (cases k)
      case (Some g)
      let ?st = "st\<lparr>prog_break := brk + g + SZ + unat n\<rparr>"
      have "arena_inv ?st bs" using arena_inv_break [OF inv(1)] inv(2) by simp
      moreover have "below (brk + g) bs" using below_mono [OF arena_inv_below [OF inv(1)]] inv(2) by simp
      ultimately obtain st' where "append_block ?st (brk + g) n = Some st'"
        "arena_inv st' (bs @ [(brk + g, n, False)])" "bytes st' = bytes st"
        "prog_break st' = brk + g + SZ + unat n"
        using append_block_inv [of ?st bs "brk + g" n] by auto
      then show ?thesis
        using loop take_fit_None [OF None] None Some e inv(2) sbrk_request [OF n, of g brk]
        by (simp add: get_block_def implements_def)
    qed (use loop take_fit_None [OF None] None s e in \<open>simp add: get_block_def\<close>)
  next
    case (Some r)
    obtain a bs' where r: "r = (a, bs')" by (cases r)
    from take_fit_Some [of n bs a bs'] Some r obtain xs u ys where
      f: "bs = xs @ (a, u, True) # ys" "bs' = xs @ (a, u, False) # ys" "find (fits n) bs = Some (a, u, True)"
      by auto
    moreover obtain st' where "claim st a = Some st'" "arena_inv st' bs'" "bytes st' = bytes st"
      "prog_break st' = brk"
      using claim_inv [of st xs a u ys] inv f(1,2) by auto
    ultimately show ?thesis using loop Some r e by (simp add: get_block_def implements_def)
  qed
qed






lemma smalloc_refines:
  assumes "implements st s"
  shows "\<exists>st'. smalloc st k n = Some (fst (a_alloc k n s), st') \<and> implements st' (snd (a_alloc k n s))
    \<and> bytes st' = bytes st"
  using get_block_refines [OF assms, of n k] assms
  by (auto simp: smalloc_def a_alloc_def not_less split: prod.splits)

lemma scalloc_refines:
  assumes "implements st s"
  shows "\<exists>st'. scalloc st k num n = Some (fst (a_calloc k num n s), st')
    \<and> implements st' (snd (a_calloc k num n s))
    \<and> bytes st' = (case fst (a_calloc k num n s) of
        None \<Rightarrow> bytes st | Some p \<Rightarrow> memset (bytes st) p NUL (unat (n * num)))"
proof (cases "n = 0 \<or> num = 0 \<or> n * num > MAX_SIZE")
  case False
  then obtain st' where g: "get_block st k (n * num) = Some (fst (a_get k (n * num) s), st')"
    "implements st' (snd (a_get k (n * num) s))" "bytes st' = bytes st"
    using get_block_refines [OF assms, of "n * num" k] by (auto simp: not_less)
  obtain b s' where a: "a_get k (n * num) s = (b, s')" by (cases "a_get k (n * num) s")
  show ?thesis using g a False by (cases b) (auto simp: scalloc_def a_calloc_def)
qed (use assms in \<open>auto simp: scalloc_def a_calloc_def\<close>)








subsection \<open>The contract\<close>

definition used2 :: "blk list \<Rightarrow> addr \<rightharpoonup> nat" where
  "used2 bs = map_of (map (\<lambda>(a, s, f). (a + SZ, unat s)) (filter (\<lambda>(a, s, f). \<not> f) bs))"

lemma used2_iff:
  assumes "distinct (blk_addrs bs)"
  shows "used2 bs p = Some c \<longleftrightarrow> (\<exists>a s. (a, s, False) \<in> set bs \<and> p = a + SZ \<and> c = unat s)"
proof -
  have "map fst (map (\<lambda>(a, s, f). (a + SZ, unat s)) xs) = map (\<lambda>a. a + SZ) (map fst xs)" for xs :: "blk list"
    by (induction xs) auto
  moreover have "distinct (map fst (filter (\<lambda>(a, s, f). \<not> f) bs))" using assms by (simp add: distinct_map_filter)
  ultimately have "distinct (map fst (map (\<lambda>(a, s, f). (a + SZ, unat s)) (filter (\<lambda>(a, s, f). \<not> f) bs)))"
    by (simp add: distinct_map inj_on_def)
  then show ?thesis unfolding used2_def map_of_eq_Some_iff by (auto simp del: map_map) force
qed

lemma map_eqI: "(\<And>p c. f p = Some c \<longleftrightarrow> g p = Some c) \<Longrightarrow> f = (g :: 'a \<rightharpoonup> 'b)"
  by (rule ext) (metis not_None_eq)

lemma used2_flip:
  assumes "distinct (blk_addrs (xs @ (a, s, f) # ys))"
  shows "used2 (xs @ (a, s, False) # ys) = (used2 (xs @ (a, s, True) # ys))(a + SZ \<mapsto> unat s)"
    "used2 (xs @ (a, s, True) # ys) = (used2 (xs @ (a, s, False) # ys))(a + SZ := None)"
proof -
  have d: "distinct (blk_addrs (xs @ (a, s, g) # ys))" for g using assms by simp
  have a: "(a, u, g) \<notin> set xs" "(a, u, g) \<notin> set ys" for u g using assms by force+
  show "used2 (xs @ (a, s, False) # ys) = (used2 (xs @ (a, s, True) # ys))(a + SZ \<mapsto> unat s)"
    by (rule map_eqI) (use a in \<open>auto simp: used2_iff [OF d] simp del: map_append distinct_append\<close>)
  show "used2 (xs @ (a, s, True) # ys) = (used2 (xs @ (a, s, False) # ys))(a + SZ := None)"
    by (rule map_eqI) (use a in \<open>auto simp: used2_iff [OF d] simp del: map_append distinct_append\<close>)
qed

lemma used2_fresh: "distinct (blk_addrs (xs @ (a, s, True) # ys)) \<Longrightarrow> used2 (xs @ (a, s, True) # ys) (a + SZ) = None"
  using used2_flip(2) [of xs a s True ys] by simp

lemma used2_snoc:
  assumes "\<forall>b\<in>set bs. blk_end b \<le> a"
  shows "used2 bs (a + SZ) = None" "used2 (bs @ [(a, n, False)]) = (used2 bs)(a + SZ \<mapsto> unat n)"
proof -
  have "a + SZ \<notin> fst ` set (map (\<lambda>(a, s, f). (a + SZ, unat s)) (filter (\<lambda>(a, s, f). \<not> f) bs))"
    using assms by (force simp: blk_end_def SZ_def)
  then show n: "used2 bs (a + SZ) = None" unfolding used2_def by (simp only: map_of_eq_None_iff not_False_eq_True)
  show "used2 (bs @ [(a, n, False)]) = (used2 bs)(a + SZ \<mapsto> unat n)"
  proof
    fix p
    show "used2 (bs @ [(a, n, False)]) p = ((used2 bs)(a + SZ \<mapsto> unat n)) p"
      using n by (auto simp: used2_def map_add_def split: option.splits)
  qed
qed

lemma smalloc_contract2:
  assumes inv: "arena_inv st bs"
  shows "\<exists>r st' bs'. smalloc st k n = Some (r, st') \<and> arena_inv st' bs'
    \<and> (case r of None \<Rightarrow> used2 bs' = used2 bs
       | Some p \<Rightarrow> \<exists>c \<ge> unat n. used2 bs p = None \<and> used2 bs' = (used2 bs)(p \<mapsto> c))"
proof -
  obtain r bs' brk' where a: "a_alloc k n (bs, prog_break st) = (r, bs', brk')"
    by (cases "a_alloc k n (bs, prog_break st)") auto
  obtain st' where st: "smalloc st k n = Some (r, st')" "arena_inv st' bs'"
    using smalloc_refines [OF implementsI [OF inv], of k n] a by (auto simp: implements_def)
  have "case r of None \<Rightarrow> used2 bs' = used2 bs
     | Some p \<Rightarrow> \<exists>c \<ge> unat n. used2 bs p = None \<and> used2 bs' = (used2 bs)(p \<mapsto> c)"
  proof (cases "n = 0 \<or> n > MAX_SIZE")
    case False
    show ?thesis
    proof (cases "take_fit n bs")
      case None
      have "\<forall>b\<in>set bs. blk_end b \<le> prog_break st + g" for g
        using arena_inv_below [OF inv] by (auto simp: below_def intro: trans_le_add1)
      from used2_snoc [OF this] show ?thesis using False None a
        by (auto simp: a_alloc_def split: option.splits)
    next
      case (Some t)
      obtain x bs1 where t: "take_fit n bs = Some (x, bs1)" using Some by (cases t) simp
      from take_fit_Some [OF t] obtain xs s ys where
        f: "bs = xs @ (x, s, True) # ys" "bs1 = xs @ (x, s, False) # ys" "n \<le> s" by blast
      have "distinct (blk_addrs (xs @ (x, s, True) # ys))" using arena_invD(3) [OF inv] f(1) by simp
      from used2_fresh [OF this] used2_flip(1) [OF this]
      show ?thesis using False t f a by (auto simp: a_alloc_def word_le_nat_alt)
    qed
  qed (use a in \<open>auto simp: a_alloc_def\<close>)
  then show ?thesis using st by blast
qed

lemma sfree_contract2:
  assumes inv: "arena_inv st bs" and p: "used2 bs p = Some c"
  shows "\<exists>st' bs'. sfree st (Some p) = Some st' \<and> arena_inv st' bs' \<and> used2 bs' = (used2 bs)(p := None)"
proof -
  note d = arena_invD(3) [OF inv]
  obtain a s where a: "(a, s, False) \<in> set bs" "p = a + SZ" using p used2_iff [OF d] by blast
  obtain xs ys where l: "bs = xs @ (a, s, False) # ys" using split_list [OF a(1)] by blast
  obtain st' where "sfree st (Some p) = Some st'" "arena_inv st' (xs @ (a, s, True) # ys)"
    using sfree_inv [of st xs a s False ys] inv l a(2) by blast
  moreover have "used2 (xs @ (a, s, True) # ys) = (used2 bs)(p := None)"
    using used2_flip(2) [of xs a s False ys] d l a(2) by simp
  ultimately show ?thesis by blast
qed

lemma used2_apart:
  assumes inv: "arena_inv st bs" and "used2 bs p = Some c" "used2 bs q = Some d" "p \<noteq> q"
  shows "p + c \<le> q \<or> q + d \<le> p"
proof -
  note di = arena_invD(3) [OF inv]
  obtain a s where a: "(a, s, False) \<in> set bs" "p = a + SZ" "c = unat s" using assms(2) used2_iff [OF di] by blast
  obtain b u where b: "(b, u, False) \<in> set bs" "q = b + SZ" "d = unat u" using assms(3) used2_iff [OF di] by blast
  obtain i j where ij: "i < length bs" "bs ! i = (a, s, False)" "j < length bs" "bs ! j = (b, u, False)"
    using a(1) b(1) by (meson in_set_conv_nth)
  have "i \<noteq> j" using ij a b assms(4) by auto
  moreover have "blk_end (bs ! i) \<le> fst (bs ! j)" if "i < j"
    using arena_invD(2) [OF inv] that ij(1,3) by (simp add: disjoint_blks_def sorted_wrt_iff_nth_less)
  moreover have "blk_end (bs ! j) \<le> fst (bs ! i)" if "j < i"
    using arena_invD(2) [OF inv] that ij(1,3) by (simp add: disjoint_blks_def sorted_wrt_iff_nth_less)
  ultimately show ?thesis using a b ij by (auto simp: blk_end_def SZ_def neq_iff)
qed

interpretation m2: allocator arena_inv used2 "\<lambda>k st n. smalloc st k n" sfree "\<lambda>bs k n. True" unat
  "\<lambda>bs p. True"
  by unfold_locales (use smalloc_contract2 sfree_contract2 used2_apart in \<open>simp_all add: sfree_def\<close>)

text \<open>A block that \<open>smalloc\<close> returns overlaps no block in use, and can be given back at once.\<close>

lemma smalloc_fresh2:
  assumes "arena_inv st bs" "smalloc st k n = Some (Some p, st')"
  shows "(\<forall>q d. used2 bs q = Some d \<longrightarrow> p + unat n \<le> q \<or> q + d \<le> p)
    \<and> (\<exists>st'' bs''. sfree st' (Some p) = Some st'' \<and> arena_inv st'' bs'' \<and> used2 bs'' = used2 bs)"
  using m2.alloc_apart [OF assms(1) TrueI assms(2)] m2.alloc_release [OF assms(1) TrueI assms(2)] by simp


subsection \<open>Properties\<close>


text \<open>
  \<open>scalloc\<close>. A call that returns a block has set the first \<open>size * num\<close> bytes (a product modulo
  \<open>2 ^ 64\<close>) to zero and changed no other byte. The product is not checked for overflow, so
  the block can be smaller than \<open>num\<close> elements of \<open>size\<close> bytes: then the result is not NULL although
  the array asked for does not fit any block.
\<close>

theorem scalloc_zeroes:
  assumes "arena_inv st bs" "scalloc st k num n = Some (Some p, st')"
  shows "(\<forall>i < unat (n * num). bytes st' (p + i) = NUL)
    \<and> (\<forall>x. x < p \<or> p + unat (n * num) \<le> x \<longrightarrow> bytes st' x = bytes st x)
    \<and> (2 ^ 64 \<le> unat n * unat num \<longrightarrow> unat (n * num) < unat n * unat num)"
proof -
  have "bytes st' = memset (bytes st) p NUL (unat (n * num))"
    using scalloc_refines [OF implementsI [OF assms(1)], of k num n] assms(2) by (auto split: option.splits)
  moreover have "unat (n * num) < 2 ^ 64" using unsigned_less [of "n * num"] by simp
  ultimately show ?thesis by (auto simp: memset_def)
qed





definition ex_blks :: "blk list" where "ex_blks = [(1000, 100, False)]"

definition ex_arena :: arena where
  "ex_arena = \<lparr>mds = [1000 \<mapsto> \<lparr>size = 100, is_free = False, next_md = None, prev_md = None\<rparr>],
     bytes = (\<lambda>_. CHR ''x''), globalPointersList = Some 1000, num_of_free_blocks = 0,
     num_of_free_bytes = 0, num_of_allocated_blocks = 1, num_of_allocated_bytes = 100,
     num_of_meta_data_bytes = 32, prog_break = 1132\<rparr>"

lemma ex_arena_inv: "arena_inv ex_arena ex_blks" "prog_break ex_arena = 1132"
  by (simp_all add: arena_inv_def ex_arena_def ex_blks_def disjoint_blks_def SZ_def below_def blk_end_def)

theorem scalloc_zeroes_witness:
  "(\<exists>st'. scalloc ex_arena (Some 0) 3 5 = Some (Some 1164, st') \<and> (\<forall>i < 15. bytes st' (1164 + i) = NUL))
   \<and> (\<exists>st'. scalloc ex_arena (Some 0) 4611686018427387905 4 = Some (Some 1164, st')
        \<and> unat (4 * 4611686018427387905 :: size_t) < unat (4 :: size_t) * unat (4611686018427387905 :: size_t))"
proof -
  have s: "\<exists>st'. scalloc ex_arena (Some 0) num n = Some (Some 1164, st')"
    if "n \<noteq> 0" "num \<noteq> 0" "n * num \<le> MAX_SIZE" for num n
    using scalloc_refines [OF implementsI [OF ex_arena_inv(1)], of "Some 0" num n] that
    by (auto simp: a_calloc_def ex_arena_inv(2) ex_blks_def SZ_def not_less)
  obtain st1 where 1: "scalloc ex_arena (Some 0) 3 5 = Some (Some 1164, st1)"
    using s [of 5 3] by (auto simp: MAX_SIZE_def)
  obtain st2 where 2: "scalloc ex_arena (Some 0) 4611686018427387905 4 = Some (Some 1164, st2)"
    using s [of 4 4611686018427387905] by (auto simp: MAX_SIZE_def)
  from scalloc_zeroes [OF ex_arena_inv(1) 1] 1 scalloc_zeroes [OF ex_arena_inv(1) 2] 2
  show ?thesis by auto
qed


end
