(* ===== verification/Malloc3.thy ===== *)
theory Malloc3
  imports OS_Prelude
begin

unbundle bit_operations_syntax

section \<open>The buddy allocator (OS_HW4/malloc_3.cpp)\<close>

text \<open>
  Blocks of \<open>128 * 2 ^ k\<close> bytes, \<open>k = 0 .. 10\<close>, each starting with its metadata, in one address-ordered
  list per order; larger requests are mapped one by one. The model has the metadata as cells of a
  heap and follows the pointers of the lists. Following NULL or a pointer to no metadata, an index
  outside \<open>mdListArr\<close> and the use of the uninitialised \<open>newMD\<close> are undefined (\<^const>\<open>None\<close>), and so is
  a loop along a cyclic list.

  Addresses and sizes are natural numbers; where the program computes in \<open>size_t\<close> with numbers of the
  caller, the reduction modulo \<open>2 ^ 64\<close> is written out. What \<open>sbrk\<close> and \<open>mmap\<close> answer
  to the amount they are asked for is in the argument \<open>kernel\<close>.
\<close>

subsection \<open>Metadata\<close>

record MallocMetadata =
  size :: nat
  is_free :: bool
  next_md :: "addr option"
  prev_md :: "addr option"
  address :: nat
  is_mmap :: bool

type_synonym md_heap = "MallocMetadata heap"

text \<open>\<open>sizeof(MallocMetadata)\<close>.\<close>

definition MDSZ :: nat where "MDSZ = 48"

definition metaDataInit ::
  "md_heap \<Rightarrow> addr \<Rightarrow> nat \<Rightarrow> bool \<Rightarrow> addr option \<Rightarrow> addr option \<Rightarrow> nat \<Rightarrow> md_heap" where
  "metaDataInit h md sz fr nxt prv adrs =
     h(md \<mapsto> \<lparr>size = sz, is_free = fr, next_md = nxt, prev_md = prv, address = adrs, is_mmap = False\<rparr>)"

definition MAX_ORDER :: nat where "MAX_ORDER = 10"

definition SIZE_128K :: nat where "SIZE_128K = 131072"

definition blocksSizesArr :: "nat list" where
  "blocksSizesArr = [128, 256, 512, 1024, 2048, 4096, 8192, 16384, 32768, 65536, 131072]"

text \<open>\<open>findSizeIndexInList\<close>: \<^const>\<open>None\<close> is the result -1.\<close>

definition findSizeIndexInList :: "nat \<Rightarrow> nat option" where
  "findSizeIndexInList sz = find (\<lambda>i. blocksSizesArr ! i = sz) [0..<Suc MAX_ORDER]"

definition invalidSize :: "nat \<Rightarrow> bool" where
  "invalidSize sz \<longleftrightarrow> sz = 0 \<or> sz > 100000000"

subsection \<open>Lists of metadata\<close>

record MDList =
  head :: "addr option"
  tail :: "addr option"

definition newMDList :: MDList where "newMDList = \<lparr>head = None, tail = None\<rparr>"

definition isEmpty :: "MDList \<Rightarrow> bool" where "isEmpty l \<longleftrightarrow> head l = None"

definition isNull :: "addr option \<Rightarrow> bool" where "isNull p \<longleftrightarrow> p = None"

definition isAlmostEmpty :: "MDList \<Rightarrow> bool" where
  "isAlmostEmpty l \<longleftrightarrow> head l \<noteq> None \<and> head l = tail l"

partial_function (option) find_free_loop :: "md_heap \<Rightarrow> addr option \<Rightarrow> nat \<Rightarrow> addr option option" where
  "find_free_loop h tmp requestedSize =
     (case tmp of
        None \<Rightarrow> Some None
      | Some a \<Rightarrow>
          do { m \<leftarrow> h a;
               if is_free m \<and> requestedSize \<le> size m then Some (Some a)
               else find_free_loop h (next_md m) requestedSize })"

definition findFreeSizedBlock :: "md_heap \<Rightarrow> MDList \<Rightarrow> nat \<Rightarrow> (nat option \<times> md_heap) option" where
  "findFreeSizedBlock h l requestedSize =
     do { f \<leftarrow> find_free_loop h (head l) requestedSize;
          case f of
            None \<Rightarrow> Some (None, h)
          | Some a \<Rightarrow>
              do { m \<leftarrow> h a; Some (Some (address m), h(a \<mapsto> m\<lparr>is_free := False\<rparr>)) } }"

text \<open>The search of \<open>addMD\<close>: the first node with a larger address, and the node before it.\<close>

partial_function (option) add_loop ::
  "md_heap \<Rightarrow> nat \<Rightarrow> addr option \<Rightarrow> addr option \<Rightarrow> (addr option \<times> addr option) option" where
  "add_loop h adrs prevTmp nxtTmp =
     (case nxtTmp of
        None \<Rightarrow> Some (prevTmp, None)
      | Some a \<Rightarrow>
          do { m \<leftarrow> h a;
               if adrs < address m then Some (prevTmp, nxtTmp)
               else add_loop h adrs nxtTmp (next_md m) })"

definition addMD :: "md_heap \<Rightarrow> MDList \<Rightarrow> addr \<Rightarrow> (md_heap \<times> MDList) option" where
  "addMD h l md =
     (if isEmpty l then Some (h, \<lparr>head = Some md, tail = Some md\<rparr>)
      else do {
        m \<leftarrow> h md;
        (prevTmp, nxtTmp) \<leftarrow> add_loop h (address m) None (head l);
        if isNull nxtTmp then
          do { h1 \<leftarrow> upd h prevTmp (\<lambda>x. x\<lparr>next_md := Some md\<rparr>);
               h2 \<leftarrow> upd h1 (Some md) (\<lambda>x. x\<lparr>prev_md := prevTmp\<rparr>);
               Some (h2, l\<lparr>tail := Some md\<rparr>) }
        else if nxtTmp = head l then
          do { h1 \<leftarrow> upd h (Some md) (\<lambda>x. x\<lparr>next_md := head l\<rparr>);
               Some (h1, l\<lparr>head := Some md\<rparr>) }
        else
          do { h1 \<leftarrow> upd h prevTmp (\<lambda>x. x\<lparr>next_md := Some md\<rparr>);
               h2 \<leftarrow> upd h1 (Some md) (\<lambda>x. x\<lparr>prev_md := prevTmp\<rparr>);
               h3 \<leftarrow> upd h2 (Some md) (\<lambda>x. x\<lparr>next_md := nxtTmp\<rparr>);
               h4 \<leftarrow> upd h3 nxtTmp (\<lambda>x. x\<lparr>prev_md := Some md\<rparr>);
               Some (h4, l) }
      })"

partial_function (option) del_loop ::
  "md_heap \<Rightarrow> nat \<Rightarrow> addr option \<Rightarrow> addr option \<Rightarrow> (addr option \<times> addr option) option" where
  "del_loop h adrs prevTmp currTmp =
     (case currTmp of
        None \<Rightarrow> Some (prevTmp, None)
      | Some a \<Rightarrow>
          do { m \<leftarrow> h a;
               if adrs = address m then Some (prevTmp, currTmp)
               else del_loop h adrs currTmp (next_md m) })"

definition delMD :: "md_heap \<Rightarrow> MDList \<Rightarrow> addr \<Rightarrow> (md_heap \<times> MDList) option" where
  "delMD h l md =
     (if isEmpty l then Some (h, l)
      else do {
        m \<leftarrow> h md;
        (prevTmp, currTmp) \<leftarrow> del_loop h (address m) None (head l);
        if isNull currTmp then Some (h, l)
        else do {
          (h1, l1) \<leftarrow>
            (if currTmp = head l then
               (if isAlmostEmpty l then Some (h, \<lparr>head = None, tail = None\<rparr>)
                else do {
                  c \<leftarrow> rd h (head l);
                  h1 \<leftarrow> upd h (next_md c) (\<lambda>x. x\<lparr>prev_md := None\<rparr>);
                  Some (h1, l\<lparr>head := next_md c\<rparr>) })
             else if currTmp = tail l then
               do { h1 \<leftarrow> upd h prevTmp (\<lambda>x. x\<lparr>next_md := None\<rparr>); Some (h1, l\<lparr>tail := prevTmp\<rparr>) }
             else
               do { c \<leftarrow> rd h currTmp;
                    h1 \<leftarrow> upd h prevTmp (\<lambda>x. x\<lparr>next_md := next_md c\<rparr>);
                    h2 \<leftarrow> upd h1 (next_md c) (\<lambda>x. x\<lparr>prev_md := prevTmp\<rparr>);
                    Some (h2, l) });
          h2 \<leftarrow> upd h1 currTmp (\<lambda>x. x\<lparr>prev_md := None\<rparr>);
          h3 \<leftarrow> upd h2 currTmp (\<lambda>x. x\<lparr>next_md := None\<rparr>);
          Some (h3, l1)
        }
      })"

text \<open>The four counting loops: a sum of \<open>f\<close> over the nodes, in \<open>size_t\<close>.\<close>

partial_function (option) sum_loop ::
  "md_heap \<Rightarrow> (MallocMetadata \<Rightarrow> int) \<Rightarrow> addr option \<Rightarrow> int \<Rightarrow> nat option" where
  "sum_loop h f tmp acc =
     (case tmp of
        None \<Rightarrow> Some (to_unsigned 64 acc)
      | Some a \<Rightarrow> do { m \<leftarrow> h a; sum_loop h f (next_md m) (acc + f m) })"

definition freeBlocksNum :: "md_heap \<Rightarrow> MDList \<Rightarrow> nat option" where
  "freeBlocksNum h l = sum_loop h (\<lambda>m. if is_free m then 1 else 0) (head l) 0"

definition freeBlocksNumBytes :: "md_heap \<Rightarrow> MDList \<Rightarrow> nat option" where
  "freeBlocksNumBytes h l =
     sum_loop h (\<lambda>m. if is_free m then int (size m) - int MDSZ else 0) (head l) 0"

definition allBlocksNum :: "md_heap \<Rightarrow> MDList \<Rightarrow> nat option" where
  "allBlocksNum h l = sum_loop h (\<lambda>m. 1) (head l) 0"

definition allBlocksNumBytes :: "md_heap \<Rightarrow> MDList \<Rightarrow> nat option" where
  "allBlocksNumBytes h l = sum_loop h (\<lambda>m. int (size m) - int MDSZ) (head l) 0"

subsection \<open>State\<close>

record buddy =
  mem :: md_heap
  bytes :: "addr \<Rightarrow> char"
  mdListArr :: "MDList list"
  mappedList :: MDList
  firstMalloc :: bool
  heap_end :: nat

text \<open>\<open>heap_end\<close> is the program break after the allocator's own \<open>sbrk\<close>: the end of the memory it obtained.\<close>

definition init_buddy :: "(addr \<Rightarrow> char) \<Rightarrow> buddy" where
  "init_buddy b = \<lparr>mem = Map.empty, bytes = b, mdListArr = replicate (Suc MAX_ORDER) newMDList,
     mappedList = newMDList, firstMalloc = True, heap_end = 0\<rparr>"

text \<open>\<open>mdListArr[i].addMD(md)\<close> and \<open>mdListArr[i].delMD(md)\<close>.\<close>

definition list_add :: "buddy \<Rightarrow> nat \<Rightarrow> addr \<Rightarrow> buddy option" where
  "list_add st i md =
     (if i < length (mdListArr st) then
        do { (h, l) \<leftarrow> addMD (mem st) (mdListArr st ! i) md;
             Some (st\<lparr>mem := h, mdListArr := (mdListArr st)[i := l]\<rparr>) }
      else None)"

definition list_del :: "buddy \<Rightarrow> nat \<Rightarrow> addr \<Rightarrow> buddy option" where
  "list_del st i md =
     (if i < length (mdListArr st) then
        do { (h, l) \<leftarrow> delMD (mem st) (mdListArr st ! i) md;
             Some (st\<lparr>mem := h, mdListArr := (mdListArr st)[i := l]\<rparr>) }
      else None)"

definition mapped_add :: "buddy \<Rightarrow> addr \<Rightarrow> buddy option" where
  "mapped_add st md =
     do { (h, l) \<leftarrow> addMD (mem st) (mappedList st) md; Some (st\<lparr>mem := h, mappedList := l\<rparr>) }"

definition mapped_del :: "buddy \<Rightarrow> addr \<Rightarrow> buddy option" where
  "mapped_del st md =
     do { (h, l) \<leftarrow> delMD (mem st) (mappedList st) md; Some (st\<lparr>mem := h, mappedList := l\<rparr>) }"

subsection \<open>Splitting\<close>

text \<open>The loop of \<open>splitBlocks_ChallengeZero\<close>, \<open>n\<close> rounds left; the result has the final index.\<close>

fun split_loop :: "buddy \<Rightarrow> addr \<Rightarrow> nat \<Rightarrow> nat \<Rightarrow> (buddy \<times> nat) option" where
  "split_loop st md index 0 = Some (st, index)"
| "split_loop st md 0 (Suc n) = None"
| "split_loop st md (Suc i) (Suc n) =
     (let sz = blocksSizesArr ! i; newMD = md + sz;
          st1 = st\<lparr>mem := metaDataInit (mem st) newMD sz True None None (newMD + MDSZ)\<rparr> in
      do { st2 \<leftarrow> list_add st1 i newMD; split_loop st2 md i n })"

definition splitBlocks_ChallengeZero :: "buddy \<Rightarrow> addr \<Rightarrow> nat \<Rightarrow> nat \<Rightarrow> buddy option" where
  "splitBlocks_ChallengeZero st md index spliN =
     (if spliN = 0 then Some st
      else do {
        st1 \<leftarrow> list_del st index md;
        (st2, i) \<leftarrow> split_loop st1 md index spliN;
        m \<leftarrow> mem st2 md;
        list_add (st2\<lparr>mem := metaDataInit (mem st2) md (blocksSizesArr ! i) False None None (address m)\<rparr>) i md
      })"

text \<open>The loop over the orders from \<open>i\<close> on; \<open>k\<close> of them are left.\<close>

fun exact_loop :: "nat \<Rightarrow> buddy \<Rightarrow> nat \<Rightarrow> nat \<Rightarrow> nat \<Rightarrow> (nat option \<times> buddy) option" where
  "exact_loop 0 st sz i splitNum = Some (None, st)"
| "exact_loop (Suc k) st sz i splitNum =
     (if blocksSizesArr ! i \<ge> sz then
        do { (f, h) \<leftarrow> findFreeSizedBlock (mem st) (mdListArr st ! i) sz;
             case f of
               None \<Rightarrow> exact_loop k (st\<lparr>mem := h\<rparr>) sz (Suc i) (Suc splitNum)
             | Some freeBlock \<Rightarrow>
                 (let metaRes = freeBlock - MDSZ in
                  do { st1 \<leftarrow> splitBlocks_ChallengeZero (st\<lparr>mem := h\<rparr>) metaRes i splitNum;
                       h1 \<leftarrow> upd (mem st1) (Some metaRes) (\<lambda>x. x\<lparr>is_free := False\<rparr>);
                       Some (Some (metaRes + MDSZ), st1\<lparr>mem := h1\<rparr>) }) }
      else exact_loop k st sz (Suc i) splitNum)"

definition findExactSizeBlock_ChallengeZero :: "buddy \<Rightarrow> nat \<Rightarrow> (nat option \<times> buddy) option" where
  "findExactSizeBlock_ChallengeZero st sz = exact_loop (Suc MAX_ORDER) st sz 0 0"

definition findNeighboringBlock_ChallengeOne :: "addr \<Rightarrow> MallocMetadata \<Rightarrow> addr" where
  "findNeighboringBlock_ChallengeOne md m = md XOR size m"

subsection \<open>Statistics\<close>

text \<open>Sums over the lists in an \<open>int\<close> and in a \<open>size_t\<close>.\<close>

fun add_int :: "(MDList \<Rightarrow> nat option) \<Rightarrow> int \<Rightarrow> MDList list \<Rightarrow> int option" where
  "add_int f acc [] = Some acc"
| "add_int f acc (l # ls) = do { x \<leftarrow> f l; add_int f (to_signed 32 (acc + int x)) ls }"

fun add_size :: "(MDList \<Rightarrow> nat option) \<Rightarrow> nat \<Rightarrow> MDList list \<Rightarrow> nat option" where
  "add_size f acc [] = Some acc"
| "add_size f acc (l # ls) = do { x \<leftarrow> f l; add_size f ((acc + x) mod 2 ^ 64) ls }"

definition num_free_blocks :: "buddy \<Rightarrow> nat option" where
  "num_free_blocks st =
     do { s \<leftarrow> add_int (freeBlocksNum (mem st)) 0 (mdListArr st); Some (to_unsigned 64 s) }"

definition num_free_bytes :: "buddy \<Rightarrow> nat option" where
  "num_free_bytes st = add_size (freeBlocksNumBytes (mem st)) 0 (mdListArr st)"

definition num_allocated_blocks :: "buddy \<Rightarrow> nat option" where
  "num_allocated_blocks st =
     do { s \<leftarrow> add_int (allBlocksNum (mem st)) 0 (mdListArr st @ [mappedList st]);
          Some (to_unsigned 64 s) }"

definition num_allocated_bytes :: "buddy \<Rightarrow> nat option" where
  "num_allocated_bytes st =
     do { s \<leftarrow> add_int (allBlocksNumBytes (mem st)) 0 (mdListArr st @ [mappedList st]);
          Some (to_unsigned 64 s) }"

definition num_meta_data_bytes :: "buddy \<Rightarrow> nat option" where
  "num_meta_data_bytes st = do { n \<leftarrow> num_allocated_blocks st; Some ((n * MDSZ) mod 2 ^ 64) }"

definition size_meta_data :: nat where "size_meta_data = MDSZ"

subsection \<open>Allocation\<close>

text \<open>
  What the kernel answers during one call: the program break before it, whether \<open>sbrk\<close> of an amount
  succeeds, and what \<open>mmap\<close> of a length returns. The program does not check for a failure of either; using the
  result then is undefined.
\<close>

record kernel =
  prog_break :: nat
  sbrk_ok :: "nat \<Rightarrow> bool"
  mmap_res :: "nat \<Rightarrow> addr option"

text \<open>\<open>sbrk\<close> returns the old break, and raises it by the amount.\<close>

definition sbrk :: "kernel \<Rightarrow> nat \<Rightarrow> (addr \<times> nat) option" where
  "sbrk k increment =
     (if sbrk_ok k increment then Some (prog_break k, prog_break k + increment) else None)"

text \<open>The loop that makes the 32 initial blocks, \<open>n\<close> of them left.\<close>

fun init_loop :: "buddy \<Rightarrow> addr \<Rightarrow> nat \<Rightarrow> buddy option" where
  "init_loop st res 0 = Some st"
| "init_loop st res (Suc n) =
     do { st1 \<leftarrow> list_add (st\<lparr>mem := metaDataInit (mem st) res SIZE_128K True None None (res + MDSZ)\<rparr>) MAX_ORDER res;
          init_loop st1 (res + SIZE_128K) n }"

definition first_init :: "kernel \<Rightarrow> buddy \<Rightarrow> buddy option" where
  "first_init k st =
     (if \<not> firstMalloc st then Some st
      else
        (let pb = prog_break k mod SIZE_128K in
         do { (pdAdrs, brk) \<leftarrow> sbrk k (32 * SIZE_128K - pb + SIZE_128K);
              (let res = pdAdrs - pb + SIZE_128K in
               do { st1 \<leftarrow> init_loop (st\<lparr>firstMalloc := False, heap_end := brk,
                                       mdListArr := replicate (Suc MAX_ORDER) newMDList\<rparr>) res 32;
                    Some (st1\<lparr>mappedList := newMDList\<rparr>) }) }))"

definition smalloc :: "kernel \<Rightarrow> buddy \<Rightarrow> nat \<Rightarrow> (addr option \<times> buddy) option" where
  "smalloc k st sz =
     (let tot_size = (MDSZ + sz) mod 2 ^ 64 in
      do { st0 \<leftarrow> first_init k st;
           if invalidSize sz then Some (None, st0)
           else if tot_size \<le> SIZE_128K then findExactSizeBlock_ChallengeZero st0 tot_size
           else do {
             res \<leftarrow> mmap_res k ((sz + MDSZ) mod 2 ^ 64);
             (let h = metaDataInit (mem st0) res tot_size False None None (res + MDSZ) in
              do { h1 \<leftarrow> upd h (Some res) (\<lambda>x. x\<lparr>is_mmap := True\<rparr>);
                   st1 \<leftarrow> mapped_add (st0\<lparr>mem := h1\<rparr>) res;
                   m \<leftarrow> mem st1 res;
                   Some (Some (address m), st1) }) } })"

definition scalloc :: "kernel \<Rightarrow> buddy \<Rightarrow> nat \<Rightarrow> nat \<Rightarrow> (addr option \<times> buddy) option" where
  "scalloc k st num sz =
     (let tot_size = (sz * num) mod 2 ^ 64 in
      if sz = 0 \<or> num = 0 then Some (None, st)
      else if tot_size > 100000000 then Some (None, st)
      else do {
        (adrs, st') \<leftarrow> smalloc k st tot_size;
        case adrs of
          None \<Rightarrow> Some (None, st')
        | Some p \<Rightarrow> Some (adrs, st'\<lparr>bytes := memset (bytes st') p NUL tot_size\<rparr>) })"

subsection \<open>Freeing\<close>

partial_function (option) merge_loop :: "buddy \<Rightarrow> addr \<Rightarrow> addr \<Rightarrow> buddy option" where
  "merge_loop st res neigh =
     do { nm \<leftarrow> mem st neigh;
          rm \<leftarrow> mem st res;
          if is_free nm \<and> size rm < SIZE_128K then
            do { i \<leftarrow> findSizeIndexInList (size rm);
                 st1 \<leftarrow> list_del st i res;
                 st2 \<leftarrow> list_del st1 i neigh;
                 (let res' = (if address nm < address rm then neigh else res) in
                  do { m \<leftarrow> mem st2 res';
                       (let m' = m\<lparr>size := size m * 2, is_free := True\<rparr> in
                        do { st3 \<leftarrow> list_add (st2\<lparr>mem := (mem st2)(res' \<mapsto> m')\<rparr>) (Suc i) res';
                             if size m' = SIZE_128K then Some st3
                             else merge_loop st3 res' (findNeighboringBlock_ChallengeOne res' m') }) }) }
          else Some st }"

definition sfree :: "buddy \<Rightarrow> addr option \<Rightarrow> buddy option" where
  "sfree st p =
     (case p of
        None \<Rightarrow> Some st
      | Some q \<Rightarrow>
          (let res = q - MDSZ in
           do { m \<leftarrow> mem st res;
                if is_free m then Some st
                else if size m > SIZE_128K \<or> is_mmap m then
                  do { st1 \<leftarrow> mapped_del st res; Some (st1\<lparr>mem := (mem st1)(res := None)\<rparr>) }
                else
                  (let st1 = st\<lparr>mem := (mem st)(res \<mapsto> m\<lparr>is_free := True\<rparr>)\<rparr> in
                   if size m = SIZE_128K then Some st1
                   else
                     (let neigh = findNeighboringBlock_ChallengeOne res m in
                      do { nm \<leftarrow> mem st1 neigh;
                           if \<not> is_free nm then Some st1 else merge_loop st1 res neigh })) }))"

subsection \<open>Reallocation\<close>

text \<open>
  The loop of \<open>srealloc\<close> that joins the block with its neighbours. The result has the value of
  \<open>newMD\<close>, \<^const>\<open>None\<close> as long as it is not initialised.
\<close>

partial_function (option) grow_loop :: "buddy \<Rightarrow> addr \<Rightarrow> addr \<Rightarrow> nat \<Rightarrow> (buddy \<times> nat option) option" where
  "grow_loop st current neigh new_size =
     do { nm \<leftarrow> mem st neigh;
          cm \<leftarrow> mem st current;
          if is_free nm \<and> size nm < SIZE_128K then
            do { i \<leftarrow> findSizeIndexInList (size cm);
                 st1 \<leftarrow> list_del st i current;
                 st2 \<leftarrow> list_del st1 i neigh;
                 m \<leftarrow> mem st2 current;
                 (let m' = m\<lparr>size := size m * 2\<rparr> in
                  do { st3 \<leftarrow> list_add (st2\<lparr>mem := (mem st2)(current \<mapsto> m')\<rparr>) (Suc i) current;
                       if size m' \<ge> new_size then Some (st3, Some (address m'))
                       else grow_loop st3 current (findNeighboringBlock_ChallengeOne current m') new_size }) }
          else Some (st, None) }"

definition memmove :: "(addr \<Rightarrow> char) \<Rightarrow> addr \<Rightarrow> addr \<Rightarrow> nat \<Rightarrow> addr \<Rightarrow> char" where
  "memmove bs d s n = (\<lambda>a. if d \<le> a \<and> a < d + n then bs (s + (a - d)) else bs a)"

definition srealloc :: "kernel \<Rightarrow> buddy \<Rightarrow> addr option \<Rightarrow> nat \<Rightarrow> (addr option \<times> buddy) option" where
  "srealloc k st oldp sz =
     (if sz = 0 then Some (None, st)
      else case oldp of
        None \<Rightarrow> smalloc k st sz
      | Some q \<Rightarrow>
          (let new_size = (sz + MDSZ) mod 2 ^ 64; current = q - MDSZ in
           do { cm \<leftarrow> mem st current;
                if size cm = new_size \<or> (size cm \<ge> new_size \<and> \<not> is_mmap cm) then Some (oldp, st)
                else
                  (let neigh = findNeighboringBlock_ChallengeOne current cm in
                   do { nm \<leftarrow> mem st neigh;
                        (newMD, st1) \<leftarrow>
                          (if is_free nm then
                             do { (st1, newMD) \<leftarrow> grow_loop st current neigh new_size;
                                  d \<leftarrow> newMD;
                                  cm1 \<leftarrow> mem st1 current;
                                  Some (newMD, st1\<lparr>bytes := memmove (bytes st1) d q (size cm1)\<rparr>) }
                           else
                             do { (newMD, st1) \<leftarrow>
                                    smalloc k (st\<lparr>mem := (mem st)(current \<mapsto> cm\<lparr>is_free := True\<rparr>)\<rparr>) sz;
                                  case newMD of
                                    None \<Rightarrow>
                                      do { h \<leftarrow> upd (mem st1) (Some current) (\<lambda>x. x\<lparr>is_free := False\<rparr>);
                                           Some (None, st1\<lparr>mem := h\<rparr>) }
                                  | Some d \<Rightarrow>
                                      do { cm1 \<leftarrow> mem st1 current;
                                           Some (newMD, st1\<lparr>bytes := memmove (bytes st1) d q (size cm1)\<rparr>) } });
                        (case newMD of
                           None \<Rightarrow> Some (None, st1)
                         | Some d \<Rightarrow>
                             do { cm1 \<leftarrow> mem st1 current;
                                  if is_mmap cm1 then
                                    do { st2 \<leftarrow> mapped_del (st1\<lparr>mem := (mem st1)(current := None)\<rparr>) current;
                                         Some (newMD, st2) }
                                  else Some (newMD, st1) }) }) }))"


declare find_free_loop.simps [code] add_loop.simps [code] del_loop.simps [code] sum_loop.simps [code]
  merge_loop.simps [code] grow_loop.simps [code]

subsection \<open>Lists on the heap\<close>

text \<open>What a list operation leaves alone: everything but the links.\<close>

definition core :: "MallocMetadata \<Rightarrow> nat \<times> bool \<times> nat \<times> bool" where
  "core m = (size m, is_free m, address m, is_mmap m)"

definition links_only :: "md_heap \<Rightarrow> md_heap \<Rightarrow> addr set \<Rightarrow> bool" where
  "links_only h h' A \<longleftrightarrow>
     (\<forall>a. map_option core (h' a) = map_option core (h a)) \<and> (\<forall>a. a \<notin> A \<longrightarrow> h' a = h a)"

text \<open>The nodes \<open>xs\<close>, with the data right behind the metadata, are chained from \<open>p\<close> to \<open>q\<close>.\<close>

fun seg :: "md_heap \<Rightarrow> addr option \<Rightarrow> addr list \<Rightarrow> addr option \<Rightarrow> bool" where
  "seg h p [] q \<longleftrightarrow> p = q"
| "seg h p (a # xs) q \<longleftrightarrow>
     p = Some a \<and> (\<exists>m. h a = Some m \<and> address m = a + MDSZ \<and> seg h (next_md m) xs q)"

definition last_node :: "addr list \<Rightarrow> addr option" where
  "last_node xs = (if xs = [] then None else Some (last xs))"

definition md_list :: "md_heap \<Rightarrow> MDList \<Rightarrow> addr list \<Rightarrow> bool" where
  "md_list h l xs \<longleftrightarrow> seg h (head l) xs None \<and> tail l = last_node xs \<and> sorted_wrt (<) xs"

lemma seg_append [simp]: "seg h p (xs @ ys) q \<longleftrightarrow> (\<exists>r. seg h p xs r \<and> seg h r ys q)"
  by (induction h p xs q rule: seg.induct) auto

lemma seg_frame [simp]: "a \<notin> set xs \<Longrightarrow> seg (h(a := v)) p xs q = seg h p xs q"
  by (induction h p xs q rule: seg.induct) auto

lemma seg_agree:
  "seg h p xs q \<Longrightarrow> (\<And>a. a \<in> set xs \<Longrightarrow>
     map_option (\<lambda>m. (next_md m, address m)) (h' a) = map_option (\<lambda>m. (next_md m, address m)) (h a)) \<Longrightarrow>
   seg h' p xs q"
proof (induction h p xs q rule: seg.induct)
  case (2 h p a xs q)
  then obtain m where m: "p = Some a" "h a = Some m" "address m = a + MDSZ" "seg h (next_md m) xs q" by auto
  have "map_option (\<lambda>m. (next_md m, address m)) (h' a) = Some (next_md m, address m)"
    using "2.prems"(2) [of a] m(2) by simp
  then obtain m' where "h' a = Some m'" "next_md m' = next_md m" "address m' = address m" by auto
  then show ?case using m "2.IH" [OF m(4)] "2.prems"(2) by auto
qed simp

lemma seg_cell: "seg h p xs q \<Longrightarrow> a \<in> set xs \<Longrightarrow> \<exists>m. h a = Some m \<and> address m = a + MDSZ"
  by (induction h p xs q rule: seg.induct) auto

lemma seg_head: "seg h p xs None \<Longrightarrow> (p = None \<longleftrightarrow> xs = []) \<and> (xs \<noteq> [] \<longrightarrow> p = Some (hd xs))"
  by (cases xs) auto

lemma md_list_agree:
  assumes "md_list h l xs"
    "\<And>a. a \<in> set xs \<Longrightarrow>
       map_option (\<lambda>m. (next_md m, address m)) (h' a) = map_option (\<lambda>m. (next_md m, address m)) (h a)"
  shows "md_list h' l xs"
  using assms seg_agree unfolding md_list_def by blast

lemma md_list_links: "md_list h l xs \<Longrightarrow> links_only h h' A \<Longrightarrow> A \<inter> set xs = {} \<Longrightarrow> md_list h' l xs"
  by (erule md_list_agree) (auto simp: links_only_def disjoint_iff)

lemma links_only_refl [simp]: "links_only h h A"
  by (simp add: links_only_def)

lemma links_only_upd:
  "links_only h h' A \<Longrightarrow> a \<in> A \<Longrightarrow> h' a = Some m \<Longrightarrow> core m' = core m \<Longrightarrow> links_only h (h'(a \<mapsto> m')) A"
  by (auto simp: links_only_def) (metis option.simps(9))

lemma core_links [simp]: "core (m\<lparr>next_md := x\<rparr>) = core m" "core (m\<lparr>prev_md := x\<rparr>) = core m"
  by (simp_all add: core_def)

text \<open>\<open>add_loop\<close> splits the list at the address.\<close>

lemma add_loop_seg:
  assumes "seg h p xs None" "sorted_wrt (<) xs" "b \<notin> set xs"
  shows "\<exists>us vs. xs = us @ vs \<and> (\<forall>x\<in>set us. x < b) \<and> (\<forall>x\<in>set vs. b < x)
    \<and> add_loop h (b + MDSZ) prv p
      = Some (if us = [] then prv else Some (last us), if vs = [] then None else Some (hd vs))"
  using assms
proof (induction xs arbitrary: p prv)
  case Nil
  then show ?case by (auto simp: add_loop.simps)
next
  case (Cons a xs)
  then obtain m where m: "p = Some a" "h a = Some m" "address m = a + MDSZ" "seg h (next_md m) xs None"
    by auto
  show ?case
  proof (cases "b < a")
    case True
    then have "add_loop h (b + MDSZ) prv p = Some (prv, Some a)"
      using m by (simp add: add_loop.simps [of h "b + MDSZ" prv "Some a"])
    then show ?thesis using True Cons.prems(2) by (intro exI [of _ "[]"] exI [of _ "a # xs"]) auto
  next
    case False
    then have "add_loop h (b + MDSZ) prv p = add_loop h (b + MDSZ) (Some a) (next_md m)"
      using m by (simp add: add_loop.simps [of h "b + MDSZ" prv "Some a"])
    moreover obtain us vs where "xs = us @ vs" "\<forall>x\<in>set us. x < b" "\<forall>x\<in>set vs. b < x"
      "add_loop h (b + MDSZ) (Some a) (next_md m)
        = Some (if us = [] then Some a else Some (last us), if vs = [] then None else Some (hd vs))"
      using Cons.IH [OF m(4), of "Some a"] Cons.prems(2,3) by auto
    moreover have "a < b" using False Cons.prems(3) by auto
    ultimately show ?thesis by (intro exI [of _ "a # us"] exI [of _ vs]) auto
  qed
qed

lemma sorted_insert:
  "sorted_wrt (<) (us @ vs) \<Longrightarrow> \<forall>x\<in>set us. x < b \<Longrightarrow> \<forall>x\<in>set vs. b < x \<Longrightarrow> sorted_wrt (<) (us @ b # vs)"
  for b :: nat
  by (auto simp: sorted_wrt_append)

lemma last_node_snoc [simp]: "last_node (xs @ [a]) = Some a"
  by (simp add: last_node_def)


lemma md_list_Nil: "md_list h l xs \<Longrightarrow> isEmpty l \<longleftrightarrow> xs = []"
  using seg_head by (auto simp: md_list_def isEmpty_def)

lemma addMD_tail:
  assumes l: "seg h (head l) (us @ [t]) None" and md: "h md = Some m" "address m = md + MDSZ"
    "next_md m = None" "md \<notin> set (us @ [t])" and d: "distinct (us @ [t])"
  shows "\<exists>mt. h t = Some mt \<and>
    seg (h(t \<mapsto> mt\<lparr>next_md := Some md\<rparr>, md \<mapsto> m\<lparr>prev_md := Some t\<rparr>)) (head l) (us @ [t] @ [md]) None"
  using assms by auto

lemma addMD_mid:
  assumes l: "seg h p (us @ [t] @ n # vs) None" and md: "h md = Some m" "address m = md + MDSZ"
    "md \<notin> set (us @ [t] @ n # vs)" and d: "distinct (us @ [t] @ n # vs)"
  shows "\<exists>mt mn. h t = Some mt \<and> h n = Some mn \<and>
    seg (h(t \<mapsto> mt\<lparr>next_md := Some md\<rparr>, md \<mapsto> m\<lparr>prev_md := Some t, next_md := Some n\<rparr>,
      n \<mapsto> mn\<lparr>prev_md := Some md\<rparr>)) p (us @ [t] @ md # n # vs) None"
  using assms by auto

text \<open>What \<open>addMD\<close> has to do: \<open>ys\<close> is the new list.\<close>

definition added_to :: "md_heap \<Rightarrow> MDList \<Rightarrow> addr \<Rightarrow> addr list \<Rightarrow> bool" where
  "added_to h l md ys \<longleftrightarrow> (\<exists>h' l'. addMD h l md = Some (h', l') \<and> md_list h' l' ys \<and> links_only h h' (set ys))"

lemma addMD_last:
  assumes l: "md_list h l (us @ [t])" and md: "h md = Some m" "address m = md + MDSZ" "next_md m = None" "md \<notin> set (us @ [t])"
    and a: "add_loop h (address m) None (head l) = Some (Some t, None)" and srt: "sorted_wrt (<) (us @ [t, md])"
  shows "added_to h l md (us @ [t, md])"
proof -
  have sg: "seg h (head l) (us @ [t]) None" and d: "distinct (us @ [t])"
    using l by (auto simp: md_list_def strict_sorted_iff simp del: seg.simps seg_append)
  obtain mt where t: "h t = Some mt"
    "seg (h(t \<mapsto> mt\<lparr>next_md := Some md\<rparr>, md \<mapsto> m\<lparr>prev_md := Some t\<rparr>)) (head l) (us @ [t] @ [md]) None"
    using addMD_tail [OF sg md d] by blast
  let ?h = "h(t \<mapsto> mt\<lparr>next_md := Some md\<rparr>, md \<mapsto> m\<lparr>prev_md := Some t\<rparr>)"
  have "t \<noteq> md" using md(4) by auto
  then have "addMD h l md = Some (?h, l\<lparr>tail := Some md\<rparr>)"
    using md_list_Nil [OF l] md(1) a t(1) by (simp add: addMD_def isNull_def)
  moreover have "md_list ?h (l\<lparr>tail := Some md\<rparr>) (us @ [t, md])"
    using t(2) srt by (simp add: md_list_def last_node_def)
  moreover have "links_only h ?h (set (us @ [t, md]))"
    using t(1) md(1) \<open>t \<noteq> md\<close>
    by (intro links_only_upd [where m = m] links_only_upd [where m = mt] links_only_refl) auto
  ultimately show ?thesis unfolding added_to_def by blast
qed

lemma addMD_first:
  assumes l: "md_list h l (n # ws)" and md: "h md = Some m" "address m = md + MDSZ" "md \<notin> set (n # ws)"
    and a: "add_loop h (address m) None (head l) = Some (None, Some n)" and srt: "sorted_wrt (<) (md # n # ws)"
  shows "added_to h l md (md # n # ws)"
proof -
  let ?h = "h(md \<mapsto> m\<lparr>next_md := head l\<rparr>)"
  have hd: "head l = Some n" using l by (simp add: md_list_def)
  then have "addMD h l md = Some (?h, l\<lparr>head := Some md\<rparr>)"
    using md_list_Nil [OF l] md(1) a by (simp add: addMD_def isNull_def)
  moreover have "md_list ?h (l\<lparr>head := Some md\<rparr>) (md # n # ws)"
    using l md srt hd by (auto simp: md_list_def last_node_def)
  moreover have "links_only h ?h (set (md # n # ws))"
    using md(1) by (intro links_only_upd [where m = m] links_only_refl) auto
  ultimately show ?thesis unfolding added_to_def by blast
qed

lemma addMD_between:
  assumes l: "md_list h l (us @ [t] @ n # ws)" and md: "h md = Some m" "address m = md + MDSZ" "md \<notin> set (us @ [t] @ n # ws)"
    and a: "add_loop h (address m) None (head l) = Some (Some t, Some n)" and srt: "sorted_wrt (<) (us @ [t] @ md # n # ws)"
  shows "added_to h l md (us @ [t] @ md # n # ws)"
proof -
  have sg: "seg h (head l) (us @ [t] @ n # ws) None" and d: "distinct (us @ [t] @ n # ws)"
    using l by (auto simp: md_list_def strict_sorted_iff simp del: seg.simps seg_append)
  obtain mt mn where t: "h t = Some mt" "h n = Some mn"
    "seg (h(t \<mapsto> mt\<lparr>next_md := Some md\<rparr>, md \<mapsto> m\<lparr>prev_md := Some t, next_md := Some n\<rparr>,
       n \<mapsto> mn\<lparr>prev_md := Some md\<rparr>)) (head l) (us @ [t] @ md # n # ws) None"
    using addMD_mid [OF sg md d] by blast
  let ?h = "h(t \<mapsto> mt\<lparr>next_md := Some md\<rparr>, md \<mapsto> m\<lparr>prev_md := Some t, next_md := Some n\<rparr>,
       n \<mapsto> mn\<lparr>prev_md := Some md\<rparr>)"
  have dd: "t \<noteq> md" "n \<noteq> md" "t \<noteq> n" using md(3) d by auto
  have "Some n \<noteq> head l" using sg d by (cases us) auto
  then have "addMD h l md = Some (?h, l)"
    using md_list_Nil [OF l] md(1) a t(1,2) dd by (simp add: addMD_def isNull_def)
  moreover have "md_list ?h l (us @ [t] @ md # n # ws)"
    using l t(3) srt by (simp add: md_list_def last_node_def)
  moreover have "links_only h ?h (set (us @ [t] @ md # n # ws))"
    using t(1,2) md(1) dd
    by (intro links_only_upd [where m = mn] links_only_upd [where m = m] links_only_upd [where m = mt]
        links_only_refl) auto
  ultimately show ?thesis unfolding added_to_def by blast
qed

lemma addMD_ok:
  assumes l: "md_list h l xs" and md: "h md = Some m" "address m = md + MDSZ" "next_md m = None" "md \<notin> set xs"
  shows "\<exists>h' l' ys. addMD h l md = Some (h', l') \<and> md_list h' l' ys \<and> set ys = insert md (set xs)
    \<and> links_only h h' (insert md (set xs))"
proof (cases "xs = []")
  case True
  then have "addMD h l md = Some (h, \<lparr>head = Some md, tail = Some md\<rparr>)"
    using md_list_Nil [OF l] by (simp add: addMD_def)
  moreover have "md_list h \<lparr>head = Some md, tail = Some md\<rparr> [md]"
    using md by (simp add: md_list_def last_node_def)
  ultimately show ?thesis using True by (intro exI conjI) auto
next
  case False
  have sg: "seg h (head l) xs None" and so: "sorted_wrt (<) xs" using l by (auto simp: md_list_def)
  obtain us vs where s: "xs = us @ vs" "\<forall>x\<in>set us. x < md" "\<forall>x\<in>set vs. md < x"
    "add_loop h (address m) None (head l)
      = Some (if us = [] then None else Some (last us), if vs = [] then None else Some (hd vs))"
    using add_loop_seg [OF sg so md(4)] md(2) by metis
  have srt: "sorted_wrt (<) (us @ md # vs)" using sorted_insert [OF _ s(2,3)] so s(1) by simp
  have "added_to h l md (us @ md # vs)"
  proof (cases us rule: rev_cases)
    case Nil
    then obtain n ws where "vs = n # ws" using False s(1) by (cases vs) auto
    then show ?thesis using addMD_first [of h l n ws md m] l md s srt Nil by simp
  next
    case (snoc us' t)
    then show ?thesis
      using addMD_last [of h l us' t md m] addMD_between [of h l us' t _ _ md m] l md s srt
      by (cases vs) simp_all
  qed
  moreover have "set (us @ md # vs) = insert md (set xs)" using s(1) by auto
  ultimately show ?thesis unfolding added_to_def by metis
qed


text \<open>\<open>del_loop\<close> finds the node, or comes to the end of the list.\<close>

lemma del_loop_seg:
  assumes "seg h p (us @ b # vs) None" "b \<notin> set us"
  shows "del_loop h (b + MDSZ) prv p = Some (if us = [] then prv else Some (last us), Some b)"
  using assms
proof (induction us arbitrary: p prv)
  case Nil
  then show ?case by (auto simp: del_loop.simps [of h "b + MDSZ" prv])
next
  case (Cons a us)
  then obtain m where m: "p = Some a" "h a = Some m" "address m = a + MDSZ" "seg h (next_md m) (us @ b # vs) None"
    by auto
  have "del_loop h (b + MDSZ) prv p = del_loop h (b + MDSZ) (Some a) (next_md m)"
    using m Cons.prems(2) by (simp add: del_loop.simps [of h "b + MDSZ" prv])
  then show ?case using Cons.IH [OF m(4), of "Some a"] Cons.prems(2) by simp
qed

lemma del_loop_absent:
  assumes "seg h p xs None" "b \<notin> set xs"
  shows "\<exists>prv'. del_loop h (b + MDSZ) prv p = Some (prv', None)"
  using assms
proof (induction xs arbitrary: p prv)
  case Nil
  then show ?case by (simp add: del_loop.simps)
next
  case (Cons a xs)
  then obtain m where m: "p = Some a" "h a = Some m" "address m = a + MDSZ" "seg h (next_md m) xs None"
    by auto
  then show ?case using Cons.IH [OF m(4), of "Some a"] Cons.prems(2)
    by (simp add: del_loop.simps [of h "b + MDSZ" prv])
qed

lemma delMD_absent:
  assumes "md_list h l xs" "h md = Some m" "address m = md + MDSZ" "md \<notin> set xs"
  shows "delMD h l md = Some (h, l)"
  using assms del_loop_absent [of h "head l" xs md None]
  by (auto simp: delMD_def md_list_def isNull_def)

text \<open>Unlinking the node; its own links are cleared.\<close>

lemma unlink_mid:
  assumes "seg h p (us @ [t] @ b # n # vs) None" "distinct (us @ [t] @ b # n # vs)"
  shows "\<exists>mt mb mn. h t = Some mt \<and> h b = Some mb \<and> h n = Some mn \<and> next_md mb = Some n \<and>
    seg (h(t \<mapsto> mt\<lparr>next_md := Some n\<rparr>, n \<mapsto> mn\<lparr>prev_md := Some t\<rparr>,
      b \<mapsto> mb\<lparr>prev_md := None, next_md := None\<rparr>)) p (us @ [t] @ n # vs) None"
  using assms by auto

lemma unlink_tail:
  assumes "seg h p (us @ [t] @ [b]) None" "distinct (us @ [t] @ [b])"
  shows "\<exists>mt mb. h t = Some mt \<and> h b = Some mb \<and>
    seg (h(t \<mapsto> mt\<lparr>next_md := None\<rparr>, b \<mapsto> mb\<lparr>prev_md := None, next_md := None\<rparr>)) p (us @ [t]) None"
  using assms by auto

lemma unlink_head:
  assumes "seg h (Some b) (b # n # vs) None" "distinct (b # n # vs)"
  shows "\<exists>mb mn. h b = Some mb \<and> h n = Some mn \<and> next_md mb = Some n \<and>
    seg (h(n \<mapsto> mn\<lparr>prev_md := None\<rparr>, b \<mapsto> mb\<lparr>prev_md := None, next_md := None\<rparr>)) (Some n) (n # vs) None"
  using assms by auto

text \<open>What \<open>delMD\<close> has to do: \<open>ys\<close> is the list that is left, and the node has no successor.\<close>

definition deleted_from :: "md_heap \<Rightarrow> MDList \<Rightarrow> addr \<Rightarrow> addr list \<Rightarrow> bool" where
  "deleted_from h l b ys \<longleftrightarrow> (\<exists>h' l' m. delMD h l b = Some (h', l') \<and> md_list h' l' ys
     \<and> links_only h h' (insert b (set ys)) \<and> h' b = Some (m\<lparr>prev_md := None, next_md := None\<rparr>))"

lemma delMD_facts:
  assumes "md_list h l (us @ b # vs)"
  shows "seg h (head l) (us @ b # vs) None" "tail l = last_node (us @ b # vs)" "distinct (us @ b # vs)"
    "sorted_wrt (<) (us @ vs)" "\<not> isEmpty l"
    "h b = Some m \<Longrightarrow> del_loop h (address m) None (head l) = Some (if us = [] then None else Some (last us), Some b)"
proof -
  show s: "seg h (head l) (us @ b # vs) None" and "tail l = last_node (us @ b # vs)" and d: "distinct (us @ b # vs)"
    and "sorted_wrt (<) (us @ vs)"
    using assms by (auto simp: md_list_def strict_sorted_iff sorted_wrt_append simp del: seg.simps seg_append)
  show "\<not> isEmpty l" using md_list_Nil [OF assms] by simp
  show "del_loop h (address m) None (head l) = Some (if us = [] then None else Some (last us), Some b)" if "h b = Some m"
    using del_loop_seg [OF s, of None] seg_cell [OF s, of b] that d by auto
qed

lemma delMD_only:
  assumes l: "md_list h l [b]" shows "deleted_from h l b []"
proof -
  have l': "md_list h l ([] @ b # [])" using l by simp
  note f = delMD_facts [OF l']
  obtain m where m: "h b = Some m" using seg_cell [of h "head l" "[b]" None b] l by (auto simp: md_list_def)
  let ?h = "h(b \<mapsto> m\<lparr>prev_md := None, next_md := None\<rparr>)"
  have "delMD h l b = Some (?h, \<lparr>head = None, tail = None\<rparr>)"
    using f(1,2,5) f(6) [OF m] m by (auto simp: delMD_def isNull_def isAlmostEmpty_def last_node_def)
  moreover have "links_only h ?h (insert b (set []))"
    using m by (intro links_only_upd [where m = m] links_only_refl) auto
  moreover have "md_list ?h \<lparr>head = None, tail = None\<rparr> []" by (simp add: md_list_def last_node_def)
  moreover have "?h b = Some (m\<lparr>prev_md := None, next_md := None\<rparr>)" by simp
  ultimately show ?thesis unfolding deleted_from_def by blast
qed

lemma delMD_first:
  assumes l: "md_list h l (b # n # ws)" shows "deleted_from h l b (n # ws)"
proof -
  have l': "md_list h l ([] @ b # n # ws)" using l by simp
  note f = delMD_facts [OF l']
  have hd: "head l = Some b" and d: "distinct (b # n # ws)" using f(1,3) by auto
  obtain m mn where n: "h b = Some m" "h n = Some mn" "next_md m = Some n"
    "seg (h(n \<mapsto> mn\<lparr>prev_md := None\<rparr>, b \<mapsto> m\<lparr>prev_md := None, next_md := None\<rparr>)) (Some n) (n # ws) None"
    using unlink_head [OF _ d, of h] f(1) hd by auto
  let ?h = "h(n \<mapsto> mn\<lparr>prev_md := None\<rparr>, b \<mapsto> m\<lparr>prev_md := None, next_md := None\<rparr>)"
  have nb: "n \<noteq> b" using d by auto
  have "last_node (b # n # ws) \<noteq> Some b" using d by (auto simp: last_node_def)
  then have "delMD h l b = Some (?h, l\<lparr>head := Some n\<rparr>)"
    using f(2,5) f(6) [OF n(1)] hd n(1-3) nb by (auto simp: delMD_def isNull_def isAlmostEmpty_def)
  moreover have "md_list ?h (l\<lparr>head := Some n\<rparr>) (n # ws)"
    using n(4) f(2,4) by (simp add: md_list_def last_node_def)
  moreover have "links_only h ?h (insert b (set (n # ws)))"
    using n(1,2) nb by (intro links_only_upd [where m = m] links_only_upd [where m = mn] links_only_refl) auto
  moreover have "?h b = Some (m\<lparr>prev_md := None, next_md := None\<rparr>)" by simp
  ultimately show ?thesis unfolding deleted_from_def by blast
qed

lemma delMD_last:
  assumes l: "md_list h l (us @ [t] @ [b])" shows "deleted_from h l b (us @ [t])"
proof -
  have l': "md_list h l ((us @ [t]) @ b # [])" using l by simp
  note f = delMD_facts [OF l']
  have d: "distinct (us @ [t] @ [b])" and nh: "head l \<noteq> Some b" using f(1,3) by (cases us; auto)+
  obtain mt m where t: "h t = Some mt" "h b = Some m"
    "seg (h(t \<mapsto> mt\<lparr>next_md := None\<rparr>, b \<mapsto> m\<lparr>prev_md := None, next_md := None\<rparr>)) (head l) (us @ [t]) None"
    using unlink_tail [OF _ d, of h "head l"] f(1) by auto
  let ?h = "h(t \<mapsto> mt\<lparr>next_md := None\<rparr>, b \<mapsto> m\<lparr>prev_md := None, next_md := None\<rparr>)"
  have tb: "t \<noteq> b" using d by auto
  then have "delMD h l b = Some (?h, l\<lparr>tail := Some t\<rparr>)"
    using f(2,5) f(6) [OF t(2)] nh t(1,2) by (auto simp: delMD_def isNull_def last_node_def)
  moreover have "md_list ?h (l\<lparr>tail := Some t\<rparr>) (us @ [t])"
    using t(3) f(4) by (simp add: md_list_def)
  moreover have "links_only h ?h (insert b (set (us @ [t])))"
    using t(1,2) tb by (intro links_only_upd [where m = m] links_only_upd [where m = mt] links_only_refl) auto
  moreover have "?h b = Some (m\<lparr>prev_md := None, next_md := None\<rparr>)" by simp
  ultimately show ?thesis unfolding deleted_from_def by blast
qed

lemma delMD_between:
  assumes l: "md_list h l (us @ [t] @ b # n # ws)" shows "deleted_from h l b (us @ [t] @ n # ws)"
proof -
  have l': "md_list h l ((us @ [t]) @ b # n # ws)" using l by simp
  note f = delMD_facts [OF l']
  have d: "distinct (us @ [t] @ b # n # ws)" and nh: "head l \<noteq> Some b" using f(1,3) by (cases us; auto)+
  obtain mt m mn where t: "h t = Some mt" "h b = Some m" "h n = Some mn" "next_md m = Some n"
    "seg (h(t \<mapsto> mt\<lparr>next_md := Some n\<rparr>, n \<mapsto> mn\<lparr>prev_md := Some t\<rparr>,
      b \<mapsto> m\<lparr>prev_md := None, next_md := None\<rparr>)) (head l) (us @ [t] @ n # ws) None"
    using unlink_mid [OF _ d, of h "head l"] f(1) by auto
  let ?h = "h(t \<mapsto> mt\<lparr>next_md := Some n\<rparr>, n \<mapsto> mn\<lparr>prev_md := Some t\<rparr>,
      b \<mapsto> m\<lparr>prev_md := None, next_md := None\<rparr>)"
  have tb: "t \<noteq> b" "n \<noteq> b" "t \<noteq> n" using d by auto
  have "last_node ((us @ [t]) @ b # n # ws) \<noteq> Some b" using d by (auto simp: last_node_def)
  then have "delMD h l b = Some (?h, l)"
    using f(2,5) f(6) [OF t(2)] nh t(1-4) tb by (auto simp: delMD_def isNull_def)
  moreover have "md_list ?h l (us @ [t] @ n # ws)"
    using t(5) f(2,4) by (simp add: md_list_def last_node_def)
  moreover have "links_only h ?h (insert b (set (us @ [t] @ n # ws)))"
    using t(1-3) tb
    by (intro links_only_upd [where m = m] links_only_upd [where m = mn] links_only_upd [where m = mt]
        links_only_refl) auto
  moreover have "?h b = Some (m\<lparr>prev_md := None, next_md := None\<rparr>)" by simp
  ultimately show ?thesis unfolding deleted_from_def by blast
qed

lemma delMD_ok:
  assumes l: "md_list h l xs" and b: "b \<in> set xs"
  shows "\<exists>h' l' ys mb. delMD h l b = Some (h', l') \<and> md_list h' l' ys \<and> set ys = set xs - {b}
    \<and> links_only h h' (set xs) \<and> h' b = Some mb \<and> next_md mb = None"
proof -
  obtain us vs where x: "xs = us @ b # vs" using split_list [OF b] by blast
  have "distinct xs" using l by (simp add: md_list_def strict_sorted_iff)
  then have st: "set (us @ vs) = set xs - {b}" "insert b (set (us @ vs)) = set xs" using x by auto
  have "deleted_from h l b (us @ vs)"
  proof (cases us rule: rev_cases)
    case Nil
    then show ?thesis using delMD_only [of h l b] delMD_first [of h l b] l x by (cases vs) auto
  next
    case (snoc us' t)
    then show ?thesis using delMD_last [of h l us' t b] delMD_between [of h l us' t b] l x by (cases vs) auto
  qed
  then obtain h' l' m where r: "delMD h l b = Some (h', l')" "md_list h' l' (us @ vs)"
      "links_only h h' (set xs)" "h' b = Some (m\<lparr>prev_md := None, next_md := None\<rparr>)"
    unfolding deleted_from_def st(2) by blast
  show ?thesis by (intro exI conjI) (rule r st(1) | simp add: r(4))+
qed

subsection \<open>The blocks behind the lists\<close>

text \<open>
  The specification's view: which blocks there are, with their order and whether they are free, and
  which mappings, with their sizes.
\<close>

type_synonym blocks = "addr \<rightharpoonup> nat \<times> bool"
type_synonym mappings = "addr \<rightharpoonup> nat"

definition bsz :: "nat \<Rightarrow> nat" where "bsz k = 128 * 2 ^ k"

definition of_order :: "blocks \<Rightarrow> nat \<Rightarrow> addr set" where
  "of_order bl k = {a. \<exists>f. bl a = Some (k, f)}"

definition md_set :: "md_heap \<Rightarrow> MDList \<Rightarrow> addr set \<Rightarrow> bool" where
  "md_set h l S \<longleftrightarrow> (\<exists>xs. md_list h l xs \<and> set xs = S)"

definition buddy_rep :: "buddy \<Rightarrow> blocks \<Rightarrow> mappings \<Rightarrow> bool" where
  "buddy_rep st bl mp \<longleftrightarrow>
     length (mdListArr st) = Suc MAX_ORDER
     \<and> (\<forall>k \<le> MAX_ORDER. md_set (mem st) (mdListArr st ! k) (of_order bl k))
     \<and> md_set (mem st) (mappedList st) (dom mp)
     \<and> (\<forall>a k f. bl a = Some (k, f) \<longrightarrow>
          k \<le> MAX_ORDER \<and> map_option core (mem st a) = Some (bsz k, f, a + MDSZ, False))
     \<and> (\<forall>a s. mp a = Some s \<longrightarrow> map_option core (mem st a) = Some (s, False, a + MDSZ, True))
     \<and> dom bl \<inter> dom mp = {} \<and> \<not> firstMalloc st"

lemma blocksSizesArr_nth:
  assumes "k \<le> MAX_ORDER" shows "blocksSizesArr ! k = bsz k"
proof -
  have "k = 0 \<or> k = 1 \<or> k = 2 \<or> k = 3 \<or> k = 4 \<or> k = 5 \<or> k = 6 \<or> k = 7 \<or> k = 8 \<or> k = 9 \<or> k = 10"
    using assms unfolding MAX_ORDER_def by arith
  then show ?thesis by (elim disjE) (simp_all add: blocksSizesArr_def bsz_def)
qed

lemma bsz_inj: "bsz i = bsz j \<longleftrightarrow> i = j"
  by (simp add: bsz_def)

lemma findSizeIndex_bsz:
  assumes "k \<le> MAX_ORDER" shows "findSizeIndexInList (bsz k) = Some k"
  unfolding findSizeIndexInList_def find_Some_iff
  using assms by (intro exI [of _ k]) (auto simp: blocksSizesArr_nth bsz_inj nth_append)

lemma SIZE_128K_bsz: "SIZE_128K = bsz MAX_ORDER"
  by (simp add: SIZE_128K_def bsz_def MAX_ORDER_def)

lemma md_set_links: "md_set h l S \<Longrightarrow> links_only h h' A \<Longrightarrow> A \<inter> S = {} \<Longrightarrow> md_set h' l S"
  unfolding md_set_def using md_list_links by blast

lemma md_set_upd:
  assumes "md_set h l S" "a \<notin> S \<or> (\<exists>m. h a = Some m \<and> next_md m' = next_md m \<and> address m' = address m)"
  shows "md_set (h(a \<mapsto> m')) l S"
proof -
  obtain xs where xs: "md_list h l xs" "set xs = S" using assms(1) by (auto simp: md_set_def)
  have "md_list (h(a \<mapsto> m')) l xs" by (rule md_list_agree [OF xs(1)]) (use assms(2) xs(2) in auto)
  then show ?thesis using xs(2) by (auto simp: md_set_def)
qed

lemma md_set_add:
  assumes "md_set h l S" "h a = Some m" "address m = a + MDSZ" "next_md m = None" "a \<notin> S"
  shows "\<exists>h' l'. addMD h l a = Some (h', l') \<and> md_set h' l' (insert a S) \<and> links_only h h' (insert a S)"
proof -
  obtain xs where xs: "md_list h l xs" "set xs = S" using assms(1) by (auto simp: md_set_def)
  then show ?thesis using addMD_ok [OF xs(1) assms(2-4)] assms(5) by (auto simp: md_set_def)
qed

lemma md_set_del:
  assumes "md_set h l S" "a \<in> S"
  shows "\<exists>h' l' m. delMD h l a = Some (h', l') \<and> md_set h' l' (S - {a}) \<and> links_only h h' S
    \<and> h' a = Some m \<and> next_md m = None"
proof -
  obtain xs where xs: "md_list h l xs" "set xs = S" using assms(1) by (auto simp: md_set_def)
  then show ?thesis using delMD_ok [OF xs(1), of a] assms(2) by (auto simp: md_set_def)
qed

lemma md_set_del_absent:
  assumes "md_set h l S" "h a = Some m" "address m = a + MDSZ" "a \<notin> S"
  shows "delMD h l a = Some (h, l)"
proof -
  obtain xs where "md_list h l xs" "set xs = S" using assms(1) by (auto simp: md_set_def)
  then show ?thesis using delMD_absent assms(2-4) by auto
qed

lemma of_order_upd:
  "of_order (bl(a \<mapsto> (k, f))) j = (if j = k then insert a (of_order bl j) else of_order bl j - {a})"
  by (auto simp: of_order_def)

lemma of_order_del: "of_order (bl(a := None)) j = of_order bl j - {a}"
  by (auto simp: of_order_def)

lemma of_order_dom: "of_order bl k \<subseteq> dom bl"
  by (auto simp: of_order_def)

lemma coreD: "map_option core x = Some (s, f, a, p) \<Longrightarrow>
  \<exists>m. x = Some m \<and> size m = s \<and> is_free m = f \<and> address m = a \<and> is_mmap m = p"
  by (cases x) (auto simp: core_def)

lemma repD:
  assumes "buddy_rep st bl mp"
  shows "length (mdListArr st) = Suc MAX_ORDER"
    "k \<le> MAX_ORDER \<Longrightarrow> md_set (mem st) (mdListArr st ! k) (of_order bl k)"
    "md_set (mem st) (mappedList st) (dom mp)"
    "bl a = Some (k, f) \<Longrightarrow> k \<le> MAX_ORDER"
    "bl a = Some (k, f) \<Longrightarrow> map_option core (mem st a) = Some (bsz k, f, a + MDSZ, False)"
    "mp a = Some s \<Longrightarrow> map_option core (mem st a) = Some (s, False, a + MDSZ, True)"
    "dom bl \<inter> dom mp = {}" "\<not> firstMalloc st"
  using assms unfolding buddy_rep_def by blast+

lemma repI:
  assumes "length (mdListArr st) = Suc MAX_ORDER"
    "\<And>k. k \<le> MAX_ORDER \<Longrightarrow> md_set (mem st) (mdListArr st ! k) (of_order bl k)"
    "md_set (mem st) (mappedList st) (dom mp)"
    "\<And>a k f. bl a = Some (k, f) \<Longrightarrow> k \<le> MAX_ORDER"
    "\<And>a k f. bl a = Some (k, f) \<Longrightarrow> map_option core (mem st a) = Some (bsz k, f, a + MDSZ, False)"
    "\<And>a s. mp a = Some s \<Longrightarrow> map_option core (mem st a) = Some (s, False, a + MDSZ, True)"
    "dom bl \<inter> dom mp = {}" "\<not> firstMalloc st"
  shows "buddy_rep st bl mp"
  using assms unfolding buddy_rep_def by blast

text \<open>A cell that belongs to no block may be written freely.\<close>

lemma rep_write:
  assumes "buddy_rep st bl mp" "a \<notin> dom bl" "a \<notin> dom mp"
  shows "buddy_rep (st\<lparr>mem := (mem st)(a \<mapsto> m)\<rparr>) bl mp"
proof (rule repI)
  note D = repD [OF assms(1)]
  show "md_set (mem (st\<lparr>mem := (mem st)(a \<mapsto> m)\<rparr>)) (mdListArr (st\<lparr>mem := (mem st)(a \<mapsto> m)\<rparr>) ! k) (of_order bl k)"
    if "k \<le> MAX_ORDER" for k
    using D(2) [OF that] assms(2) of_order_dom by (auto intro!: md_set_upd)
qed (use repD [OF assms(1)] assms(2,3) in \<open>auto intro!: md_set_upd\<close>)

lemma rep_add:
  assumes rep: "buddy_rep st bl mp" and i: "i \<le> MAX_ORDER" and a: "a \<notin> dom bl" "a \<notin> dom mp"
    and m: "mem st a = Some m" "core m = (bsz i, f, a + MDSZ, False)" "next_md m = None"
  shows "\<exists>st'. list_add st i a = Some st' \<and> buddy_rep st' (bl(a \<mapsto> (i, f))) mp \<and> bytes st' = bytes st
    \<and> (\<forall>x. x \<notin> insert a (dom bl) \<longrightarrow> mem st' x = mem st x)"
proof -
  note D = repD [OF rep]
  have "a \<notin> of_order bl i" using a(1) of_order_dom by blast
  then obtain h l where hl: "addMD (mem st) (mdListArr st ! i) a = Some (h, l)"
    "md_set h l (insert a (of_order bl i))" "links_only (mem st) h (insert a (of_order bl i))"
    using md_set_add [OF D(2) [OF i] m(1) _ m(3)] m(2) by (auto simp: core_def)
  let ?st = "st\<lparr>mem := h, mdListArr := (mdListArr st)[i := l]\<rparr>"
  have c: "map_option core (h x) = map_option core (mem st x)" for x using hl(3) by (simp add: links_only_def)
  have "list_add st i a = Some ?st" using hl(1) D(1) i by (simp add: list_add_def)
  moreover have "buddy_rep ?st (bl(a \<mapsto> (i, f))) mp"
  proof (rule repI)
    fix k assume k: "k \<le> MAX_ORDER"
    show "md_set (mem ?st) (mdListArr ?st ! k) (of_order (bl(a \<mapsto> (i, f))) k)"
    proof (cases "k = i")
      case True
      then show ?thesis using hl(2) D(1) i by (simp add: of_order_upd)
    next
      case False
      have "a \<notin> of_order bl k" using a(1) of_order_dom by blast
      then have "insert a (of_order bl i) \<inter> of_order bl k = {}" using False by (auto simp: of_order_def)
      then have "md_set h (mdListArr st ! k) (of_order bl k)"
        using md_set_links [OF D(2) [OF k] hl(3)] by blast
      then show ?thesis using False \<open>a \<notin> of_order bl k\<close> by (simp add: of_order_upd)
    qed
  next
    have "insert a (of_order bl i) \<inter> dom mp = {}" using a(2) D(7) of_order_dom [of bl i] by blast
    then show "md_set (mem ?st) (mappedList ?st) (dom mp)" using md_set_links [OF D(3) hl(3)] by simp
  qed (use D i a m c in \<open>auto split: if_splits\<close>)
  moreover have "mem ?st x = mem st x" if "x \<notin> insert a (dom bl)" for x
    using hl(3) that of_order_dom [of bl i] by (auto simp: links_only_def)
  ultimately show ?thesis by auto
qed

lemma rep_del:
  assumes rep: "buddy_rep st bl mp" and b: "bl a = Some (i, f)"
  shows "\<exists>st' m. list_del st i a = Some st' \<and> buddy_rep st' (bl(a := None)) mp \<and> bytes st' = bytes st
    \<and> mem st' a = Some m \<and> core m = (bsz i, f, a + MDSZ, False) \<and> next_md m = None
    \<and> (\<forall>x. x \<notin> dom bl \<longrightarrow> mem st' x = mem st x)"
proof -
  note D = repD [OF rep]
  have i: "i \<le> MAX_ORDER" using D(4) [OF b] .
  have "a \<in> of_order bl i" using b by (auto simp: of_order_def)
  then obtain h l m where hl: "delMD (mem st) (mdListArr st ! i) a = Some (h, l)"
    "md_set h l (of_order bl i - {a})" "links_only (mem st) h (of_order bl i)" "h a = Some m" "next_md m = None"
    using md_set_del [OF D(2) [OF i]] by blast
  let ?st = "st\<lparr>mem := h, mdListArr := (mdListArr st)[i := l]\<rparr>"
  have c: "map_option core (h x) = map_option core (mem st x)" for x using hl(3) by (simp add: links_only_def)
  have "list_del st i a = Some ?st" using hl(1) D(1) i by (simp add: list_del_def)
  moreover have "buddy_rep ?st (bl(a := None)) mp"
  proof (rule repI)
    fix k assume k: "k \<le> MAX_ORDER"
    show "md_set (mem ?st) (mdListArr ?st ! k) (of_order (bl(a := None)) k)"
    proof (cases "k = i")
      case True
      then show ?thesis using hl(2) D(1) i by (simp add: of_order_del)
    next
      case False
      then have "of_order bl i \<inter> of_order bl k = {}" "a \<notin> of_order bl k" using b by (auto simp: of_order_def)
      then have "md_set h (mdListArr st ! k) (of_order bl k)"
        using md_set_links [OF D(2) [OF k] hl(3)] by blast
      then show ?thesis using False \<open>a \<notin> of_order bl k\<close> by (simp add: of_order_del)
    qed
  next
    have "of_order bl i \<inter> dom mp = {}" using D(7) of_order_dom [of bl i] by blast
    then show "md_set (mem ?st) (mappedList ?st) (dom mp)" using md_set_links [OF D(3) hl(3)] by simp
  qed (use D i c in \<open>auto split: if_splits\<close>)
  moreover have "core m = (bsz i, f, a + MDSZ, False)" using c [of a] D(5) [OF b] hl(4) by simp
  moreover have "mem ?st x = mem st x" if "x \<notin> dom bl" for x
    using hl(3) that of_order_dom [of bl i] by (auto simp: links_only_def)
  ultimately show ?thesis using hl(4,5) by auto
qed

lemma rep_set_free:
  assumes rep: "buddy_rep st bl mp" and b: "bl a = Some (i, f)" and m: "mem st a = Some m"
  shows "buddy_rep (st\<lparr>mem := (mem st)(a \<mapsto> m\<lparr>is_free := f'\<rparr>)\<rparr>) (bl(a \<mapsto> (i, f'))) mp"
proof (rule repI)
  note D = repD [OF rep]
  have o: "of_order (bl(a \<mapsto> (i, f'))) k = of_order bl k" for k
    using b by (auto simp: of_order_def)
  show "md_set (mem (st\<lparr>mem := (mem st)(a \<mapsto> m\<lparr>is_free := f'\<rparr>)\<rparr>))
      (mdListArr (st\<lparr>mem := (mem st)(a \<mapsto> m\<lparr>is_free := f'\<rparr>)\<rparr>) ! k) (of_order (bl(a \<mapsto> (i, f'))) k)"
    if "k \<le> MAX_ORDER" for k
    unfolding o using D(2) [OF that] m by (auto intro!: md_set_upd)
  show "md_set (mem (st\<lparr>mem := (mem st)(a \<mapsto> m\<lparr>is_free := f'\<rparr>)\<rparr>))
      (mappedList (st\<lparr>mem := (mem st)(a \<mapsto> m\<lparr>is_free := f'\<rparr>)\<rparr>)) (dom mp)"
    using D(3) m by (auto intro!: md_set_upd)
  show "map_option core (mem (st\<lparr>mem := (mem st)(a \<mapsto> m\<lparr>is_free := f'\<rparr>)\<rparr>) x) = Some (bsz k, g, x + MDSZ, False)"
    if "(bl(a \<mapsto> (i, f'))) x = Some (k, g)" for x k g
    using that D(5) [OF b] D(5) [of x k g] m by (auto simp: core_def split: if_splits)
qed (use repD [OF rep] b in \<open>auto split: if_splits\<close>)


subsection \<open>Tilings\<close>

text \<open>
  The arena of \<open>N\<close> blocks of the largest order from \<open>B\<close> on is divided into blocks aligned to their
  size: every byte is in exactly one of them.
\<close>

definition covers :: "blocks \<Rightarrow> addr \<Rightarrow> nat \<Rightarrow> bool" where
  "covers bl a x \<longleftrightarrow> (\<exists>k f. bl a = Some (k, f) \<and> a \<le> x \<and> x < a + bsz k)"

definition tiling :: "nat \<Rightarrow> nat \<Rightarrow> blocks \<Rightarrow> bool" where
  "tiling B N bl \<longleftrightarrow>
     bsz MAX_ORDER dvd B
     \<and> (\<forall>a k f. bl a = Some (k, f) \<longrightarrow>
          k \<le> MAX_ORDER \<and> bsz k dvd a \<and> B \<le> a \<and> a + bsz k \<le> B + N * bsz MAX_ORDER)
     \<and> (\<forall>x. B \<le> x \<and> x < B + N * bsz MAX_ORDER \<longrightarrow> (\<exists>!a. covers bl a x))"

lemma bsz_pos [simp]: "0 < bsz k" "bsz k \<noteq> 0" by (simp_all add: bsz_def)

lemma bsz_Suc: "bsz (Suc k) = 2 * bsz k" by (simp add: bsz_def)

lemma bsz_mono: "i \<le> j \<Longrightarrow> bsz i \<le> bsz j" by (simp add: bsz_def power_increasing)

lemma bsz_less: "i < j \<longleftrightarrow> bsz i < bsz j" by (simp add: bsz_def)

lemma bsz_dvd: "i \<le> j \<Longrightarrow> bsz i dvd bsz j" by (simp add: bsz_def le_imp_power_dvd)

lemma tilingD:
  assumes "tiling B N bl" "bl a = Some (k, f)"
  shows "k \<le> MAX_ORDER" "bsz k dvd a" "B \<le> a" "a + bsz k \<le> B + N * bsz MAX_ORDER"
  using assms unfolding tiling_def by blast+

lemma tiling_base: "tiling B N bl \<Longrightarrow> bsz MAX_ORDER dvd B"
  by (simp add: tiling_def)

lemma tiling_ex1:
  "tiling B N bl \<Longrightarrow> B \<le> x \<Longrightarrow> x < B + N * bsz MAX_ORDER \<Longrightarrow> \<exists>!a. covers bl a x"
  by (simp add: tiling_def)

lemma tilingI:
  assumes "bsz MAX_ORDER dvd B"
    "\<And>a k f. bl a = Some (k, f) \<Longrightarrow>
       k \<le> MAX_ORDER \<and> bsz k dvd a \<and> B \<le> a \<and> a + bsz k \<le> B + N * bsz MAX_ORDER"
    "\<And>x. B \<le> x \<Longrightarrow> x < B + N * bsz MAX_ORDER \<Longrightarrow> \<exists>!a. covers bl a x"
  shows "tiling B N bl"
  using assms unfolding tiling_def by blast

lemma tiling_uniq:
  assumes "tiling B N bl" "bl a = Some (k, f)" "a \<le> x" "x < a + bsz k" "covers bl b x"
  shows "b = a"
proof -
  have "B \<le> x" "x < B + N * bsz MAX_ORDER" using tilingD [OF assms(1,2)] assms(3,4) by auto
  moreover have "covers bl a x" using assms(2-4) by (auto simp: covers_def)
  ultimately show ?thesis using tiling_ex1 [OF assms(1)] assms(5) by blast
qed

text \<open>Two blocks do not overlap.\<close>

lemma tiling_disjoint:
  assumes "tiling B N bl" "bl a = Some (k, f)" "bl b = Some (j, g)" "a < b"
  shows "a + bsz k \<le> b"
proof (rule ccontr)
  assume "\<not> a + bsz k \<le> b"
  then have "covers bl b b" "b < a + bsz k" using assms(3) by (auto simp: covers_def)
  then show False using tiling_uniq [OF assms(1,2), of b b] assms(4) by simp
qed

lemma tiling_flag:
  assumes "tiling B N bl" "bl a = Some (k, f)" shows "tiling B N (bl(a \<mapsto> (k, g)))"
proof -
  have "covers (bl(a \<mapsto> (k, g))) = covers bl" using assms(2) by (auto simp: covers_def fun_eq_iff)
  then show ?thesis using assms by (auto simp: tiling_def split: if_splits)
qed

lemma upper_half_absent:
  assumes "tiling B N bl" "bl a = Some (Suc i, f)" shows "bl (a + bsz i) = None"
proof (rule ccontr)
  assume "bl (a + bsz i) \<noteq> None"
  then obtain k g where "bl (a + bsz i) = Some (k, g)" by auto
  from tiling_disjoint [OF assms this] show False by (simp add: bsz_Suc)
qed

lemma covers_split:
  assumes "bl a = Some (Suc i, f)" "bl (a + bsz i) = None"
  shows "covers (bl(a \<mapsto> (i, g), a + bsz i \<mapsto> (i, g'))) c x \<longleftrightarrow>
    (if covers bl a x then c = (if x < a + bsz i then a else a + bsz i) \<or> (c \<noteq> a \<and> covers bl c x)
     else covers bl c x)"
  using assms by (auto simp: covers_def bsz_Suc split: if_splits)

lemma tiling_split:
  assumes t: "tiling B N bl" and a: "bl a = Some (Suc i, f)"
  shows "tiling B N (bl(a \<mapsto> (i, g), a + bsz i \<mapsto> (i, g')))"
proof -
  note D = tilingD [OF t a]
  note abs = upper_half_absent [OF t a]
  have al: "bsz i dvd a" "bsz i dvd a + bsz i" using D(2) bsz_dvd [of i "Suc i"] by (auto dest: dvd_trans)
  have ex1: "\<exists>!c. covers (bl(a \<mapsto> (i, g), a + bsz i \<mapsto> (i, g'))) c x"
    if x: "B \<le> x" "x < B + N * bsz MAX_ORDER" for x
  proof (cases "covers bl a x")
    case True
    then have "covers bl c x \<longleftrightarrow> c = a" for c using tiling_ex1 [OF t x] by auto
    then show ?thesis using True by (auto simp: covers_split [OF a abs])
  next
    case False
    then show ?thesis using tiling_ex1 [OF t x] by (simp add: covers_split [OF a abs])
  qed
  show ?thesis
  proof (rule tilingI [OF tiling_base [OF t] _ ex1])
    fix c k h assume "(bl(a \<mapsto> (i, g), a + bsz i \<mapsto> (i, g'))) c = Some (k, h)"
    then consider "c = a" "k = i" | "c = a + bsz i" "k = i" | "bl c = Some (k, h)" by (auto split: if_splits)
    then show "k \<le> MAX_ORDER \<and> bsz k dvd c \<and> B \<le> c \<and> c + bsz k \<le> B + N * bsz MAX_ORDER"
    proof cases
      case 3
      then show ?thesis using tilingD [OF t] by blast
    qed (use D al in \<open>simp_all add: bsz_Suc\<close>)
  qed
qed

lemma tiling_merge:
  assumes t: "tiling B N bl" and a: "bl a = Some (i, f)" "bl (a + bsz i) = Some (i, f')"
    and al: "bsz (Suc i) dvd a" "i < MAX_ORDER"
  shows "tiling B N (bl(a + bsz i := None, a \<mapsto> (Suc i, g)))"
proof -
  note D = tilingD [OF t a(1)] note E = tilingD [OF t a(2)]
  have cov: "covers (bl(a + bsz i := None, a \<mapsto> (Suc i, g))) c x \<longleftrightarrow>
      (if covers bl a x \<or> covers bl (a + bsz i) x then c = a \<or> (c \<noteq> a + bsz i \<and> covers bl c x)
       else covers bl c x)" for c x
    using a by (auto simp: covers_def bsz_Suc split: if_splits)
  have ex1: "\<exists>!c. covers (bl(a + bsz i := None, a \<mapsto> (Suc i, g))) c x"
    if x: "B \<le> x" "x < B + N * bsz MAX_ORDER" for x
  proof (cases "covers bl a x \<or> covers bl (a + bsz i) x")
    case True
    then have "covers bl c x \<Longrightarrow> c = a \<or> c = a + bsz i" for c using tiling_ex1 [OF t x] by auto
    then show ?thesis using True by (auto simp: cov)
  next
    case False
    then show ?thesis using tiling_ex1 [OF t x] by (simp add: cov)
  qed
  show ?thesis
  proof (rule tilingI [OF tiling_base [OF t] _ ex1])
    fix c k h assume "(bl(a + bsz i := None, a \<mapsto> (Suc i, g))) c = Some (k, h)"
    then consider "c = a" "k = Suc i" | "bl c = Some (k, h)" by (auto split: if_splits)
    then show "k \<le> MAX_ORDER \<and> bsz k dvd c \<and> B \<le> c \<and> c + bsz k \<le> B + N * bsz MAX_ORDER"
    proof cases
      case 2
      then show ?thesis using tilingD [OF t] by blast
    qed (use D E al in \<open>simp_all add: bsz_Suc\<close>)
  qed
qed

subsection \<open>Buddies\<close>

lemma xor_pow: "(q * 2 ^ n) XOR 2 ^ n = (if even q then (q + 1) * 2 ^ n else (q - 1) * 2 ^ n)" for q n :: nat
proof -
  have "(q * 2 ^ n) XOR 2 ^ n = push_bit n q XOR push_bit n 1" by (simp add: push_bit_eq_mult)
  also have "\<dots> = push_bit n (q XOR 1)" by (simp only: push_bit_xor)
  also have "q XOR 1 = (if even q then q + 1 else q - 1)" by (simp add: xor_Suc_0_eq One_nat_def)
  finally show ?thesis by (simp add: push_bit_eq_mult)
qed

lemma bsz_pow: "bsz k = 2 ^ (k + 7)" by (simp add: bsz_def power_add)

lemma buddy_xor:
  assumes "bsz k dvd a"
  shows "a XOR bsz k = (if bsz (Suc k) dvd a then a + bsz k else a - bsz k)
    \<and> (\<not> bsz (Suc k) dvd a \<longrightarrow> bsz k \<le> a \<and> bsz (Suc k) dvd a - bsz k)"
proof -
  obtain q where q: "a = q * bsz k" using assms by (metis dvd_def mult.commute)
  have e: "bsz (Suc k) dvd q * bsz k \<longleftrightarrow> even q" by (simp add: bsz_Suc)
  have o: "bsz k \<le> q * bsz k \<and> bsz (Suc k) dvd q * bsz k - bsz k" if "odd q"
  proof -
    from that obtain r where "q = 2 * r + 1" by (rule oddE)
    then show ?thesis by (simp add: bsz_Suc)
  qed
  have "a XOR bsz k = (if even q then (q + 1) * bsz k else (q - 1) * bsz k)"
    unfolding q bsz_pow by (rule xor_pow)
  then show ?thesis unfolding q e using o by (simp add: add_mult_distrib diff_mult_distrib)
qed

lemma dvd_gap: "m dvd p \<Longrightarrow> m dvd q \<Longrightarrow> q < p + m \<Longrightarrow> q \<le> p" for m p q :: nat
proof (elim dvdE)
  fix i j assume pq: "p = m * i" "q = m * j" and "q < p + m"
  then have "m * j < m * Suc i" by simp
  then have "j < Suc i" by (rule mult_less_cancel1 [THEN iffD1, THEN conjunct2])
  then show "q \<le> p" using pq by simp
qed

text \<open>The pair of a block and its buddy starts at a multiple of twice the size.\<close>

definition pair_start :: "addr \<Rightarrow> nat \<Rightarrow> addr" where
  "pair_start a k = (if bsz (Suc k) dvd a then a else a - bsz k)"

lemma pair_start_facts:
  assumes "bsz k dvd a"
  shows "bsz (Suc k) dvd pair_start a k" "pair_start a k \<le> a" "pair_start a k \<le> a XOR bsz k"
    "a < pair_start a k + bsz (Suc k)" "a XOR bsz k < pair_start a k + bsz (Suc k)"
    "bsz k dvd a XOR bsz k" "a XOR bsz k \<noteq> a"
    "pair_start a k = min a (a XOR bsz k)" "max a (a XOR bsz k) = pair_start a k + bsz k"
proof -
  have pos: "0 < bsz k" by simp
  note x = buddy_xor [OF assms]
  show "bsz k dvd a XOR bsz k" using x assms by auto
  show "bsz (Suc k) dvd pair_start a k" using x by (simp add: pair_start_def)
  show "pair_start a k \<le> a" "pair_start a k \<le> a XOR bsz k" "pair_start a k = min a (a XOR bsz k)"
    "max a (a XOR bsz k) = pair_start a k + bsz k" using x by (auto simp: pair_start_def)
  show "a < pair_start a k + bsz (Suc k)" "a XOR bsz k < pair_start a k + bsz (Suc k)" "a XOR bsz k \<noteq> a"
    using x pos by (auto simp: pair_start_def bsz_Suc simp del: bsz_pos(1))
qed

lemma pair_in_arena:
  assumes t: "tiling B N bl" and a: "bl a = Some (k, f)" "k < MAX_ORDER"
  shows "B \<le> pair_start a k \<and> pair_start a k + bsz (Suc k) \<le> B + N * bsz MAX_ORDER"
proof -
  note D = tilingD [OF t a(1)] note p = pair_start_facts [OF D(2)]
  have big: "bsz (Suc k) dvd bsz MAX_ORDER" using a(2) by (intro bsz_dvd) simp
  have b: "bsz (Suc k) dvd B" using big tiling_base [OF t] by (rule dvd_trans)
  then have e: "bsz (Suc k) dvd B + N * bsz MAX_ORDER" using big by simp
  have "B \<le> pair_start a k" using dvd_gap [OF p(1) b] D(3) p(4) by simp
  moreover have "pair_start a k + bsz (Suc k) \<le> B + N * bsz MAX_ORDER"
    using dvd_gap [OF p(1) e] D(4) p(2) bsz_pos(1) [of k] by (meson add_le_same_cancel1 leD le_trans not_le)
  ultimately show ?thesis ..
qed

text \<open>The buddy of a block is the start of a block too, of the same or of a smaller order.\<close>

lemma buddy_block:
  assumes t: "tiling B N bl" and a: "bl a = Some (k, f)" "k < MAX_ORDER"
  shows "\<exists>j g. bl (a XOR bsz k) = Some (j, g) \<and> j \<le> k"
proof -
  note D = tilingD [OF t a(1)] note p = pair_start_facts [OF D(2)] note ar = pair_in_arena [OF t a]
  let ?b = "a XOR bsz k"
  have "B \<le> ?b" "?b < B + N * bsz MAX_ORDER" using ar p(3,5) by auto
  from tiling_ex1 [OF t this] obtain c where "covers bl c ?b" by (elim ex1E)
  then obtain j g where c: "bl c = Some (j, g)" "c \<le> ?b" "?b < c + bsz j" by (auto simp: covers_def)
  note C = tilingD [OF t c(1)]
  have "j \<le> k"
  proof (rule ccontr)
    assume "\<not> j \<le> k"
    then have d: "bsz (Suc k) dvd bsz j" by (intro bsz_dvd) simp
    have al: "bsz (Suc k) dvd c" using d C(2) by (rule dvd_trans)
    then have al2: "bsz (Suc k) dvd c + bsz j" using d by (rule dvd_add)
    have "c \<le> pair_start a k" using dvd_gap [OF p(1) al] c(2) p(5) by simp
    moreover have "pair_start a k < c + bsz j" using c(3) p(3) by simp
    then have "pair_start a k + bsz (Suc k) \<le> c + bsz j" using dvd_gap [OF p(1) al2] by (meson not_le)
    ultimately have "c \<le> a" "a < c + bsz j" using p(2,4) by auto
    moreover have "covers bl a a" using a(1) by (simp add: covers_def)
    ultimately have "a = c" using tiling_uniq [OF t c(1)] by blast
    then show False using a(1) c(1) \<open>\<not> j \<le> k\<close> by simp
  qed
  moreover have "bsz j dvd ?b" using bsz_dvd [OF \<open>j \<le> k\<close>] p(6) by (rule dvd_trans)
  then have "?b = c" using dvd_gap [OF C(2), of ?b] c(2,3) by simp
  ultimately show ?thesis using c(1) by blast
qed


subsection \<open>Finding and splitting a block\<close>

definition free_at :: "blocks \<Rightarrow> nat \<Rightarrow> addr set" where
  "free_at bl k = {a. bl a = Some (k, True)}"

lemma find_free_seg:
  assumes "seg h p xs None"
  shows "find_free_loop h p n =
    Some (find (\<lambda>a. case h a of None \<Rightarrow> False | Some m \<Rightarrow> is_free m \<and> n \<le> size m) xs)"
  using assms
proof (induction xs arbitrary: p)
  case Nil
  then show ?case by (simp add: find_free_loop.simps)
next
  case (Cons a xs)
  then obtain m where "p = Some a" "h a = Some m" "seg h (next_md m) xs None" by auto
  then show ?case using Cons.IH by (simp add: find_free_loop.simps [of h "Some a"])
qed

lemma sorted_find:
  fixes a :: nat
  assumes "sorted_wrt (<) xs" "find P xs = Some a"
  shows "a \<in> set xs \<and> P a \<and> (\<forall>b\<in>set xs. P b \<longrightarrow> a \<le> b)"
  using assms by (induction xs) (auto split: if_splits)

text \<open>The search in one list: the lowest free block of the order, marked as used.\<close>

lemma find_rep:
  assumes rep: "buddy_rep st bl mp" and i: "i \<le> MAX_ORDER" "sz \<le> bsz i"
  shows "free_at bl i = {} \<and> findFreeSizedBlock (mem st) (mdListArr st ! i) sz = Some (None, mem st)
    \<or> (\<exists>a m. a \<in> free_at bl i \<and> (\<forall>b\<in>free_at bl i. a \<le> b) \<and> mem st a = Some m
        \<and> findFreeSizedBlock (mem st) (mdListArr st ! i) sz
          = Some (Some (a + MDSZ), (mem st)(a \<mapsto> m\<lparr>is_free := False\<rparr>)))"
proof -
  note D = repD [OF rep]
  obtain xs where xs: "md_list (mem st) (mdListArr st ! i) xs" "set xs = of_order bl i"
    using D(2) [OF i(1)] by (auto simp: md_set_def)
  let ?P = "\<lambda>a. case mem st a of None \<Rightarrow> False | Some m \<Rightarrow> is_free m \<and> sz \<le> size m"
  have P: "?P a \<longleftrightarrow> a \<in> free_at bl i" if ax: "a \<in> set xs" for a
  proof -
    obtain f where f: "bl a = Some (i, f)" using ax unfolding xs(2) of_order_def by blast
    from coreD [OF D(5) [OF f]] show ?thesis using f i(2) by (auto simp: free_at_def)
  qed
  have sub: "free_at bl i \<subseteq> set xs" unfolding xs(2) by (auto simp: free_at_def of_order_def)
  have loop: "find_free_loop (mem st) (head (mdListArr st ! i)) sz = Some (find ?P xs)"
    using xs(1) by (intro find_free_seg) (simp add: md_list_def)
  show ?thesis
  proof (cases "find ?P xs")
    case None
    then have "free_at bl i = {}" using P sub by (auto simp: find_None_iff)
    then show ?thesis using loop None by (simp add: findFreeSizedBlock_def)
  next
    case (Some a)
    have s: "sorted_wrt (<) xs" using xs(1) by (simp add: md_list_def)
    from sorted_find [OF s Some] have a: "a \<in> set xs" "?P a" "\<forall>b\<in>set xs. ?P b \<longrightarrow> a \<le> b" by blast+
    then have fa: "a \<in> free_at bl i" "\<forall>b\<in>free_at bl i. a \<le> b" using P sub by blast+
    from coreD [OF D(5) [of a i True]] obtain m where "mem st a = Some m" "address m = a + MDSZ"
      using fa(1) by (auto simp: free_at_def)
    then show ?thesis using fa loop Some by (auto simp: findFreeSizedBlock_def)
  qed
qed

text \<open>The upper halves that \<open>n\<close> rounds of splitting add.\<close>

fun add_halves :: "blocks \<Rightarrow> addr \<Rightarrow> nat \<Rightarrow> nat \<Rightarrow> blocks" where
  "add_halves bl a k 0 = bl"
| "add_halves bl a 0 (Suc n) = bl"
| "add_halves bl a (Suc i) (Suc n) = add_halves (bl(a + bsz i \<mapsto> (i, True))) a i n"

definition split_blocks :: "blocks \<Rightarrow> addr \<Rightarrow> nat \<Rightarrow> nat \<Rightarrow> blocks" where
  "split_blocks bl a k n = (add_halves bl a k n)(a \<mapsto> (k - n, False))"

lemma bsz_add_ne [simp]: "a + bsz i \<noteq> a" "a \<noteq> a + bsz i"
  using bsz_pos(1) [of i] by (simp_all del: bsz_pos(1))

lemma split_blocks_upd: "split_blocks (bl(a := v)) a k n = split_blocks bl a k n"
  unfolding split_blocks_def
proof (induction n arbitrary: bl k)
  case (Suc n)
  show ?case
  proof (cases k)
    case (Suc i)
    have "(bl(a := v))(a + bsz i \<mapsto> (i, True)) = (bl(a + bsz i \<mapsto> (i, True)))(a := v)"
      by (rule fun_upd_twist) simp
    then show ?thesis using Suc.IH [of "bl(a + bsz i \<mapsto> (i, True))" i] Suc
      by (simp del: fun_upd_apply)
  qed (simp add: fun_upd_def fun_eq_iff)
qed (simp add: fun_upd_def fun_eq_iff)

lemma split_blocks_Suc:
  "split_blocks bl a (Suc i) (Suc n) = split_blocks (bl(a + bsz i \<mapsto> (i, True))) a i n"
  by (simp add: split_blocks_def)

lemma tiling_split_blocks:
  assumes "tiling B N bl" "bl a = Some (k, f)" "n \<le> k"
  shows "tiling B N (split_blocks bl a k n)"
  using assms
proof (induction n arbitrary: bl k f)
  case 0
  then show ?case using tiling_flag [OF 0(1,2), of False] by (simp add: split_blocks_def del: fun_upd_apply)
next
  case (Suc n)
  then obtain i where i: "k = Suc i" by (cases k) auto
  have t: "tiling B N (bl(a \<mapsto> (i, f), a + bsz i \<mapsto> (i, True)))"
    using tiling_split [OF Suc.prems(1)] Suc.prems(2) i by simp
  have "split_blocks bl a k (Suc n) = split_blocks (bl(a \<mapsto> (i, f), a + bsz i \<mapsto> (i, True))) a i n"
    using i split_blocks_upd [of "bl(a + bsz i \<mapsto> (i, True))" a "Some (i, f)"]
    by (simp add: split_blocks_Suc fun_upd_twist)
  moreover have "tiling B N (split_blocks (bl(a \<mapsto> (i, f), a + bsz i \<mapsto> (i, True))) a i n)"
    by (rule Suc.IH [OF t, where f = f]) (use Suc.prems(3) i in auto)
  ultimately show ?case by (simp del: fun_upd_apply)
qed

lemma add_halves_other:
  "(\<And>j. k - n \<le> j \<Longrightarrow> j < k \<Longrightarrow> x \<noteq> a + bsz j) \<Longrightarrow> add_halves bl a k n x = bl x"
proof (induction n arbitrary: bl k)
  case (Suc n)
  show ?case
  proof (cases k)
    case (Suc i)
    then have "x \<noteq> a + bsz i" using Suc.prems [of i] by simp
    moreover have "add_halves (bl(a + bsz i \<mapsto> (i, True))) a i n x = (bl(a + bsz i \<mapsto> (i, True))) x"
      by (rule Suc.IH) (use Suc.prems Suc in auto)
    ultimately show ?thesis using Suc by simp
  qed simp
qed simp

text \<open>The other blocks are as before.\<close>

lemma split_blocks_other:
  assumes "tiling B N bl" "bl a = Some (k, f)" "n \<le> k" "x \<noteq> a" "bl x = Some y"
  shows "split_blocks bl a k n x = Some y"
proof -
  have "x \<noteq> a + bsz j" if "j < k" for j
  proof
    assume x: "x = a + bsz j"
    have "a < x" "x < a + bsz k" using x that bsz_less [of j k] by auto
    then show False using tiling_disjoint [OF assms(1,2), of x] assms(5) by (cases y) auto
  qed
  then show ?thesis using assms(4,5) add_halves_other [of k n x a bl] by (simp add: split_blocks_def)
qed

lemma split_loop_rep:
  assumes "buddy_rep st bl mp" "a \<notin> dom bl" "mem st a = Some m" "k \<le> MAX_ORDER" "n \<le> k"
    "\<And>j. k - n \<le> j \<Longrightarrow> j < k \<Longrightarrow> a + bsz j \<notin> dom bl \<and> a + bsz j \<notin> dom mp"
  shows "\<exists>st'. split_loop st a k n = Some (st', k - n) \<and> buddy_rep st' (add_halves bl a k n) mp
    \<and> mem st' a = Some m \<and> bytes st' = bytes st"
  using assms
proof (induction n arbitrary: st bl k)
  case 0
  then show ?case by simp
next
  case (Suc n)
  then obtain i where i: "k = Suc i" by (cases k) auto
  let ?b = "a + bsz i"
  let ?m = "\<lparr>size = bsz i, is_free = True, next_md = None, prev_md = None, address = ?b + MDSZ, is_mmap = False\<rparr>"
  have b: "?b \<notin> dom bl" "?b \<notin> dom mp" using Suc.prems(6) [of i] i by auto
  have r1: "buddy_rep (st\<lparr>mem := (mem st)(?b \<mapsto> ?m)\<rparr>) bl mp" using rep_write [OF Suc.prems(1) b] .
  obtain st2 where s2: "list_add (st\<lparr>mem := (mem st)(?b \<mapsto> ?m)\<rparr>) i ?b = Some st2"
    "buddy_rep st2 (bl(?b \<mapsto> (i, True))) mp" "bytes st2 = bytes st"
    "\<forall>x. x \<notin> insert ?b (dom bl) \<longrightarrow> mem st2 x = ((mem st)(?b \<mapsto> ?m)) x"
    using rep_add [OF r1 _ b, of i ?m True] Suc.prems(4) i by (auto simp: core_def)
  have m2: "mem st2 a = Some m" "a \<notin> dom (bl(?b \<mapsto> (i, True)))"
    using s2(4) Suc.prems(2,3) by auto
  have fr: "a + bsz j \<notin> dom (bl(?b \<mapsto> (i, True))) \<and> a + bsz j \<notin> dom mp" if "i - n \<le> j" "j < i" for j
    using Suc.prems(6) [of j] that i bsz_inj [of j i] by auto
  have "i \<le> MAX_ORDER" "n \<le> i" using Suc.prems(4,5) i by auto
  from Suc.IH [OF s2(2) m2(2,1) this fr] obtain st' where
    "split_loop st2 a i n = Some (st', i - n)" "buddy_rep st' (add_halves (bl(?b \<mapsto> (i, True))) a i n) mp"
    "mem st' a = Some m" "bytes st' = bytes st2" by blast
  moreover have "blocksSizesArr ! i = bsz i" using Suc.prems(4) i by (intro blocksSizesArr_nth) simp
  ultimately show ?case using s2(1,3) i by (simp add: metaDataInit_def Let_def del: fun_upd_apply)
qed


text \<open>Blocks and mappings: the arena is tiled and no mapping starts inside it.\<close>

definition arena_ok :: "nat \<Rightarrow> nat \<Rightarrow> blocks \<Rightarrow> mappings \<Rightarrow> bool" where
  "arena_ok B N bl mp \<longleftrightarrow> tiling B N bl \<and> (\<forall>x\<in>dom mp. x < B \<or> B + N * bsz MAX_ORDER \<le> x)"

lemma inner_fresh:
  assumes "arena_ok B N bl mp" "bl a = Some (k, f)" "j < k"
  shows "a + bsz j \<notin> dom bl" "a + bsz j \<notin> dom mp"
proof -
  have t: "tiling B N bl" using assms(1) by (simp add: arena_ok_def)
  have in_a: "a < a + bsz j" "a + bsz j < a + bsz k" using bsz_less [of j k] assms(3) by auto
  show "a + bsz j \<notin> dom bl"
  proof
    assume "a + bsz j \<in> dom bl"
    then obtain i g where "bl (a + bsz j) = Some (i, g)" by auto
    from tiling_disjoint [OF t assms(2) this in_a(1)] in_a(2) show False by simp
  qed
  have "B \<le> a + bsz j" "a + bsz j < B + N * bsz MAX_ORDER" using tilingD(3,4) [OF t assms(2)] in_a by auto
  then show "a + bsz j \<notin> dom mp" using assms(1) unfolding arena_ok_def by (meson leD)
qed

lemma split_rep:
  assumes rep: "buddy_rep st bl mp" and ok: "arena_ok B N bl mp" and a: "bl a = Some (k, False)" and n: "n \<le> k"
  shows "\<exists>st'. splitBlocks_ChallengeZero st a k n = Some st' \<and> buddy_rep st' (split_blocks bl a k n) mp
    \<and> bytes st' = bytes st"
proof (cases "n = 0")
  case True
  have "bl(a \<mapsto> (k, False)) = bl" using a by auto
  then show ?thesis using True rep by (simp add: splitBlocks_ChallengeZero_def split_blocks_def del: fun_upd_apply)
next
  case False
  note D = repD [OF rep]
  have k: "k \<le> MAX_ORDER" using D(4) [OF a] .
  obtain st1 m where s1: "list_del st k a = Some st1" "buddy_rep st1 (bl(a := None)) mp" "bytes st1 = bytes st"
    "mem st1 a = Some m" "core m = (bsz k, False, a + MDSZ, False)"
    using rep_del [OF rep a] by blast
  have fr: "a + bsz j \<notin> dom (bl(a := None)) \<and> a + bsz j \<notin> dom mp" if "k - n \<le> j" "j < k" for j
    using inner_fresh [OF ok a that(2)] by auto
  obtain st2 where s2: "split_loop st1 a k n = Some (st2, k - n)"
    "buddy_rep st2 (add_halves (bl(a := None)) a k n) mp" "mem st2 a = Some m" "bytes st2 = bytes st1"
    using split_loop_rep [OF s1(2) _ s1(4) k n fr] by auto
  have out: "a \<notin> dom (add_halves (bl(a := None)) a k n)" "a \<notin> dom mp"
    using add_halves_other [of k n a a "bl(a := None)"] a D(7) by (auto simp: domIff)
  let ?m = "\<lparr>size = bsz (k - n), is_free = False, next_md = None, prev_md = None, address = a + MDSZ, is_mmap = False\<rparr>"
  have kn: "k - n \<le> MAX_ORDER" using k by simp
  obtain st3 where s3: "list_add (st2\<lparr>mem := (mem st2)(a \<mapsto> ?m)\<rparr>) (k - n) a = Some st3"
    "buddy_rep st3 ((add_halves (bl(a := None)) a k n)(a \<mapsto> (k - n, False))) mp" "bytes st3 = bytes st2"
    using rep_add [OF rep_write [OF s2(2) out, of ?m] kn out, of ?m False] by (auto simp: core_def)
  have "address m = a + MDSZ" using s1(5) by (simp add: core_def)
  then have "splitBlocks_ChallengeZero st a k n = Some st3"
    using False s1(1) s2(1,3) s3(1) blocksSizesArr_nth [OF kn]
    by (simp add: splitBlocks_ChallengeZero_def metaDataInit_def del: fun_upd_apply)
  then show ?thesis using s3(2,3) s2(4) s1(3) split_blocks_upd [of bl a None k n]
    by (simp add: split_blocks_def del: fun_upd_apply)
qed

text \<open>One round of the search over the orders that finds a block.\<close>

lemma take_rep:
  assumes rep: "buddy_rep st bl mp" and ok: "arena_ok B N bl mp" and a: "a \<in> free_at bl k" and n: "n \<le> k"
    and m: "mem st a = Some m"
  shows "\<exists>st' h. splitBlocks_ChallengeZero (st\<lparr>mem := (mem st)(a \<mapsto> m\<lparr>is_free := False\<rparr>)\<rparr>) a k n = Some st'
    \<and> upd (mem st') (Some a) (\<lambda>x. x\<lparr>is_free := False\<rparr>) = Some h
    \<and> buddy_rep (st'\<lparr>mem := h\<rparr>) (split_blocks bl a k n) mp \<and> bytes st' = bytes st"
proof -
  have b: "bl a = Some (k, True)" using a by (simp add: free_at_def)
  have r1: "buddy_rep (st\<lparr>mem := (mem st)(a \<mapsto> m\<lparr>is_free := False\<rparr>)\<rparr>) (bl(a \<mapsto> (k, False))) mp"
    using rep_set_free [OF rep b m] .
  have ok1: "arena_ok B N (bl(a \<mapsto> (k, False))) mp" using ok tiling_flag [of B N bl a k True False] b
    by (simp add: arena_ok_def del: fun_upd_apply)
  obtain st' where s: "splitBlocks_ChallengeZero (st\<lparr>mem := (mem st)(a \<mapsto> m\<lparr>is_free := False\<rparr>)\<rparr>) a k n = Some st'"
    "buddy_rep st' (split_blocks bl a k n) mp" "bytes st' = bytes st"
    using split_rep [OF r1 ok1 fun_upd_same n] split_blocks_upd [of bl a "Some (k, False)" k n]
    by (auto simp del: fun_upd_apply)
  have sb: "split_blocks bl a k n a = Some (k - n, False)" by (simp add: split_blocks_def)
  obtain m' where m': "mem st' a = Some m'" using repD(5) [OF s(2) sb] by auto
  have "(split_blocks bl a k n)(a \<mapsto> (k - n, False)) = split_blocks bl a k n" by (simp add: split_blocks_def)
  then show ?thesis using s m' rep_set_free [OF s(2) sb m', of False] by (simp del: fun_upd_apply)
qed

text \<open>A round of the search that finds a block.\<close>

lemma exact_loop_found:
  assumes "buddy_rep st bl mp" "arena_ok B N bl mp" "sz \<le> bsz i" "i \<le> MAX_ORDER" "a \<in> free_at bl i" "mem st a = Some m"
    "findFreeSizedBlock (mem st) (mdListArr st ! i) sz = Some (Some (a + MDSZ), (mem st)(a \<mapsto> m\<lparr>is_free := False\<rparr>))"
  shows "\<exists>st'. exact_loop (Suc r) st sz i (i - j) = Some (Some (a + MDSZ), st')
    \<and> buddy_rep st' (split_blocks bl a i (i - j)) mp \<and> bytes st' = bytes st"
proof -
  have sz: "blocksSizesArr ! i \<ge> sz" using blocksSizesArr_nth [OF assms(4)] assms(3) by simp
  obtain st' h where s: "splitBlocks_ChallengeZero (st\<lparr>mem := (mem st)(a \<mapsto> m\<lparr>is_free := False\<rparr>)\<rparr>) a i (i - j) = Some st'"
    "upd (mem st') (Some a) (\<lambda>x. x\<lparr>is_free := False\<rparr>) = Some h"
    "buddy_rep (st'\<lparr>mem := h\<rparr>) (split_blocks bl a i (i - j)) mp" "bytes st' = bytes st"
    using take_rep [OF assms(1,2,5) _ assms(6), of "i - j"] by auto
  have "exact_loop (Suc r) st sz i (i - j) = Some (Some (a + MDSZ), st'\<lparr>mem := h\<rparr>)"
    using sz assms(7) s(1,2) by (simp add: Let_def del: upd.simps fun_upd_apply)
  then show ?thesis using s(3,4) by (auto simp del: exact_loop.simps)
qed

text \<open>The search from order \<open>i\<close> on, \<open>j\<close> being the smallest order that is large enough.\<close>

lemma exact_loop_rep:
  assumes rep: "buddy_rep st bl mp" and ok: "arena_ok B N bl mp" and j: "sz \<le> bsz j" "j \<le> i"
    and i: "i + r = Suc MAX_ORDER"
  shows "(\<forall>k. i \<le> k \<and> k \<le> MAX_ORDER \<longrightarrow> free_at bl k = {}) \<and> exact_loop r st sz i (i - j) = Some (None, st)
    \<or> (\<exists>k a st'. i \<le> k \<and> k \<le> MAX_ORDER \<and> (\<forall>l. i \<le> l \<and> l < k \<longrightarrow> free_at bl l = {})
        \<and> a \<in> free_at bl k \<and> (\<forall>b\<in>free_at bl k. a \<le> b)
        \<and> exact_loop r st sz i (i - j) = Some (Some (a + MDSZ), st')
        \<and> buddy_rep st' (split_blocks bl a k (k - j)) mp \<and> bytes st' = bytes st)"
  using j(2) i
proof (induction r arbitrary: i)
  case 0
  then show ?case by auto
next
  case (Suc r)
  have im: "i \<le> MAX_ORDER" using Suc.prems(2) by simp
  have si: "sz \<le> bsz i" using j(1) bsz_mono [OF Suc.prems(1)] by simp
  then have sz: "blocksSizesArr ! i \<ge> sz" using blocksSizesArr_nth [OF im] by simp
  from find_rep [OF rep im si] show ?case
  proof (elim disjE exE conjE)
    assume none: "free_at bl i = {}"
      "findFreeSizedBlock (mem st) (mdListArr st ! i) sz = Some (None, mem st)"
    have eq: "exact_loop (Suc r) st sz i (i - j) = exact_loop r st sz (Suc i) (Suc i - j)"
      using sz none(2) Suc.prems(1) by (simp add: Suc_diff_le)
    have le: "i \<le> l \<longleftrightarrow> l = i \<or> Suc i \<le> l" for l by auto
    have "j \<le> Suc i" "Suc i + r = Suc MAX_ORDER" using Suc.prems by auto
    from Suc.IH [OF this] show ?thesis
    proof (elim disjE exE conjE)
      assume "\<forall>k. Suc i \<le> k \<and> k \<le> MAX_ORDER \<longrightarrow> free_at bl k = {}"
        "exact_loop r st sz (Suc i) (Suc i - j) = Some (None, st)"
      then show ?thesis using eq none(1) by (intro disjI1) (auto simp: le simp del: exact_loop.simps)
    next
      fix k a st' assume f: "Suc i \<le> k" "k \<le> MAX_ORDER" "\<forall>l. Suc i \<le> l \<and> l < k \<longrightarrow> free_at bl l = {}"
        "a \<in> free_at bl k" "\<forall>b\<in>free_at bl k. a \<le> b"
        "exact_loop r st sz (Suc i) (Suc i - j) = Some (Some (a + MDSZ), st')"
        "buddy_rep st' (split_blocks bl a k (k - j)) mp" "bytes st' = bytes st"
      have "i \<le> k" "\<forall>l. i \<le> l \<and> l < k \<longrightarrow> free_at bl l = {}" using f(1,3) none(1) by (auto simp: le)
      then show ?thesis using f(2,4-8) eq
        by (intro disjI2 exI [of _ k] exI [of _ a] exI [of _ st']) (simp del: exact_loop.simps)
    qed
  next
    fix a m assume found: "a \<in> free_at bl i" "\<forall>b\<in>free_at bl i. a \<le> b" "mem st a = Some m"
      "findFreeSizedBlock (mem st) (mdListArr st ! i) sz
        = Some (Some (a + MDSZ), (mem st)(a \<mapsto> m\<lparr>is_free := False\<rparr>))"
    from exact_loop_found [OF rep ok si im found(1,3,4), of r j] show ?thesis
      using found(1,2) im by (elim exE conjE, intro disjI2 exI [of _ i] exI [of _ a]) (auto simp del: exact_loop.simps)
  qed
qed


text \<open>The whole search: \<open>need\<close> is the smallest order whose blocks are large enough.\<close>

definition need :: "nat \<Rightarrow> nat" where
  "need sz = (LEAST j. sz \<le> bsz j)"

lemma needI: "sz \<le> bsz k \<Longrightarrow> sz \<le> bsz (need sz) \<and> need sz \<le> k"
  unfolding need_def by (auto intro: LeastI Least_le)

lemma need_least: "i < need sz \<Longrightarrow> bsz i < sz"
  unfolding need_def using not_less_Least not_le by blast

lemma exact_loop_skip:
  "i + d = need sz \<Longrightarrow> need sz \<le> MAX_ORDER \<Longrightarrow> exact_loop (d + r) st sz i s = exact_loop r st sz (need sz) s"
proof (induction d arbitrary: i)
  case (Suc d)
  have "bsz i < sz" using Suc.prems by (intro need_least) simp
  then have "\<not> sz \<le> blocksSizesArr ! i" using blocksSizesArr_nth [of i] Suc.prems by simp
  then show ?case using Suc.IH [of "Suc i"] Suc.prems by simp
qed simp

definition alloc_spec :: "blocks \<Rightarrow> nat \<Rightarrow> (addr \<times> nat) option \<Rightarrow> bool" where
  "alloc_spec bl sz r \<longleftrightarrow>
     (case r of
        None \<Rightarrow> (\<forall>k. need sz \<le> k \<and> k \<le> MAX_ORDER \<longrightarrow> free_at bl k = {})
      | Some (a, k) \<Rightarrow>
          need sz \<le> k \<and> k \<le> MAX_ORDER \<and> (\<forall>l. need sz \<le> l \<and> l < k \<longrightarrow> free_at bl l = {})
          \<and> a \<in> free_at bl k \<and> (\<forall>b\<in>free_at bl k. a \<le> b))"

definition alloc_blocks :: "blocks \<Rightarrow> nat \<Rightarrow> (addr \<times> nat) option \<Rightarrow> blocks" where
  "alloc_blocks bl sz r =
     (case r of None \<Rightarrow> bl | Some (a, k) \<Rightarrow> split_blocks bl a k (k - need sz))"

lemma findExact_rep:
  assumes rep: "buddy_rep st bl mp" and ok: "arena_ok B N bl mp" and sz: "sz \<le> SIZE_128K"
  shows "\<exists>r st'. alloc_spec bl sz r
    \<and> findExactSizeBlock_ChallengeZero st sz = Some (map_option (\<lambda>(a, k). a + MDSZ) r, st')
    \<and> buddy_rep st' (alloc_blocks bl sz r) mp \<and> bytes st' = bytes st"
proof -
  have j: "sz \<le> bsz (need sz)" "need sz \<le> MAX_ORDER" using needI [of sz MAX_ORDER] sz by (auto simp: SIZE_128K_bsz)
  let ?r = "Suc MAX_ORDER - need sz"
  have "exact_loop (need sz + ?r) st sz 0 0 = exact_loop ?r st sz (need sz) 0"
    using exact_loop_skip [of 0 "need sz" sz ?r st 0] j(2) by simp
  then have eq: "findExactSizeBlock_ChallengeZero st sz = exact_loop ?r st sz (need sz) (need sz - need sz)"
    using j(2) by (simp add: findExactSizeBlock_ChallengeZero_def)
  have "need sz + ?r = Suc MAX_ORDER" using j(2) by simp
  from exact_loop_rep [OF rep ok j(1) order_refl this] show ?thesis
  proof (elim disjE exE conjE)
    assume n: "\<forall>k. need sz \<le> k \<and> k \<le> MAX_ORDER \<longrightarrow> free_at bl k = {}"
      "exact_loop ?r st sz (need sz) (need sz - need sz) = Some (None, st)"
    then show ?thesis using rep eq
      by (intro exI [of _ None] exI [of _ st]) (simp add: alloc_spec_def alloc_blocks_def)
  next
    fix k a st' assume f: "need sz \<le> k" "k \<le> MAX_ORDER" "\<forall>l. need sz \<le> l \<and> l < k \<longrightarrow> free_at bl l = {}"
      "a \<in> free_at bl k" "\<forall>b\<in>free_at bl k. a \<le> b"
      "exact_loop ?r st sz (need sz) (need sz - need sz) = Some (Some (a + MDSZ), st')"
      "buddy_rep st' (split_blocks bl a k (k - need sz)) mp" "bytes st' = bytes st"
    then show ?thesis using eq
      by (intro exI [of _ "Some (a, k)"] exI [of _ st']) (simp add: alloc_spec_def alloc_blocks_def)
  qed
qed

lemma alloc_blocks_ok:
  assumes "arena_ok B N bl mp" "alloc_spec bl sz r" "sz \<le> SIZE_128K"
  shows "arena_ok B N (alloc_blocks bl sz r) mp"
    "\<And>x y. bl x = Some (y, False) \<Longrightarrow> alloc_blocks bl sz r x = Some (y, False)"
    "r = Some (a, k) \<Longrightarrow> alloc_blocks bl sz r a = Some (need sz, False) \<and> sz \<le> bsz (need sz)"
proof -
  have t: "tiling B N bl" using assms(1) by (simp add: arena_ok_def)
  have sp: "need sz \<le> k \<and> bl a = Some (k, True)" if "r = Some (a, k)" for a k
    using assms(2) that by (simp add: alloc_spec_def free_at_def)
  show "arena_ok B N (alloc_blocks bl sz r) mp"
    using assms(1) tiling_split_blocks [OF t] sp
    by (cases r) (auto simp: arena_ok_def alloc_blocks_def)
  show "alloc_blocks bl sz r x = Some (y, False)" if "bl x = Some (y, False)" for x y
  proof (cases r)
    case (Some ak)
    obtain a k where ak: "ak = (a, k)" by (cases ak)
    then have a: "bl a = Some (k, True)" using sp Some by blast
    then have "x \<noteq> a" using that by auto
    from split_blocks_other [OF t a _ this that] show ?thesis using Some ak by (simp add: alloc_blocks_def)
  qed (use that in \<open>simp add: alloc_blocks_def\<close>)
  show "alloc_blocks bl sz r a = Some (need sz, False) \<and> sz \<le> bsz (need sz)" if "r = Some (a, k)"
    using sp [OF that] that needI [of sz MAX_ORDER] assms(3)
    by (simp add: alloc_blocks_def split_blocks_def SIZE_128K_bsz)
qed

subsection \<open>The first call\<close>

definition initial_blocks :: "addr \<Rightarrow> nat \<Rightarrow> blocks" where
  "initial_blocks B n =
     (\<lambda>a. if B \<le> a \<and> a < B + n * bsz MAX_ORDER \<and> bsz MAX_ORDER dvd a - B then Some (MAX_ORDER, True) else None)"

lemma initial_blocks_0 [simp]: "initial_blocks B 0 = Map.empty"
  by (auto simp: initial_blocks_def)

lemma initial_blocks_Suc:
  "initial_blocks B (Suc n) = (initial_blocks B n)(B + n * bsz MAX_ORDER \<mapsto> (MAX_ORDER, True))"
proof
  fix a
  let ?m = "bsz MAX_ORDER"
  have "a = B + n * ?m" if "B \<le> a" "a < B + Suc n * ?m" "\<not> a < B + n * ?m" "?m dvd a - B"
  proof -
    have "a - B \<le> n * ?m" by (rule dvd_gap [OF _ that(4)]) (use that(1,2) in auto)
    then show ?thesis using that(1,3) by simp
  qed
  then show "initial_blocks B (Suc n) a = ((initial_blocks B n)(B + n * ?m \<mapsto> (MAX_ORDER, True))) a"
    by (auto simp: initial_blocks_def)
qed

lemma initial_tiling:
  assumes "bsz MAX_ORDER dvd B" shows "tiling B n (initial_blocks B n)"
proof (rule tilingI [OF assms])
  let ?m = "bsz MAX_ORDER"
  fix a k f assume "initial_blocks B n a = Some (k, f)"
  then have a: "B \<le> a" "a < B + n * ?m" "?m dvd a - B" "k = MAX_ORDER"
    by (auto simp: initial_blocks_def split: if_splits)
  have al: "?m dvd a" using a(1,3) assms by (metis dvd_diffD1 dvd_diffD le_add_diff_inverse dvd_add)
  moreover have "a + ?m \<le> B + n * ?m"
    using dvd_gap [OF al, of "B + n * ?m"] assms a(2) by (meson dvd_add dvd_triv_right leD not_le)
  ultimately show "k \<le> MAX_ORDER \<and> bsz k dvd a \<and> B \<le> a \<and> a + bsz k \<le> B + n * ?m" using a by simp
next
  let ?m = "bsz MAX_ORDER"
  fix x assume x: "B \<le> x" "x < B + n * ?m"
  let ?a = "B + (x - B) div ?m * ?m"
  have d: "(x - B) div ?m * ?m \<le> x - B" "x - B < (x - B) div ?m * ?m + ?m"
    using div_mult_mod_eq [of "x - B" ?m] mod_less_divisor [of ?m "x - B"] bsz_pos(1) [of MAX_ORDER] by linarith+
  have "?a \<le> x" "x < ?a + ?m" using x(1) d by linarith+
  moreover have "(x - B) div ?m < n" by (rule less_mult_imp_div_less) (use x in linarith)
  ultimately have "covers (initial_blocks B n) ?a x" by (auto simp: covers_def initial_blocks_def)
  moreover have "c = ?a" if c: "covers (initial_blocks B n) c x" for c
  proof -
    have c': "B \<le> c" "?m dvd c - B" "c \<le> x" "x < c + ?m"
      using c by (auto simp: covers_def initial_blocks_def split: if_splits)
    have "c - B \<le> (x - B) div ?m * ?m" by (rule dvd_gap [OF _ c'(2)]) (use c' d in auto)
    moreover have "(x - B) div ?m * ?m \<le> c - B" by (rule dvd_gap [OF c'(2) dvd_triv_right]) (use c' d in linarith)
    ultimately show ?thesis using c'(1) by simp
  qed
  ultimately show "\<exists>!c. covers (initial_blocks B n) c x" by blast
qed


text \<open>The loop of the first call, on the way from \<open>i\<close> blocks to \<open>i + n\<close>.\<close>

lemma init_loop_rep:
  assumes "buddy_rep st (initial_blocks B i) Map.empty"
  shows "\<exists>st'. init_loop st (B + i * bsz MAX_ORDER) n = Some st' \<and> buddy_rep st' (initial_blocks B (i + n)) Map.empty
    \<and> bytes st' = bytes st"
  using assms
proof (induction n arbitrary: st i)
  case (Suc n)
  let ?a = "B + i * bsz MAX_ORDER"
  let ?m = "\<lparr>size = SIZE_128K, is_free = True, next_md = None, prev_md = None, address = ?a + MDSZ, is_mmap = False\<rparr>"
  have fr: "?a \<notin> dom (initial_blocks B i)" by (auto simp: initial_blocks_def split: if_splits)
  have r1: "buddy_rep (st\<lparr>mem := (mem st)(?a \<mapsto> ?m)\<rparr>) (initial_blocks B i) Map.empty"
    by (rule rep_write [OF Suc.prems fr]) simp
  have cell: "mem (st\<lparr>mem := (mem st)(?a \<mapsto> ?m)\<rparr>) ?a = Some ?m" by simp
  obtain st1 where s1: "list_add (st\<lparr>mem := (mem st)(?a \<mapsto> ?m)\<rparr>) MAX_ORDER ?a = Some st1"
    "buddy_rep st1 (initial_blocks B (Suc i)) Map.empty" "bytes st1 = bytes st"
    using rep_add [OF r1 order_refl fr _ cell, of True]
    by (auto simp: core_def initial_blocks_Suc SIZE_128K_bsz simp del: fun_upd_apply)
  have "?a + SIZE_128K = B + Suc i * bsz MAX_ORDER" by (simp add: SIZE_128K_bsz)
  then have "init_loop st ?a (Suc n) = init_loop st1 (B + Suc i * bsz MAX_ORDER) n"
    using s1(1) by (simp only: init_loop.simps metaDataInit_def Option.bind.simps)
  then show ?case using Suc.IH [OF s1(2)] s1(3) by (simp del: fun_upd_apply)
qed auto

lemma empty_rep:
  assumes "mdListArr st = replicate (Suc MAX_ORDER) newMDList" "mappedList st = newMDList" "\<not> firstMalloc st"
  shows "buddy_rep st Map.empty Map.empty"
proof -
  have "md_set h newMDList {}" for h
    by (auto simp: md_set_def md_list_def newMDList_def last_node_def intro: exI [of _ "[]"])
  moreover have "replicate (Suc MAX_ORDER) newMDList ! k = newMDList" if "k \<le> MAX_ORDER" for k
    using that by (simp del: replicate.simps)
  ultimately show ?thesis using assms by (auto intro!: repI simp: of_order_def simp del: replicate.simps)
qed

text \<open>
  The first call, when \<open>sbrk\<close> succeeds: 32 free blocks of the largest order, aligned, which end exactly at
  the new break.
\<close>

lemma list_add_heap_end: "list_add st i a = Some st' \<Longrightarrow> heap_end st' = heap_end st"
  by (auto simp: list_add_def bind_eq_Some_conv split: if_splits)

lemma init_loop_heap_end: "init_loop st res n = Some st' \<Longrightarrow> heap_end st' = heap_end st"
proof (induction n arbitrary: st res)
  case (Suc n)
  then obtain st1 where "list_add (st\<lparr>mem := metaDataInit (mem st) res SIZE_128K True None None (res + MDSZ)\<rparr>) MAX_ORDER res
      = Some st1" "init_loop st1 (res + SIZE_128K) n = Some st'"
    by (auto simp: bind_eq_Some_conv)
  then show ?case using Suc.IH list_add_heap_end by fastforce
qed simp

definition first_base :: "kernel \<Rightarrow> addr" where
  "first_base k = prog_break k - prog_break k mod SIZE_128K + SIZE_128K"

definition first_amount :: "kernel \<Rightarrow> nat" where
  "first_amount k = 33 * SIZE_128K - prog_break k mod SIZE_128K"

lemma first_end: "prog_break k + first_amount k = first_base k + 32 * SIZE_128K"
proof -
  have "prog_break k mod SIZE_128K < SIZE_128K" "prog_break k mod SIZE_128K \<le> prog_break k"
    by (simp_all add: SIZE_128K_def)
  then show ?thesis by (simp add: first_amount_def first_base_def)
qed

lemma first_amount_eq: "32 * SIZE_128K - prog_break k mod SIZE_128K + SIZE_128K = first_amount k"
proof -
  have "prog_break k mod SIZE_128K < SIZE_128K" by (simp add: SIZE_128K_def)
  then show ?thesis by (simp add: first_amount_def)
qed

lemma first_init_rep:
  assumes "firstMalloc st" "mappedList st = newMDList" "sbrk_ok k (first_amount k)"
  shows "\<exists>st'. first_init k st = Some st' \<and> buddy_rep st' (initial_blocks (first_base k) 32) Map.empty
    \<and> arena_ok (first_base k) 32 (initial_blocks (first_base k) 32) Map.empty \<and> bytes st' = bytes st
    \<and> heap_end st' = first_base k + 32 * SIZE_128K"
proof -
  let ?st = "st\<lparr>firstMalloc := False, heap_end := prog_break k + first_amount k,
    mdListArr := replicate (Suc MAX_ORDER) newMDList\<rparr>"
  have "buddy_rep ?st (initial_blocks (first_base k) 0) Map.empty"
    using empty_rep [of ?st] assms(2) by simp
  from init_loop_rep [OF this, of 32] obtain st1 where s1: "init_loop ?st (first_base k) 32 = Some st1"
    "buddy_rep st1 (initial_blocks (first_base k) 32) Map.empty" "bytes st1 = bytes st" by auto
  have "md_set (mem st1) (mappedList st1) {}" using repD(3) [OF s1(2)] by simp
  then have "buddy_rep (st1\<lparr>mappedList := newMDList\<rparr>) (initial_blocks (first_base k) 32) Map.empty"
    using s1(2) unfolding buddy_rep_def
    by (auto simp: md_set_def md_list_def newMDList_def last_node_def intro: exI [of _ "[]"])
  moreover have "SIZE_128K dvd prog_break k - prog_break k mod SIZE_128K + SIZE_128K"
    by (intro dvd_add dvd_minus_mod dvd_refl)
  then have "tiling (first_base k) 32 (initial_blocks (first_base k) 32)"
    by (intro initial_tiling) (simp add: first_base_def SIZE_128K_bsz)
  moreover have "first_init k st = Some (st1\<lparr>mappedList := newMDList\<rparr>)"
    using assms(1,3) s1(1) unfolding first_init_def Let_def first_amount_eq sbrk_def
    by (simp add: first_base_def)
  moreover have "heap_end st1 = first_base k + 32 * SIZE_128K"
    using init_loop_heap_end [OF s1(1)] first_end [of k] by simp
  ultimately show ?thesis using s1(3) by (auto simp: arena_ok_def)
qed

lemma first_init_later: "buddy_rep st bl mp \<Longrightarrow> first_init k st = Some st"
  using repD(8) by (simp add: first_init_def)

subsection \<open>Mappings\<close>

lemma mapped_add_rep:
  assumes rep: "buddy_rep st bl mp" and a: "a \<notin> dom bl" "a \<notin> dom mp"
    and m: "mem st a = Some m" "core m = (s, False, a + MDSZ, True)" "next_md m = None"
  shows "\<exists>st'. mapped_add st a = Some st' \<and> buddy_rep st' bl (mp(a \<mapsto> s)) \<and> bytes st' = bytes st"
proof -
  note D = repD [OF rep]
  obtain h l where hl: "addMD (mem st) (mappedList st) a = Some (h, l)" "md_set h l (insert a (dom mp))"
    "links_only (mem st) h (insert a (dom mp))"
    using md_set_add [OF D(3) m(1) _ m(3) a(2)] m(2) by (auto simp: core_def)
  let ?st = "st\<lparr>mem := h, mappedList := l\<rparr>"
  have c: "map_option core (h x) = map_option core (mem st x)" for x using hl(3) by (simp add: links_only_def)
  have "buddy_rep ?st bl (mp(a \<mapsto> s))"
  proof (rule repI)
    fix k assume k: "k \<le> MAX_ORDER"
    have "insert a (dom mp) \<inter> of_order bl k = {}" using a(1) D(7) of_order_dom [of bl k] by blast
    then show "md_set (mem ?st) (mdListArr ?st ! k) (of_order bl k)" using md_set_links [OF D(2) [OF k] hl(3)] by simp
  qed (use D hl(2) a m c in \<open>auto split: if_splits\<close>)
  then show ?thesis using hl(1) by (simp add: mapped_add_def)
qed

lemma mapped_del_rep:
  assumes rep: "buddy_rep st bl mp" and a: "mp a = Some s"
  shows "\<exists>st'. mapped_del st a = Some st' \<and> buddy_rep st' bl (mp(a := None)) \<and> bytes st' = bytes st"
proof -
  note D = repD [OF rep]
  have "a \<in> dom mp" using a by auto
  then obtain h l where hl: "delMD (mem st) (mappedList st) a = Some (h, l)" "md_set h l (dom mp - {a})"
    "links_only (mem st) h (dom mp)"
    using md_set_del [OF D(3)] by blast
  let ?st = "st\<lparr>mem := h, mappedList := l\<rparr>"
  have c: "map_option core (h x) = map_option core (mem st x)" for x using hl(3) by (simp add: links_only_def)
  have "buddy_rep ?st bl (mp(a := None))"
  proof (rule repI)
    fix k assume k: "k \<le> MAX_ORDER"
    have "dom mp \<inter> of_order bl k = {}" using D(7) of_order_dom [of bl k] by blast
    then show "md_set (mem ?st) (mdListArr ?st ! k) (of_order bl k)" using md_set_links [OF D(2) [OF k] hl(3)] by simp
  qed (use D hl(2) c in \<open>auto split: if_splits\<close>)
  then show ?thesis using hl(1) by (simp add: mapped_del_def)
qed

text \<open>A cell that belongs to nothing may also go away.\<close>

lemma rep_unmap:
  assumes "buddy_rep st bl mp" "a \<notin> dom bl" "a \<notin> dom mp"
  shows "buddy_rep (st\<lparr>mem := (mem st)(a := None)\<rparr>) bl mp"
proof (rule repI)
  note D = repD [OF assms(1)]
  have u: "md_set ((mem st)(a := None)) l S" if "md_set (mem st) l S" "a \<notin> S" for l S
    using that md_list_agree [of "mem st" l _ "(mem st)(a := None)"] unfolding md_set_def by fastforce
  show "md_set (mem (st\<lparr>mem := (mem st)(a := None)\<rparr>)) (mdListArr (st\<lparr>mem := (mem st)(a := None)\<rparr>) ! k) (of_order bl k)"
    if "k \<le> MAX_ORDER" for k
    using u [OF D(2) [OF that]] assms(2) of_order_dom [of bl k] by auto
  show "md_set (mem (st\<lparr>mem := (mem st)(a := None)\<rparr>)) (mappedList (st\<lparr>mem := (mem st)(a := None)\<rparr>)) (dom mp)"
    using u [OF D(3) assms(3)] by simp
qed (use repD [OF assms(1)] assms(2,3) in auto)


subsection \<open>Merging\<close>

text \<open>
  What \<open>sfree\<close> is meant to do with the blocks: as long as the buddy is a free block of the same order,
  both become one block of the next order. \<open>n\<close> is the number of orders left.
\<close>

fun merge_blocks :: "nat \<Rightarrow> blocks \<Rightarrow> addr \<Rightarrow> nat \<Rightarrow> blocks" where
  "merge_blocks 0 bl a i = bl"
| "merge_blocks (Suc n) bl a i =
     (let b = a XOR bsz i in
      if bl b = Some (i, True)
      then merge_blocks n (bl(a := None, b := None, min a b \<mapsto> (Suc i, True))) (min a b) (Suc i)
      else bl)"

text \<open>The program does not compare the orders: it is right when no free buddy it meets is smaller.\<close>

fun merge_safe :: "nat \<Rightarrow> blocks \<Rightarrow> addr \<Rightarrow> nat \<Rightarrow> bool" where
  "merge_safe 0 bl a i = True"
| "merge_safe (Suc n) bl a i =
     (let b = a XOR bsz i in
      case bl b of
        Some (j, True) \<Rightarrow>
          j = i \<and> merge_safe n (bl(a := None, b := None, min a b \<mapsto> (Suc i, True))) (min a b) (Suc i)
      | _ \<Rightarrow> True)"

lemma merge_blocks_live:
  assumes "bl a = Some (i, True)" "bl x = Some (y, False)"
  shows "merge_blocks n bl a i x = Some (y, False)"
  using assms
proof (induction n arbitrary: bl a i)
  case (Suc n)
  let ?b = "a XOR bsz i"
  have "merge_blocks n (bl(a := None, ?b := None, min a ?b \<mapsto> (Suc i, True))) (min a ?b) (Suc i) x = Some (y, False)"
    if "bl ?b = Some (i, True)"
    by (rule Suc.IH) (use Suc.prems that in \<open>auto simp: min_def\<close>)
  then show ?case using Suc.prems(2) by (simp add: Let_def del: fun_upd_apply)
qed simp

lemma tiling_merge_pair:
  assumes t: "tiling B N bl" and a: "bl a = Some (i, f)" "bl (a XOR bsz i) = Some (i, g)" "i < MAX_ORDER"
  shows "tiling B N (bl(a := None, a XOR bsz i := None, min a (a XOR bsz i) \<mapsto> (Suc i, True)))"
proof -
  let ?b = "a XOR bsz i" let ?p = "pair_start a i"
  note p = pair_start_facts [OF tilingD(2) [OF t a(1)]]
  have "{a, ?b} = {?p, ?p + bsz i}" using p(8,9) by (auto simp: min_def max_def split: if_splits)
  then have "\<exists>f. bl ?p = Some (i, f)" "\<exists>f. bl (?p + bsz i) = Some (i, f)"
    and eq: "bl(a := None, ?b := None, min a ?b \<mapsto> (Suc i, True)) = bl(?p + bsz i := None, ?p \<mapsto> (Suc i, True))"
    using a p(8) by (auto simp: doubleton_eq_iff fun_eq_iff)
  then show ?thesis unfolding eq using tiling_merge [OF t _ _ p(1) a(3)] by auto
qed

text \<open>One round of the loop.\<close>

lemma merge_round:
  assumes rep: "buddy_rep st bl mp" and t: "tiling B N bl" and i: "i < MAX_ORDER"
    and a: "bl a = Some (i, True)" and b: "bl (a XOR bsz i) = Some (i, True)"
  shows "\<exists>st3. merge_loop st a (a XOR bsz i)
      = (if Suc i = MAX_ORDER then Some st3
         else merge_loop st3 (min a (a XOR bsz i)) (min a (a XOR bsz i) XOR bsz (Suc i)))
    \<and> buddy_rep st3 (bl(a := None, a XOR bsz i := None, min a (a XOR bsz i) \<mapsto> (Suc i, True))) mp
    \<and> bytes st3 = bytes st"
proof -
  let ?b = "a XOR bsz i" let ?c = "min a ?b"
  note D = repD [OF rep]
  have ne: "?b \<noteq> a" using pair_start_facts(7) [OF tilingD(2) [OF t a]] .
  obtain rm where rm: "mem st a = Some rm" "size rm = bsz i" "address rm = a + MDSZ"
    using coreD [OF D(5) [OF a]] by blast
  obtain nm where nm: "mem st ?b = Some nm" "is_free nm" "address nm = ?b + MDSZ"
    using coreD [OF D(5) [OF b]] by blast
  have lt: "bsz i < SIZE_128K" using i bsz_less by (simp add: SIZE_128K_bsz)
  obtain st1 ma where s1: "list_del st i a = Some st1" "buddy_rep st1 (bl(a := None)) mp" "bytes st1 = bytes st"
    "mem st1 a = Some ma" "core ma = (bsz i, True, a + MDSZ, False)" "next_md ma = None"
    using rep_del [OF rep a] by blast
  have b1: "(bl(a := None)) ?b = Some (i, True)" using b ne by simp
  obtain st2 mb where s2: "list_del st1 i ?b = Some st2" "buddy_rep st2 (bl(a := None, ?b := None)) mp"
    "bytes st2 = bytes st1" "mem st2 ?b = Some mb" "core mb = (bsz i, True, ?b + MDSZ, False)" "next_md mb = None"
    "\<forall>x. x \<notin> dom (bl(a := None)) \<longrightarrow> mem st2 x = mem st1 x"
    using rep_del [OF s1(2) b1] by blast
  have ma2: "mem st2 a = Some ma" using s2(7) s1(4) by simp
  let ?r = "if address nm < address rm then ?b else a"
  have r: "?r = ?c" using rm(3) nm(3) by (simp add: min_def)
  obtain mc where mc: "mem st2 ?c = Some mc" "core mc = (bsz i, True, ?c + MDSZ, False)" "next_md mc = None"
    using ma2 s1(5,6) s2(4-6) by (cases "a \<le> ?b") (auto simp: min_def)
  let ?m = "mc\<lparr>size := size mc * 2, is_free := True\<rparr>"
  have m: "core ?m = (bsz (Suc i), True, ?c + MDSZ, False)" "next_md ?m = None" "size ?m = bsz (Suc i)"
    using mc(2,3) by (auto simp: core_def bsz_Suc)
  have out: "?c \<notin> dom (bl(a := None, ?b := None))" "?c \<notin> dom mp"
    using a b D(7) by (auto simp: min_def)
  have cell: "mem (st2\<lparr>mem := (mem st2)(?c \<mapsto> ?m)\<rparr>) ?c = Some ?m" by simp
  have "Suc i \<le> MAX_ORDER" using i by simp
  from rep_add [OF rep_write [OF s2(2) out, of ?m] this out cell m(1,2)] obtain st3 where
    s3: "list_add (st2\<lparr>mem := (mem st2)(?c \<mapsto> ?m)\<rparr>) (Suc i) ?c = Some st3"
    "buddy_rep st3 (bl(a := None, ?b := None, ?c \<mapsto> (Suc i, True))) mp" "bytes st3 = bytes st2" by auto
  have "bsz (Suc i) = SIZE_128K \<longleftrightarrow> Suc i = MAX_ORDER" by (simp add: SIZE_128K_bsz bsz_inj)
  then have "merge_loop st a ?b = (if Suc i = MAX_ORDER then Some st3 else merge_loop st3 ?c (?c XOR bsz (Suc i)))"
    using nm rm lt findSizeIndex_bsz [of i] i s1(1) s2(1) r mc(1) m(3) s3(1)
    by (subst merge_loop.simps) (simp add: Let_def findNeighboringBlock_ChallengeOne_def del: fun_upd_apply)
  then show ?thesis using s3(2,3) s2(3) s1(3) by auto
qed

lemma merge_loop_rep:
  assumes "buddy_rep st bl mp" "tiling B N bl" "bl a = Some (i, True)" "i < MAX_ORDER"
    "n = MAX_ORDER - i" "merge_safe n bl a i"
  shows "\<exists>st'. merge_loop st a (a XOR bsz i) = Some st' \<and> buddy_rep st' (merge_blocks n bl a i) mp
    \<and> tiling B N (merge_blocks n bl a i) \<and> bytes st' = bytes st"
  using assms
proof (induction n arbitrary: st bl a i)
  case (Suc n)
  let ?b = "a XOR bsz i"
  obtain j g where b: "bl ?b = Some (j, g)" using buddy_block [OF Suc.prems(2-4)] by blast
  show ?case
  proof (cases g)
    case False
    obtain nm rm where "mem st ?b = Some nm" "\<not> is_free nm" "mem st a = Some rm"
      using coreD [OF repD(5) [OF Suc.prems(1) b]] coreD [OF repD(5) [OF Suc.prems(1,3)]] False by blast
    then have "merge_loop st a ?b = Some st" by (subst merge_loop.simps) simp
    then show ?thesis using Suc.prems(1,2) b False by (simp add: Let_def)
  next
    case True
    let ?bl = "bl(a := None, ?b := None, min a ?b \<mapsto> (Suc i, True))"
    have j: "j = i" and safe: "merge_safe n ?bl (min a ?b) (Suc i)"
      using Suc.prems(6) b True by (auto simp: Let_def simp del: fun_upd_apply)
    have b': "bl ?b = Some (i, True)" using b True j by simp
    have t: "tiling B N ?bl" using tiling_merge_pair [OF Suc.prems(2,3) b' Suc.prems(4)] .
    obtain st3 where s: "merge_loop st a ?b = (if Suc i = MAX_ORDER then Some st3
        else merge_loop st3 (min a ?b) (min a ?b XOR bsz (Suc i)))" "buddy_rep st3 ?bl mp" "bytes st3 = bytes st"
      using merge_round [OF Suc.prems(1,2,4,3) b'] by blast
    have mb: "merge_blocks (Suc n) bl a i = merge_blocks n ?bl (min a ?b) (Suc i)"
      using b' by (simp add: Let_def del: fun_upd_apply)
    show ?thesis
    proof (cases "Suc i = MAX_ORDER")
      case True
      then have "n = 0" using Suc.prems(5) by simp
      then show ?thesis using s True mb t by (simp del: fun_upd_apply)
    next
      case False
      then have "Suc i < MAX_ORDER" "n = MAX_ORDER - Suc i" using Suc.prems(4,5) by auto
      moreover have "?bl (min a ?b) = Some (Suc i, True)" by simp
      ultimately have "\<exists>st'. merge_loop st3 (min a ?b) (min a ?b XOR bsz (Suc i)) = Some st'
          \<and> buddy_rep st' (merge_blocks n ?bl (min a ?b) (Suc i)) mp
          \<and> tiling B N (merge_blocks n ?bl (min a ?b) (Suc i)) \<and> bytes st' = bytes st3"
        by (intro Suc.IH [OF s(2) t _ _ _ safe])
      then show ?thesis using False unfolding mb s(1) s(3) by (simp only: if_False)
    qed
  qed
qed simp

end
