(* ===== verification/Buddy.thy ===== *)
theory Buddy
  imports Malloc3 Allocator
begin

section \<open>Correctness of the buddy allocator\<close>

text \<open>
  The operations of \<^const>\<open>smalloc\<close> and its relatives on the abstract heap: the blocks that tile the
  arena and the mappings. The program does what it should as long as \<open>sfree\<close> meets no free buddy that
  is smaller than the block it frees (\<^const>\<open>merge_safe\<close>); the section on the smaller buddy shows that otherwise it
  hands out memory that is in use.
\<close>

subsection \<open>The abstract heap\<close>

type_synonym aheap = "nat \<times> nat \<times> blocks \<times> mappings"

definition mappings_ok :: "nat \<Rightarrow> nat \<Rightarrow> mappings \<Rightarrow> bool" where
  "mappings_ok B N mp \<longleftrightarrow>
     (\<forall>x s. mp x = Some s \<longrightarrow> MDSZ \<le> s \<and> (x + s \<le> B \<or> B + N * bsz MAX_ORDER \<le> x))
     \<and> (\<forall>x s y t. mp x = Some s \<and> mp y = Some t \<and> x \<noteq> y \<longrightarrow> x + s \<le> y \<or> y + t \<le> x)"

lemma mappings_okD:
  assumes "mappings_ok B N mp" "mp x = Some s"
  shows "MDSZ \<le> s" "x + s \<le> B \<or> B + N * bsz MAX_ORDER \<le> x"
    "mp y = Some t \<Longrightarrow> x \<noteq> y \<Longrightarrow> x + s \<le> y \<or> y + t \<le> x"
  using assms unfolding mappings_ok_def by blast+

fun heap_ok :: "buddy \<Rightarrow> aheap \<Rightarrow> bool" where
  "heap_ok st (B, N, bl, mp) \<longleftrightarrow> buddy_rep st bl mp \<and> arena_ok B N bl mp \<and> mappings_ok B N mp"

text \<open>The pointers in use, with the number of bytes behind them.\<close>

definition order_in_use :: "blocks \<Rightarrow> addr \<rightharpoonup> nat" where
  "order_in_use bl a = (case bl a of Some (k, False) \<Rightarrow> Some k | _ \<Rightarrow> None)"

fun in_use :: "aheap \<Rightarrow> addr \<rightharpoonup> nat" where
  "in_use (B, N, bl, mp) p =
     (if p < MDSZ then None
      else case order_in_use bl (p - MDSZ) of
        Some k \<Rightarrow> Some (bsz k - MDSZ)
      | None \<Rightarrow> map_option (\<lambda>s. s - MDSZ) (mp (p - MDSZ)))"

lemma order_in_use_iff: "order_in_use bl a = Some k \<longleftrightarrow> bl a = Some (k, False)"
  by (auto simp: order_in_use_def split: option.splits bool.splits)

lemma order_in_useI: "(\<And>x k. bl x = Some (k, False) \<longleftrightarrow> f x = Some k) \<Longrightarrow> order_in_use bl = f"
  by (rule ext) (metis not_None_eq order_in_use_iff)

text \<open>
  What is relied on of \<open>mmap\<close>, for a request that needs it: it succeeds, and the region of the length it is asked
  for overlaps neither the arena nor another mapping.
\<close>

fun mmap_ok :: "aheap \<Rightarrow> kernel \<Rightarrow> nat \<Rightarrow> bool" where
  "mmap_ok (B, N, bl, mp) k len \<longleftrightarrow>
     (\<exists>x. mmap_res k len = Some x \<and> (x + len \<le> B \<or> B + N * bsz MAX_ORDER \<le> x)
        \<and> (\<forall>y t. mp y = Some t \<longrightarrow> x + len \<le> y \<or> y + t \<le> x))"

fun kernel_ok :: "aheap \<Rightarrow> kernel \<Rightarrow> nat \<Rightarrow> bool" where
  "kernel_ok (B, N, bl, mp) k n \<longleftrightarrow> SIZE_128K < MDSZ + n \<longrightarrow> mmap_ok (B, N, bl, mp) k (MDSZ + n)"

fun free_safe :: "aheap \<Rightarrow> addr \<Rightarrow> bool" where
  "free_safe (B, N, bl, mp) p \<longleftrightarrow>
     (case bl (p - MDSZ) of
        None \<Rightarrow> True
      | Some (k, f) \<Rightarrow> merge_safe (MAX_ORDER - k) (bl(p - MDSZ \<mapsto> (k, True))) (p - MDSZ) k)"

definition free_blocks :: "blocks \<Rightarrow> addr \<Rightarrow> nat \<Rightarrow> blocks" where
  "free_blocks bl a k = merge_blocks (MAX_ORDER - k) (bl(a \<mapsto> (k, True))) a k"

lemma MDSZ_bsz: "MDSZ < bsz k"
proof -
  have "bsz 0 \<le> bsz k" by (rule bsz_mono) simp
  then show ?thesis by (simp add: MDSZ_def bsz_def [of 0])
qed

subsection \<open>Freeing\<close>

lemma merge_blocks_live_iff:
  assumes "bl a = Some (i, True)"
  shows "merge_blocks n bl a i x = Some (y, False) \<longleftrightarrow> bl x = Some (y, False)"
  using assms
proof (induction n arbitrary: bl a i)
  case (Suc n)
  let ?b = "a XOR bsz i"
  let ?bl = "bl(a := None, ?b := None, min a ?b \<mapsto> (Suc i, True))"
  have "merge_blocks n ?bl (min a ?b) (Suc i) x = Some (y, False) \<longleftrightarrow> ?bl x = Some (y, False)"
    by (rule Suc.IH) simp
  moreover have "?bl x = Some (y, False) \<longleftrightarrow> bl x = Some (y, False)" if "bl ?b = Some (i, True)"
    using that Suc.prems by auto
  ultimately show ?case by (simp add: Let_def del: fun_upd_apply)
qed simp

lemma free_blocks_in_use:
  assumes "bl a = Some (k, False)"
  shows "order_in_use (free_blocks bl a k) = (order_in_use bl)(a := None)"
proof (rule order_in_useI)
  fix x j
  show "free_blocks bl a k x = Some (j, False) \<longleftrightarrow> ((order_in_use bl)(a := None)) x = Some j"
    unfolding free_blocks_def by (subst merge_blocks_live_iff) (auto simp: order_in_use_iff)
qed

lemma sfree_block:
  assumes rep: "buddy_rep st bl mp" and ok: "arena_ok B N bl mp" and a: "bl a = Some (k, False)"
    and safe: "merge_safe (MAX_ORDER - k) (bl(a \<mapsto> (k, True))) a k"
  shows "\<exists>st'. sfree st (Some (a + MDSZ)) = Some st' \<and> buddy_rep st' (free_blocks bl a k) mp
    \<and> arena_ok B N (free_blocks bl a k) mp \<and> bytes st' = bytes st"
proof -
  obtain m where m: "mem st a = Some m" "size m = bsz k" "\<not> is_free m" "\<not> is_mmap m"
    using coreD [OF repD(5) [OF rep a]] by blast
  have k: "k \<le> MAX_ORDER" using repD(4) [OF rep a] .
  let ?bl = "bl(a \<mapsto> (k, True))"
  let ?st = "st\<lparr>mem := (mem st)(a \<mapsto> m\<lparr>is_free := True\<rparr>)\<rparr>"
  have rep1: "buddy_rep ?st ?bl mp" using rep_set_free [OF rep a m(1)] .
  have t: "tiling B N ?bl" using ok by (intro tiling_flag [where f = False] a) (simp add: arena_ok_def)
  have szs: "\<not> size m > SIZE_128K" using m(2) k bsz_mono by (simp add: SIZE_128K_bsz not_less)
  show ?thesis
  proof (cases "k = MAX_ORDER")
    case True
    then have "sfree st (Some (a + MDSZ)) = Some ?st"
      using m szs by (simp add: sfree_def SIZE_128K_bsz Let_def)
    then show ?thesis using rep1 t ok True by (simp add: free_blocks_def arena_ok_def)
  next
    case False
    then have k': "k < MAX_ORDER" using k by simp
    have a': "?bl a = Some (k, True)" by simp
    obtain st' where s: "merge_loop ?st a (a XOR bsz k) = Some st'" "buddy_rep st' (free_blocks bl a k) mp"
      "tiling B N (free_blocks bl a k)" "bytes st' = bytes ?st"
      using merge_loop_rep [OF rep1 t a' k' refl safe] unfolding free_blocks_def by blast
    obtain j g where b: "?bl (a XOR bsz k) = Some (j, g)" using buddy_block [OF t a' k'] by blast
    obtain nm where nm: "mem ?st (a XOR bsz k) = Some nm" "is_free nm = g"
      using coreD [OF repD(5) [OF rep1 b]] by blast
    have "merge_loop ?st a (a XOR bsz k) = Some ?st" if "\<not> g"
      using nm that by (subst merge_loop.simps) simp
    moreover have "size m \<noteq> SIZE_128K" using m(2) False by (simp add: SIZE_128K_bsz bsz_inj)
    ultimately have "sfree st (Some (a + MDSZ)) = merge_loop ?st a (a XOR bsz k)"
      using m szs nm by (simp add: sfree_def findNeighboringBlock_ChallengeOne_def Let_def)
    then show ?thesis using s ok by (simp add: arena_ok_def)
  qed
qed

lemma sfree_mapping:
  assumes rep: "buddy_rep st bl mp" and a: "mp a = Some s"
  shows "\<exists>st'. sfree st (Some (a + MDSZ)) = Some st' \<and> buddy_rep st' bl (mp(a := None)) \<and> bytes st' = bytes st"
proof -
  obtain m where m: "mem st a = Some m" "\<not> is_free m" "is_mmap m"
    using coreD [OF repD(6) [OF rep a]] by blast
  obtain st1 where s: "mapped_del st a = Some st1" "buddy_rep st1 bl (mp(a := None))" "bytes st1 = bytes st"
    using mapped_del_rep [OF rep a] by blast
  have "a \<notin> dom bl" using repD(7) [OF rep] a by blast
  from rep_unmap [OF s(2) this] s(1,3) m show ?thesis by (simp add: sfree_def Let_def)
qed

lemma sfree_free:
  assumes rep: "buddy_rep st bl mp" and a: "bl a = Some (k, True)"
  shows "sfree st (Some (a + MDSZ)) = Some st"
  using coreD [OF repD(5) [OF rep a]] by (auto simp: sfree_def Let_def)

subsection \<open>Allocation\<close>

lemma add_halves_live:
  "add_halves bl a k n x = Some (y, False) \<Longrightarrow> bl x = Some (y, False)"
  by (induction bl a k n rule: add_halves.induct) (auto split: if_splits)

lemma alloc_blocks_in_use:
  assumes ok: "arena_ok B N bl mp" and sp: "alloc_spec bl sz (Some (a, k))"
  shows "order_in_use (alloc_blocks bl sz (Some (a, k))) = (order_in_use bl)(a \<mapsto> need sz)"
proof (rule order_in_useI)
  fix x j
  have a: "bl a = Some (k, True)" "need sz \<le> k" using sp by (auto simp: alloc_spec_def free_at_def)
  have t: "tiling B N bl" using ok by (simp add: arena_ok_def)
  have "split_blocks bl a k (k - need sz) x = Some (j, False) \<longleftrightarrow> bl x = Some (j, False)" if "x \<noteq> a"
    using split_blocks_other [OF t a(1) _ that] add_halves_live that by (auto simp: split_blocks_def)
  moreover have "split_blocks bl a k (k - need sz) a = Some (need sz, False)"
    using a(2) by (simp add: split_blocks_def)
  ultimately show "alloc_blocks bl sz (Some (a, k)) x = Some (j, False)
      \<longleftrightarrow> ((order_in_use bl)(a \<mapsto> need sz)) x = Some j"
    by (auto simp: alloc_blocks_def order_in_use_iff)
qed

lemma smalloc_invalid:
  "buddy_rep st bl mp \<Longrightarrow> invalidSize n \<Longrightarrow> smalloc k st n = Some (None, st)"
  by (simp add: smalloc_def first_init_later Let_def)

lemma valid_total: "\<not> invalidSize n \<Longrightarrow> (MDSZ + n) mod 2 ^ 64 = MDSZ + n"
  by (simp add: invalidSize_def MDSZ_def)

lemma smalloc_small:
  assumes h: "heap_ok st (B, N, bl, mp)" and n: "\<not> invalidSize n" "MDSZ + n \<le> SIZE_128K"
  shows "\<exists>r st'. alloc_spec bl (MDSZ + n) r
    \<and> smalloc k st n = Some (map_option (\<lambda>(a, j). a + MDSZ) r, st')
    \<and> heap_ok st' (B, N, alloc_blocks bl (MDSZ + n) r, mp) \<and> bytes st' = bytes st"
proof -
  have rep: "buddy_rep st bl mp" and ok: "arena_ok B N bl mp" "mappings_ok B N mp" using h by simp_all
  obtain r st' where r: "alloc_spec bl (MDSZ + n) r" "buddy_rep st' (alloc_blocks bl (MDSZ + n) r) mp"
      "findExactSizeBlock_ChallengeZero st (MDSZ + n) = Some (map_option (\<lambda>(a, j). a + MDSZ) r, st')"
      "bytes st' = bytes st"
    using findExact_rep [OF rep ok(1) n(2)] by blast
  have "smalloc k st n = Some (map_option (\<lambda>(a, j). a + MDSZ) r, st')"
    using n r(3) valid_total [OF n(1)] by (simp add: smalloc_def first_init_later [OF rep] Let_def)
  then show ?thesis using r ok alloc_blocks_ok(1) [OF ok(1) r(1) n(2)] by auto
qed

lemma mappings_ok_add:
  assumes "mappings_ok B N mp" "x + (MDSZ + n) \<le> B \<or> B + N * bsz MAX_ORDER \<le> x"
    "\<And>y t. mp y = Some t \<Longrightarrow> x + (MDSZ + n) \<le> y \<or> y + t \<le> x"
  shows "mappings_ok B N (mp(x \<mapsto> MDSZ + n))"
  unfolding mappings_ok_def
proof (intro conjI allI impI)
  fix y t assume "(mp(x \<mapsto> MDSZ + n)) y = Some t"
  then show "MDSZ \<le> t" "y + t \<le> B \<or> B + N * bsz MAX_ORDER \<le> y"
    using mappings_okD(1,2) [OF assms(1), of y t] assms(2) by (auto split: if_splits)
next
  fix y t z u
  assume "(mp(x \<mapsto> MDSZ + n)) y = Some t \<and> (mp(x \<mapsto> MDSZ + n)) z = Some u \<and> y \<noteq> z"
  then show "y + t \<le> z \<or> z + u \<le> y"
    using mappings_okD(3) [OF assms(1), of y t z u] assms(3) [of y t] assms(3) [of z u]
    by (auto split: if_splits)
qed

lemma smalloc_large:
  assumes h: "heap_ok st (B, N, bl, mp)" and n: "\<not> invalidSize n" "SIZE_128K < MDSZ + n"
    and k: "kernel_ok (B, N, bl, mp) k n"
  shows "\<exists>x st'. mmap_res k (MDSZ + n) = Some x \<and> x \<notin> dom bl \<and> x \<notin> dom mp \<and> smalloc k st n = Some (Some (x + MDSZ), st')
    \<and> heap_ok st' (B, N, bl, mp(x \<mapsto> MDSZ + n)) \<and> bytes st' = bytes st"
proof -
  have rep: "buddy_rep st bl mp" and ok: "arena_ok B N bl mp" "mappings_ok B N mp" using h by simp_all
  obtain x where x: "mmap_res k (MDSZ + n) = Some x" "x + (MDSZ + n) \<le> B \<or> B + N * bsz MAX_ORDER \<le> x"
      "\<And>y t. mp y = Some t \<Longrightarrow> x + (MDSZ + n) \<le> y \<or> y + t \<le> x"
    using k n(2) by auto
  have pos: "0 < MDSZ" by (simp add: MDSZ_def)
  have out: "x < B \<or> B + N * bsz MAX_ORDER \<le> x" using x(2) pos by linarith
  have t: "tiling B N bl" using ok(1) by (simp add: arena_ok_def)
  have "bl x \<noteq> Some (j, f)" for j f
  proof
    assume b: "bl x = Some (j, f)"
    show False using tilingD(3,4) [OF t b] out bsz_pos(1) [of j] by linarith
  qed
  moreover have "mp x \<noteq> Some t" for t
  proof
    assume b: "mp x = Some t"
    show False using x(3) [OF b] mappings_okD(1) [OF ok(2) b] pos by linarith
  qed
  ultimately have fresh: "x \<notin> dom bl" "x \<notin> dom mp" by (metis domD prod.collapse)+
  let ?m = "\<lparr>size = MDSZ + n, is_free = False, next_md = None, prev_md = None, address = x + MDSZ, is_mmap = True\<rparr>"
  have r1: "buddy_rep (st\<lparr>mem := (mem st)(x \<mapsto> ?m)\<rparr>) bl mp" using rep_write [OF rep fresh] .
  obtain st' where s: "mapped_add (st\<lparr>mem := (mem st)(x \<mapsto> ?m)\<rparr>) x = Some st'"
      "buddy_rep st' bl (mp(x \<mapsto> MDSZ + n))" "bytes st' = bytes st"
    using mapped_add_rep [OF r1 fresh, of ?m "MDSZ + n"] by (auto simp: core_def)
  obtain m' where "mem st' x = Some m'" "address m' = x + MDSZ"
    using coreD [OF repD(6) [OF s(2), of x "MDSZ + n"]] by auto
  then have "smalloc k st n = Some (Some (x + MDSZ), st')"
    using n x(1) s(1) valid_total [OF n(1)]
    by (simp add: smalloc_def first_init_later [OF rep] Let_def metaDataInit_def add.commute [of n MDSZ])
  moreover have "mappings_ok B N (mp(x \<mapsto> MDSZ + n))"
    using ok(2) x(2,3) by (rule mappings_ok_add)
  moreover have "arena_ok B N bl (mp(x \<mapsto> MDSZ + n))" using ok(1) out by (auto simp: arena_ok_def)
  ultimately show ?thesis using x(1) fresh s by auto
qed

subsection \<open>The contract\<close>

lemma in_use_cases:
  assumes "in_use (B, N, bl, mp) p = Some c"
  obtains (block) a k where "p = a + MDSZ" "bl a = Some (k, False)" "c = bsz k - MDSZ"
  | (mapping) a s where "p = a + MDSZ" "mp a = Some s" "c = s - MDSZ"
proof -
  have p: "p = (p - MDSZ) + MDSZ" using assms by (auto split: if_splits)
  show thesis
  proof (cases "order_in_use bl (p - MDSZ)")
    case None
    then show ?thesis using assms p mapping by (auto split: if_splits)
  next
    case (Some k)
    moreover have "c = bsz k - MDSZ" using assms Some by (auto split: if_splits)
    ultimately show ?thesis using p block by (simp add: order_in_use_iff)
  qed
qed

lemma in_use_apart:
  assumes h: "heap_ok st (B, N, bl, mp)" and p: "in_use (B, N, bl, mp) p = Some c"
    and q: "in_use (B, N, bl, mp) q = Some d" and ne: "p < q"
  shows "p + c \<le> q"
proof -
  have t: "tiling B N bl" and mo: "mappings_ok B N mp" using h by (auto simp: arena_ok_def)
  have pos: "0 < MDSZ" by (simp add: MDSZ_def)
  show ?thesis using p
  proof (cases rule: in_use_cases)
    case (block a k)
    note a = block
    have e: "p + c = a + bsz k" using a MDSZ_bsz [of k] by simp
    show ?thesis using q
    proof (cases rule: in_use_cases)
      case (block b j)
      then have "a + bsz k \<le> b" using tiling_disjoint [OF t a(2) block(2)] ne a(1) by simp
      then show ?thesis using e block(1) by simp
    next
      case (mapping b s)
      then show ?thesis
        using mappings_okD(1,2) [OF mo mapping(2)] tilingD(3,4) [OF t a(2)] e ne a(1) pos by linarith
    qed
  next
    case (mapping a s)
    note a = mapping
    have e: "p + c = a + s" using a mappings_okD(1) [OF mo a(2)] by simp
    show ?thesis using q
    proof (cases rule: in_use_cases)
      case (block b j)
      then show ?thesis
        using mappings_okD(2) [OF mo a(2)] tilingD(3,4) [OF t block(2)] bsz_pos(1) [of j] e ne a(1) by linarith
    next
      case (mapping b u)
      then have "a + s \<le> b \<or> b + u \<le> a" using mappings_okD(3) [OF mo a(2) mapping(2)] ne a(1) by simp
      then show ?thesis using mappings_okD(1) [OF mo mapping(2)] e ne a(1) mapping(1) pos by linarith
    qed
  qed
qed

lemma in_use_upd_block:
  "order_in_use bl' = (order_in_use bl)(a \<mapsto> j) \<Longrightarrow>
   in_use (B, N, bl', mp) = (in_use (B, N, bl, mp))(a + MDSZ \<mapsto> bsz j - MDSZ)"
  by (rule ext) (auto simp: fun_upd_def split: option.splits)

lemma in_use_free_block:
  assumes "order_in_use bl' = (order_in_use bl)(a := None)" "mp a = None"
  shows "in_use (B, N, bl', mp) = (in_use (B, N, bl, mp))(a + MDSZ := None)"
  by (rule ext) (use assms in \<open>auto simp: fun_upd_def split: option.splits\<close>)

lemma in_use_add_mapping:
  assumes "x \<notin> dom bl"
  shows "in_use (B, N, bl, mp(x \<mapsto> s)) = (in_use (B, N, bl, mp))(x + MDSZ \<mapsto> s - MDSZ)"
    "in_use (B, N, bl, mp(x := None)) = (in_use (B, N, bl, mp))(x + MDSZ := None)"
proof -
  have "order_in_use bl x = None" using assms by (auto simp: order_in_use_def split: option.splits)
  then show "in_use (B, N, bl, mp(x \<mapsto> s)) = (in_use (B, N, bl, mp))(x + MDSZ \<mapsto> s - MDSZ)"
    "in_use (B, N, bl, mp(x := None)) = (in_use (B, N, bl, mp))(x + MDSZ := None)"
    by (auto simp: fun_eq_iff split: option.splits)
qed

lemma mappings_ok_del: "mappings_ok B N mp \<Longrightarrow> mappings_ok B N (mp(x := None))"
  unfolding mappings_ok_def by simp

text \<open>
  The bytes behind the pointer that \<open>smalloc(n)\<close> returns, and the blocks it does not touch: those in use and
  those that are too small.
\<close>

definition capacity :: "nat \<Rightarrow> nat" where
  "capacity n = (if MDSZ + n \<le> SIZE_128K then bsz (need (MDSZ + n)) - MDSZ else n)"

definition keeps_blocks :: "nat \<Rightarrow> blocks \<Rightarrow> blocks \<Rightarrow> bool" where
  "keeps_blocks n bl bl' \<longleftrightarrow> (\<forall>x i f. bl x = Some (i, f) \<and> (f \<longrightarrow> bsz i < MDSZ + n) \<longrightarrow> bl' x = Some (i, f))"

lemma keeps_blocks_refl [simp]: "keeps_blocks n bl bl"
  by (simp add: keeps_blocks_def)

lemma need_total: "MDSZ + n \<le> SIZE_128K \<Longrightarrow> MDSZ + n \<le> bsz (need (MDSZ + n))"
  using needI [of "MDSZ + n" MAX_ORDER] by (simp add: SIZE_128K_bsz)

lemma capacity_ge: "n \<le> capacity n"
  using need_total [of n] by (auto simp: capacity_def)

lemma alloc_blocks_keeps:
  assumes ok: "arena_ok B N bl mp" and sp: "alloc_spec bl (MDSZ + n) r" and n: "MDSZ + n \<le> SIZE_128K"
  shows "keeps_blocks n bl (alloc_blocks bl (MDSZ + n) r)"
proof (cases r)
  case (Some aj)
  obtain a j where a: "aj = (a, j)" by (cases aj)
  have b: "bl a = Some (j, True)" "need (MDSZ + n) \<le> j"
    using sp Some a by (auto simp: alloc_spec_def free_at_def)
  have big: "MDSZ + n \<le> bsz j" using need_total [OF n] bsz_mono [OF b(2)] by simp
  have t: "tiling B N bl" using ok by (simp add: arena_ok_def)
  have "split_blocks bl a j (j - need (MDSZ + n)) x = Some (i, f)"
    if "bl x = Some (i, f)" "f \<longrightarrow> bsz i < MDSZ + n" for x i f
    by (rule split_blocks_other [OF t b(1) _ _ that(1)]) (use that b(1) big in auto)
  then show ?thesis using Some a by (auto simp: keeps_blocks_def alloc_blocks_def)
qed (simp add: alloc_blocks_def)

lemma smalloc_small_outcome:
  assumes h: "heap_ok st (B, N, bl, mp)" and n: "\<not> invalidSize n" "MDSZ + n \<le> SIZE_128K"
  shows "\<exists>r st' bl'. smalloc k st n = Some (r, st') \<and> heap_ok st' (B, N, bl', mp) \<and> bytes st' = bytes st
    \<and> keeps_blocks n bl bl'
    \<and> (case r of
         None \<Rightarrow> bl' = bl \<and> (\<forall>l. need (MDSZ + n) \<le> l \<and> l \<le> MAX_ORDER \<longrightarrow> free_at bl l = {})
       | Some p \<Rightarrow> in_use (B, N, bl, mp) p = None \<and> in_use (B, N, bl', mp) = (in_use (B, N, bl, mp))(p \<mapsto> capacity n))"
proof -
  have ok: "arena_ok B N bl mp" and rep: "buddy_rep st bl mp" using h by simp_all
  obtain r st' where r: "alloc_spec bl (MDSZ + n) r" "heap_ok st' (B, N, alloc_blocks bl (MDSZ + n) r, mp)"
      "smalloc k st n = Some (map_option (\<lambda>(a, j). a + MDSZ) r, st')" "bytes st' = bytes st"
    using smalloc_small [OF h n] by blast
  note keep = alloc_blocks_keeps [OF ok r(1) n(2)]
  show ?thesis
  proof (cases r)
    case None
    then have "alloc_blocks bl (MDSZ + n) r = bl" "\<forall>l. need (MDSZ + n) \<le> l \<and> l \<le> MAX_ORDER \<longrightarrow> free_at bl l = {}"
      using r(1) by (simp_all add: alloc_blocks_def alloc_spec_def)
    then show ?thesis using r None by (intro exI [of _ None] exI [of _ st'] exI [of _ bl]) simp
  next
    case (Some ak)
    obtain a j where a: "r = Some (a, j)" using Some by (cases ak) simp
    have "bl a = Some (j, True)" using r(1) a by (simp add: alloc_spec_def free_at_def)
    then have "order_in_use bl a = None" "mp a = None" using repD(7) [OF rep] by (auto simp: order_in_use_def)
    then have "in_use (B, N, bl, mp) (a + MDSZ) = None" by simp
    moreover have "in_use (B, N, alloc_blocks bl (MDSZ + n) r, mp)
        = (in_use (B, N, bl, mp))(a + MDSZ \<mapsto> bsz (need (MDSZ + n)) - MDSZ)"
      unfolding a by (rule in_use_upd_block) (use alloc_blocks_in_use [OF ok] r(1) a in blast)
    ultimately show ?thesis using r(2,3,4) a n(2) keep
      by (intro exI [of _ "Some (a + MDSZ)"] exI [of _ st'] exI [of _ "alloc_blocks bl (MDSZ + n) r"])
        (auto simp: capacity_def simp del: in_use.simps heap_ok.simps)
  qed
qed

lemma smalloc_outcome:
  assumes h: "heap_ok st (B, N, bl, mp)" and k: "kernel_ok (B, N, bl, mp) k n"
  shows "\<exists>r st' bl' mp'. smalloc k st n = Some (r, st') \<and> heap_ok st' (B, N, bl', mp') \<and> bytes st' = bytes st
    \<and> keeps_blocks n bl bl'
    \<and> (case r of
         None \<Rightarrow> bl' = bl \<and> mp' = mp
           \<and> (invalidSize n \<or> (\<forall>l. need (MDSZ + n) \<le> l \<and> l \<le> MAX_ORDER \<longrightarrow> free_at bl l = {}))
       | Some p \<Rightarrow> in_use (B, N, bl, mp) p = None \<and> in_use (B, N, bl', mp') = (in_use (B, N, bl, mp))(p \<mapsto> capacity n))"
proof -
  have rep: "buddy_rep st bl mp" using h by simp
  consider "invalidSize n" | "\<not> invalidSize n" "MDSZ + n \<le> SIZE_128K" | "\<not> invalidSize n" "SIZE_128K < MDSZ + n"
    by linarith
  then show ?thesis
  proof cases
    case 1
    then have "smalloc k st n = Some (None, st)" using smalloc_invalid [OF rep] by blast
    then show ?thesis using h 1 by (intro exI [of _ None] exI [of _ st] exI [of _ bl] exI [of _ mp]) simp
  next
    case 2
    obtain r st' bl' where r: "smalloc k st n = Some (r, st')" "heap_ok st' (B, N, bl', mp)" "bytes st' = bytes st"
        "keeps_blocks n bl bl'"
        "case r of None \<Rightarrow> bl' = bl \<and> (\<forall>l. need (MDSZ + n) \<le> l \<and> l \<le> MAX_ORDER \<longrightarrow> free_at bl l = {})
         | Some p \<Rightarrow> in_use (B, N, bl, mp) p = None \<and> in_use (B, N, bl', mp) = (in_use (B, N, bl, mp))(p \<mapsto> capacity n)"
      using smalloc_small_outcome [OF h 2] by blast
    then show ?thesis
      by (intro exI [of _ r] exI [of _ st'] exI [of _ bl'] exI [of _ mp])
        (auto simp del: in_use.simps heap_ok.simps split: option.splits)
  next
    case 3
    obtain x st' where x: "x \<notin> dom bl" "x \<notin> dom mp" "smalloc k st n = Some (Some (x + MDSZ), st')"
        "heap_ok st' (B, N, bl, mp(x \<mapsto> MDSZ + n))" "bytes st' = bytes st"
      using smalloc_large [OF h 3 k] by blast
    have "order_in_use bl x = None" "mp x = None" using x(1,2) by (auto simp: order_in_use_def split: option.splits)
    then have "in_use (B, N, bl, mp) (x + MDSZ) = None" by simp
    moreover have "in_use (B, N, bl, mp(x \<mapsto> MDSZ + n)) = (in_use (B, N, bl, mp))(x + MDSZ \<mapsto> capacity n)"
      using in_use_add_mapping(1) [OF x(1), of B N mp "MDSZ + n"] 3(2) by (simp add: capacity_def)
    ultimately show ?thesis using x(3,4,5)
      by (intro exI [of _ "Some (x + MDSZ)"] exI [of _ st'] exI [of _ bl] exI [of _ "mp(x \<mapsto> MDSZ + n)"])
        (auto simp del: in_use.simps heap_ok.simps fun_upd_apply)
  qed
qed

lemma smalloc_contract:
  assumes h: "heap_ok st A" and k: "kernel_ok A k n"
  shows "\<exists>r st' A'. smalloc k st n = Some (r, st') \<and> heap_ok st' A'
    \<and> (case r of None \<Rightarrow> in_use A' = in_use A
       | Some p \<Rightarrow> \<exists>c \<ge> n. in_use A p = None \<and> in_use A' = (in_use A)(p \<mapsto> c))"
proof -
  obtain B N bl mp where A: "A = (B, N, bl, mp)" by (cases A)
  obtain r st' bl' mp' where "smalloc k st n = Some (r, st')" "heap_ok st' (B, N, bl', mp')"
      "case r of None \<Rightarrow> bl' = bl \<and> mp' = mp
           \<and> (invalidSize n \<or> (\<forall>l. need (MDSZ + n) \<le> l \<and> l \<le> MAX_ORDER \<longrightarrow> free_at bl l = {}))
       | Some p \<Rightarrow> in_use A p = None \<and> in_use (B, N, bl', mp') = (in_use A)(p \<mapsto> capacity n)"
    using smalloc_outcome [OF h [unfolded A] k [unfolded A]] unfolding A by blast
  then show ?thesis using capacity_ge [of n] A
    by (intro exI [of _ r] exI [of _ st'] exI [of _ "(B, N, bl', mp')"])
      (auto simp del: in_use.simps heap_ok.simps split: option.splits)
qed

lemma sfree_contract:
  assumes h: "heap_ok st A" and p: "in_use A p = Some c" and s: "free_safe A p"
  shows "\<exists>st' A'. sfree st (Some p) = Some st' \<and> heap_ok st' A' \<and> in_use A' = (in_use A)(p := None)"
proof -
  obtain B N bl mp where A: "A = (B, N, bl, mp)" by (cases A)
  have ok: "arena_ok B N bl mp" "mappings_ok B N mp" and rep: "buddy_rep st bl mp" using h A by simp_all
  show ?thesis using p unfolding A
  proof (cases rule: in_use_cases)
    case (block a k)
    have "merge_safe (MAX_ORDER - k) (bl(a \<mapsto> (k, True))) a k" using s A block by simp
    from sfree_block [OF rep ok(1) block(2) this]
    obtain st' where "sfree st (Some p) = Some st'" "heap_ok st' (B, N, free_blocks bl a k, mp)"
      using block(1) ok(2) by auto
    moreover have "mp a = None" using repD(7) [OF rep] block(2) by blast
    then have "in_use (B, N, free_blocks bl a k, mp) = (in_use A)(p := None)"
      unfolding A block(1) by (intro in_use_free_block free_blocks_in_use block(2))
    ultimately show "\<exists>st' A'. sfree st (Some p) = Some st' \<and> heap_ok st' A'
        \<and> in_use A' = (in_use (B, N, bl, mp))(p := None)"
      unfolding A by blast
  next
    case (mapping a u)
    have "a \<notin> dom bl" using repD(7) [OF rep] mapping(2) by blast
    from in_use_add_mapping(2) [OF this, of B N mp] mapping(1)
    have "in_use (B, N, bl, mp(a := None)) = (in_use (B, N, bl, mp))(p := None)" by simp
    moreover obtain st' where "sfree st (Some p) = Some st'" "buddy_rep st' bl (mp(a := None))"
      using sfree_mapping [OF rep mapping(2)] mapping(1) by blast
    moreover have "arena_ok B N bl (mp(a := None))" using ok(1) by (auto simp: arena_ok_def)
    ultimately show "\<exists>st' A'. sfree st (Some p) = Some st' \<and> heap_ok st' A'
        \<and> in_use A' = (in_use (B, N, bl, mp))(p := None)"
      using mappings_ok_del [OF ok(2), of a]
      by (intro exI [of _ st'] exI [of _ "(B, N, bl, mp(a := None))"]) (simp del: in_use.simps)
  qed
qed

interpretation m3: allocator heap_ok in_use smalloc sfree kernel_ok "\<lambda>n. n" free_safe
proof unfold_locales
  fix st A p q c d
  assume "heap_ok st A" "in_use A p = Some c" "in_use A q = Some d" "p \<noteq> q"
  then show "p + c \<le> q \<or> q + d \<le> p"
    by (cases A) (metis in_use_apart linorder_neqE_nat)
qed (use smalloc_contract sfree_contract in \<open>simp_all add: sfree_def\<close>)

subsection \<open>Statistics\<close>

lemma sum_loop_seg:
  "seg h p xs None \<Longrightarrow> sum_loop h f p acc = Some (to_unsigned 64 (acc + (\<Sum>a\<leftarrow>xs. f (the (h a)))))"
proof (induction xs arbitrary: p acc)
  case Nil
  then show ?case by (subst sum_loop.simps) simp
next
  case (Cons a xs)
  then show ?case by (subst sum_loop.simps) (auto simp: algebra_simps)
qed

lemma sum_loop_set:
  assumes "md_set h l S"
  shows "sum_loop h f (head l) 0 = Some (to_unsigned 64 (\<Sum>a\<in>S. f (the (h a))))" "finite S"
proof -
  obtain xs where "md_list h l xs" "set xs = S" using assms by (auto simp: md_set_def)
  then show "sum_loop h f (head l) 0 = Some (to_unsigned 64 (\<Sum>a\<in>S. f (the (h a))))" "finite S"
    using sum_loop_seg [of h "head l" xs f 0]
    by (auto simp: md_list_def strict_sorted_iff sum_list_distinct_conv_sum_set)
qed

text \<open>A quantity \<open>g\<close> of the blocks, and \<open>g'\<close> of the mappings, added up.\<close>

definition total :: "(nat \<Rightarrow> bool \<Rightarrow> nat) \<Rightarrow> blocks \<Rightarrow> nat" where
  "total g bl = (\<Sum>a\<in>dom bl. g (fst (the (bl a))) (snd (the (bl a))))"

definition total_mp :: "(nat \<Rightarrow> nat) \<Rightarrow> mappings \<Rightarrow> nat" where
  "total_mp g mp = (\<Sum>a\<in>dom mp. g (the (mp a)))"

definition order_total :: "(nat \<Rightarrow> bool \<Rightarrow> nat) \<Rightarrow> blocks \<Rightarrow> nat \<Rightarrow> nat" where
  "order_total g bl k = (\<Sum>a\<in>of_order bl k. g k (snd (the (bl a))))"

lemma to_signed_add: "to_signed 32 (to_signed 32 x + y) = to_signed 32 (x + y)"
proof -
  have "((x + 2 ^ 31) mod 2 ^ 32 + y) mod 2 ^ 32 = (x + 2 ^ 31 + y) mod 2 ^ 32" by (rule mod_add_left_eq)
  then show ?thesis by (simp add: to_signed_def algebra_simps)
qed

lemma to_signed_mod: "to_signed 32 (acc + int (to_unsigned 64 (int v))) = to_signed 32 (acc + int v)"
proof -
  have "(2::int) ^ 32 dvd 2 ^ 64" by (rule le_imp_power_dvd) simp
  then have "(int v mod 2 ^ 64) mod 2 ^ 32 = int v mod 2 ^ 32" by (rule mod_mod_cancel)
  then have "(acc + 2 ^ 31 + int v mod 2 ^ 64) mod 2 ^ 32 = (acc + 2 ^ 31 + int v) mod 2 ^ 32"
    by (metis mod_add_right_eq)
  then show ?thesis by (simp add: to_signed_def to_unsigned_def algebra_simps)
qed

lemma add_int_sum:
  "list_all2 (\<lambda>l v. F l = Some (to_unsigned 64 (int v))) ls vs \<Longrightarrow>
   add_int F (to_signed 32 acc) ls = Some (to_signed 32 (acc + int (sum_list vs)))"
proof (induction ls vs arbitrary: acc rule: list_all2_induct)
  case (Cons l ls v vs)
  have "to_signed 32 (to_signed 32 acc + int (to_unsigned 64 (int v))) = to_signed 32 (acc + int v)"
    by (simp only: to_signed_add to_signed_mod)
  then show ?case using Cons.hyps Cons.IH [of "acc + int v"] by (simp add: add.assoc)
qed simp

lemma add_size_sum:
  "list_all2 (\<lambda>l v. F l = Some (to_unsigned 64 (int v))) ls vs \<Longrightarrow>
   add_size F (acc mod 2 ^ 64) ls = Some ((acc + sum_list vs) mod 2 ^ 64)"
proof (induction ls vs arbitrary: acc rule: list_all2_induct)
  case (Cons l ls v vs)
  have "to_unsigned 64 (int v) = v mod 2 ^ 64" by (simp add: to_unsigned_def nat_mod_distrib)
  then have "(acc mod 2 ^ 64 + to_unsigned 64 (int v)) mod 2 ^ 64 = (acc + v) mod 2 ^ 64"
    by (metis mod_add_eq)
  then show ?case using Cons.hyps Cons.IH [of "acc + v"] by (simp add: algebra_simps)
qed simp

lemma total_orders:
  assumes rep: "buddy_rep st bl mp"
  shows "sum_list (map (order_total g bl) [0..<Suc MAX_ORDER]) = total g bl" "finite (dom bl)"
proof -
  have fin: "finite (of_order bl k)" if "k \<le> MAX_ORDER" for k
    using sum_loop_set(2) [OF repD(2) [OF rep that]] .
  have dom: "dom bl = (\<Union>k\<in>{0..<Suc MAX_ORDER}. of_order bl k)"
    using repD(4) [OF rep] by (force simp: of_order_def)
  show "finite (dom bl)" using fin unfolding dom by auto
  have "total g bl = (\<Sum>k\<in>{0..<Suc MAX_ORDER}. \<Sum>a\<in>of_order bl k. g (fst (the (bl a))) (snd (the (bl a))))"
    unfolding total_def dom by (rule sum.UNION_disjoint) (use fin in \<open>auto simp: of_order_def\<close>)
  also have "\<dots> = (\<Sum>k\<in>{0..<Suc MAX_ORDER}. order_total g bl k)"
    unfolding order_total_def by (intro sum.cong refl) (auto simp: of_order_def)
  finally show "sum_list (map (order_total g bl) [0..<Suc MAX_ORDER]) = total g bl"
    by (simp only: interv_sum_list_conv_sum_set_nat set_upt)
qed

lemma order_lists:
  assumes rep: "buddy_rep st bl mp" and k: "k \<le> MAX_ORDER"
    and w: "\<And>m f. size m = bsz k \<Longrightarrow> is_free m = f \<Longrightarrow> w m = int (g k f)"
  shows "sum_loop (mem st) w (head (mdListArr st ! k)) 0 = Some (to_unsigned 64 (int (order_total g bl k)))"
proof -
  have "w (the (mem st a)) = int (g k (snd (the (bl a))))" if a: "a \<in> of_order bl k" for a
  proof -
    obtain f where b: "bl a = Some (k, f)" using a by (auto simp: of_order_def)
    then show ?thesis using coreD [OF repD(5) [OF rep b]] w by auto
  qed
  then have "(\<Sum>a\<in>of_order bl k. w (the (mem st a))) = int (order_total g bl k)"
    by (simp add: order_total_def)
  then show ?thesis using sum_loop_set(1) [OF repD(2) [OF rep k], of w] by simp
qed

lemma mapped_lists:
  assumes rep: "buddy_rep st bl mp"
    and w: "\<And>m s a. mp a = Some s \<Longrightarrow> size m = s \<Longrightarrow> w m = int (g s)"
  shows "sum_loop (mem st) w (head (mappedList st)) 0 = Some (to_unsigned 64 (int (total_mp g mp)))"
proof -
  have "w (the (mem st a)) = int (g (the (mp a)))" if a: "a \<in> dom mp" for a
  proof -
    obtain s where b: "mp a = Some s" using a by auto
    then show ?thesis using coreD [OF repD(6) [OF rep b]] w by auto
  qed
  then have "(\<Sum>a\<in>dom mp. w (the (mem st a))) = int (total_mp g mp)" by (simp add: total_mp_def)
  then show ?thesis using sum_loop_set(1) [OF repD(3) [OF rep], of w] by simp
qed

lemma order_lists_all:
  assumes rep: "buddy_rep st bl mp"
    and w: "\<And>m k. k \<le> MAX_ORDER \<Longrightarrow> size m = bsz k \<Longrightarrow> w m = int (g k (is_free m))"
  shows "list_all2 (\<lambda>l v. sum_loop (mem st) w (head l) 0 = Some (to_unsigned 64 (int v)))
    (mdListArr st) (map (order_total g bl) [0..<Suc MAX_ORDER])"
  unfolding list_all2_conv_all_nth
proof (intro conjI allI impI)
  fix k assume "k < length (mdListArr st)"
  then have k: "k \<le> MAX_ORDER" using repD(1) [OF rep] by simp
  then have "map (order_total g bl) [0..<Suc MAX_ORDER] ! k = order_total g bl k"
    by (simp del: upt_Suc)
  then show "sum_loop (mem st) w (head (mdListArr st ! k)) 0
      = Some (to_unsigned 64 (int (map (order_total g bl) [0..<Suc MAX_ORDER] ! k)))"
    using order_lists [OF rep k, of w g] w [OF k] by simp
qed (simp add: repD(1) [OF rep])

lemma all_lists:
  assumes rep: "buddy_rep st bl mp"
    and w: "\<And>m k. k \<le> MAX_ORDER \<Longrightarrow> size m = bsz k \<Longrightarrow> w m = int (g k (is_free m))"
    and w': "\<And>m s a. mp a = Some s \<Longrightarrow> size m = s \<Longrightarrow> w m = int (g' s)"
  shows "list_all2 (\<lambda>l v. sum_loop (mem st) w (head l) 0 = Some (to_unsigned 64 (int v)))
    (mdListArr st @ [mappedList st]) (map (order_total g bl) [0..<Suc MAX_ORDER] @ [total_mp g' mp])"
proof (rule list_all2_appendI)
  show "list_all2 (\<lambda>l v. sum_loop (mem st) w (head l) 0 = Some (to_unsigned 64 (int v)))
      (mdListArr st) (map (order_total g bl) [0..<Suc MAX_ORDER])"
    by (rule order_lists_all [OF rep]) (rule w)
  have "sum_loop (mem st) w (head (mappedList st)) 0 = Some (to_unsigned 64 (int (total_mp g' mp)))"
    by (rule mapped_lists [OF rep]) (rule w')
  then show "list_all2 (\<lambda>l v. sum_loop (mem st) w (head l) 0 = Some (to_unsigned 64 (int v)))
      [mappedList st] [total_mp g' mp]" by simp
qed

lemma to_signed_0: "to_signed 32 0 = 0"
  by (simp add: to_signed_def)

definition payload :: "nat \<Rightarrow> nat" where "payload k = bsz k - MDSZ"

lemma stats_rep:
  assumes rep: "buddy_rep st bl mp" and mo: "mappings_ok B N mp"
  shows "num_free_blocks st = Some (to_unsigned 64 (to_signed 32 (int (total (\<lambda>k f. of_bool f) bl))))"
    "num_free_bytes st = Some (total (\<lambda>k f. of_bool f * payload k) bl mod 2 ^ 64)"
    "num_allocated_blocks st = Some (to_unsigned 64 (to_signed 32 (int (total (\<lambda>k f. 1) bl + total_mp (\<lambda>s. 1) mp))))"
    "num_allocated_bytes st = Some (to_unsigned 64 (to_signed 32
       (int (total (\<lambda>k f. payload k) bl + total_mp (\<lambda>s. s - MDSZ) mp))))"
proof -
  have pay: "int (bsz k) - int MDSZ = int (payload k)" for k
    using MDSZ_bsz [of k] by (simp add: payload_def)
  note sums = total_orders(1) [OF rep]
  note int = add_int_sum [where acc = 0, simplified to_signed_0 add_0]
  show "num_free_blocks st = Some (to_unsigned 64 (to_signed 32 (int (total (\<lambda>k f. of_bool f) bl))))"
    using int [OF order_lists_all [OF rep, where g = "\<lambda>k f. of_bool f"], of "\<lambda>m. if is_free m then 1 else 0"]
    by (simp add: num_free_blocks_def freeBlocksNum_def [abs_def] sums del: upt_Suc)
  show "num_free_bytes st = Some (total (\<lambda>k f. of_bool f * payload k) bl mod 2 ^ 64)"
    using add_size_sum [OF order_lists_all [OF rep, where g = "\<lambda>k f. of_bool f * payload k"],
        of "\<lambda>m. if is_free m then int (size m) - int MDSZ else 0" 0]
    by (simp add: num_free_bytes_def freeBlocksNumBytes_def [abs_def] sums pay del: upt_Suc)
  show "num_allocated_blocks st = Some (to_unsigned 64 (to_signed 32 (int (total (\<lambda>k f. 1) bl + total_mp (\<lambda>s. 1) mp))))"
    using int [OF all_lists [OF rep, where g = "\<lambda>k f. 1" and g' = "\<lambda>s. 1"], of "\<lambda>m. 1"]
    by (simp add: num_allocated_blocks_def allBlocksNum_def [abs_def] sums del: upt_Suc)
  have "int s - int MDSZ = int (s - MDSZ)" if "mp a = Some s" for a s
    using mappings_okD(1) [OF mo that] by simp
  then show "num_allocated_bytes st = Some (to_unsigned 64 (to_signed 32
       (int (total (\<lambda>k f. payload k) bl + total_mp (\<lambda>s. s - MDSZ) mp))))"
    using int [OF all_lists [OF rep, where g = "\<lambda>k f. payload k" and g' = "\<lambda>s. s - MDSZ"],
        of "\<lambda>m. int (size m) - int MDSZ"]
    by (simp add: num_allocated_bytes_def allBlocksNumBytes_def [abs_def] sums pay del: upt_Suc)
qed

text \<open>An \<open>int\<close> converted to \<open>size_t\<close> is small or huge.\<close>

lemma unsigned_of_int:
  "to_unsigned 64 (to_signed 32 x) < 2 ^ 31 \<or> 2 ^ 63 \<le> to_unsigned 64 (to_signed 32 x)"
proof -
  have s: "- (2 ^ 31) \<le> to_signed 32 x" "to_signed 32 x < 2 ^ 31"
    using to_signed_range [of 32 x] by simp_all
  show ?thesis
  proof (cases "0 \<le> to_signed 32 x")
    case True
    then show ?thesis using s(2) by (simp add: to_unsigned_def nat_less_iff)
  next
    case False
    have "(to_signed 32 x + 2 ^ 64) mod 2 ^ 64 = to_signed 32 x + 2 ^ 64"
      by (rule mod_pos_pos_trivial) (use s False in auto)
    then have "to_signed 32 x mod 2 ^ 64 = to_signed 32 x + 2 ^ 64" by simp
    then have "to_unsigned 64 (to_signed 32 x) = nat (to_signed 32 x + 2 ^ 64)" by (simp add: to_unsigned_def)
    then show ?thesis using s(1) by (simp add: le_nat_iff)
  qed
qed

text \<open>The blocks fill the arena, so there are at most 1024 of them per block of the largest order.\<close>

lemma tiling_total:
  assumes t: "tiling B N bl" and fin: "finite (dom bl)"
  shows "total (\<lambda>k f. bsz k) bl = N * bsz MAX_ORDER"
proof -
  let ?I = "\<lambda>a. {a..<a + bsz (fst (the (bl a)))}"
  have eq: "{B..<B + N * bsz MAX_ORDER} = (\<Union>a\<in>dom bl. ?I a)" (is "?L = ?R")
  proof (intro subset_antisym subsetI)
    fix x assume "x \<in> ?L"
    then obtain a where "covers bl a x" using tiling_ex1 [OF t, of x] by auto
    then show "x \<in> ?R" by (force simp: covers_def)
  next
    fix x assume "x \<in> ?R"
    then obtain a k f where "bl a = Some (k, f)" "a \<le> x" "x < a + bsz k" by auto
    then show "x \<in> ?L" using tilingD(3,4) [OF t] by fastforce
  qed
  have "?I a \<inter> ?I b = {}" if ab: "a \<in> dom bl" "b \<in> dom bl" "a < b" for a b
  proof -
    obtain k f j g where "bl a = Some (k, f)" "bl b = Some (j, g)" using ab by auto
    then show ?thesis using tiling_disjoint [OF t _ _ ab(3)] by fastforce
  qed
  then have "\<forall>a\<in>dom bl. \<forall>b\<in>dom bl. a \<noteq> b \<longrightarrow> ?I a \<inter> ?I b = {}"
    by (metis Int_commute linorder_neqE_nat)
  then have "card (\<Union>a\<in>dom bl. ?I a) = (\<Sum>a\<in>dom bl. card (?I a))"
    by (intro card_UN_disjoint fin) auto
  then show ?thesis unfolding eq [symmetric] by (simp add: total_def)
qed

lemma tiling_count:
  assumes t: "tiling B N bl" and fin: "finite (dom bl)"
  shows "total (\<lambda>k f. payload k) bl + MDSZ * total (\<lambda>k f. 1) bl = N * bsz MAX_ORDER"
    "128 * total (\<lambda>k f. 1) bl \<le> N * bsz MAX_ORDER"
proof -
  have "payload k + MDSZ = bsz k" for k using MDSZ_bsz [of k] by (simp add: payload_def)
  then show "total (\<lambda>k f. payload k) bl + MDSZ * total (\<lambda>k f. 1) bl = N * bsz MAX_ORDER"
    using tiling_total [OF t fin] sum.distrib [of "\<lambda>a. payload (fst (the (bl a)))" "\<lambda>a. MDSZ" "dom bl"]
    by (simp add: total_def mult.commute)
  have "128 \<le> bsz k" for k by (simp add: bsz_def)
  then have "(\<Sum>a\<in>dom bl. 128 * 1) \<le> total (\<lambda>k f. bsz k) bl" unfolding total_def by (intro sum_mono) simp
  then show "128 * total (\<lambda>k f. 1) bl \<le> N * bsz MAX_ORDER"
    using tiling_total [OF t fin] by (simp add: total_def)
qed

lemma total_mono: "(\<And>k f. g k f \<le> g' k f) \<Longrightarrow> total g bl \<le> total g' bl"
  unfolding total_def by (intro sum_mono) blast

subsection \<open>The first call\<close>

lemma first_heap:
  assumes "sbrk_ok k (first_amount k)"
  shows "\<exists>st. first_init k (init_buddy b) = Some st
    \<and> heap_ok st (first_base k, 32, initial_blocks (first_base k) 32, Map.empty) \<and> bytes st = b
    \<and> heap_end st = first_base k + 32 * SIZE_128K"
  using first_init_rep [of "init_buddy b" k] assms by (auto simp: init_buddy_def mappings_ok_def)

lemma smalloc_first:
  assumes "first_init k st = Some st0" "\<not> firstMalloc st0"
  shows "smalloc k st n = smalloc k st0 n"
  using assms by (simp add: smalloc_def first_init_def Let_def)

subsection \<open>Properties\<close>

text \<open>
  C27. \<open>smalloc\<close> of the buddy allocator, on every branch. A size of 0 or above 100000000 gives NULL and
  changes nothing. A request that fits 128 KiB with its metadata gets the lowest free block of the smallest
  order that has one, split down to the smallest sufficient order (NULL when there is none), and
  the blocks still tile the arena; a larger one gets a mapping of its own. No byte of user data changes.
\<close>

theorem smalloc_correct:
  assumes "heap_ok st (B, N, bl, mp)" "kernel_ok (B, N, bl, mp) k n"
  shows "if invalidSize n then smalloc k st n = Some (None, st)
    else if MDSZ + n \<le> SIZE_128K
    then \<exists>r st'. alloc_spec bl (MDSZ + n) r \<and> smalloc k st n = Some (map_option (\<lambda>(a, j). a + MDSZ) r, st')
      \<and> heap_ok st' (B, N, alloc_blocks bl (MDSZ + n) r, mp) \<and> bytes st' = bytes st
    else \<exists>x st'. mmap_res k (MDSZ + n) = Some x \<and> smalloc k st n = Some (Some (x + MDSZ), st')
      \<and> heap_ok st' (B, N, bl, mp(x \<mapsto> MDSZ + n)) \<and> bytes st' = bytes st"
proof (cases "invalidSize n")
  case True
  then show ?thesis using smalloc_invalid [of st bl mp n k] assms(1) by simp
next
  case valid: False
  then show ?thesis
    using smalloc_small [OF assms(1) valid] smalloc_large [OF assms(1) valid _ assms(2)]
    by (cases "MDSZ + n \<le> SIZE_128K") (auto simp del: heap_ok.simps)
qed

text \<open>The bytes of the process are not part of the representation.\<close>

lemma heap_ok_bytes: "heap_ok (st\<lparr>bytes := b\<rparr>) A = heap_ok st A"
  by (cases A) (simp add: buddy_rep_def)

lemma scalloc_smalloc:
  assumes "heap_ok st A" "kernel_ok A k n" "smalloc k st n = Some (Some p, st')"
    and "num \<noteq> 0" "sz \<noteq> 0" "(sz * num) mod 2 ^ 64 = n"
  shows "scalloc k st num sz = Some (Some p, st'\<lparr>bytes := memset (bytes st) p NUL n\<rparr>)"
proof -
  obtain B N bl mp where A: "A = (B, N, bl, mp)" by (cases A)
  have "bytes st' = bytes st" using smalloc_outcome [OF assms(1,2) [unfolded A]] assms(3) by auto
  moreover have "n \<le> 100000000"
    using assms(3) by (cases "first_init k st") (auto simp: smalloc_def invalidSize_def Let_def split: if_splits)
  ultimately show ?thesis using assms(3-6) by (simp add: scalloc_def Let_def)
qed

text \<open>
  C28. What \<open>smalloc\<close> hands out is not in use, as long as \<open>mmap\<close> keeps its promise (a region of the length asked for
  that overlaps neither the arena nor another mapping). The block has at least the bytes asked for, overlaps no
  block or mapping in use, and afterwards exactly it is in use in addition. Freeing it at once takes the
  heap back to the same blocks in use when no free buddy met on the way up is smaller (the condition of C29; C31
  shows what happens otherwise). \<open>scalloc\<close> hands out the
  block \<open>smalloc\<close> would for the product modulo \<open>2 ^ 64\<close>, with that many bytes of it zero; no other byte changes, in
  particular none of a block in use.
\<close>

theorem smalloc_fresh:
  assumes "heap_ok st A" "kernel_ok A k n" "smalloc k st n = Some (Some p, st')"
  shows "\<exists>A' c. heap_ok st' A' \<and> n \<le> c \<and> in_use A' = (in_use A)(p \<mapsto> c)
    \<and> (\<forall>q d. in_use A q = Some d \<longrightarrow> p + n \<le> q \<or> q + d \<le> p)
    \<and> (free_safe A' p \<longrightarrow>
        (\<exists>st'' A''. sfree st' (Some p) = Some st'' \<and> heap_ok st'' A'' \<and> in_use A'' = in_use A))
    \<and> (\<forall>num sz. num \<noteq> 0 \<and> sz \<noteq> 0 \<and> (sz * num) mod 2 ^ 64 = n \<longrightarrow>
        (\<exists>st''. scalloc k st num sz = Some (Some p, st'') \<and> heap_ok st'' A'
          \<and> (\<forall>x. bytes st'' x = (if p \<le> x \<and> x < p + n then NUL else bytes st x))
          \<and> (\<forall>q d x. in_use A q = Some d \<and> q \<le> x \<and> x < q + d \<longrightarrow> bytes st'' x = bytes st x)))"
proof -
  obtain A' c where a: "heap_ok st' A'" "n \<le> c" "in_use A p = None" "in_use A' = (in_use A)(p \<mapsto> c)"
    using m3.alloc_live [OF assms(1,2)] assms(3) by fastforce
  have restore: "(in_use A')(p := None) = in_use A" using a(3,4) by auto
  have "\<exists>st'' A''. sfree st' (Some p) = Some st'' \<and> heap_ok st'' A'' \<and> in_use A'' = in_use A"
    if "free_safe A' p"
    using m3.release_live [OF a(1) _ that, of c] a(4) unfolding restore by simp
  moreover have "\<exists>st''. scalloc k st num sz = Some (Some p, st'') \<and> heap_ok st'' A'
      \<and> (\<forall>x. bytes st'' x = (if p \<le> x \<and> x < p + n then NUL else bytes st x))
      \<and> (\<forall>q d x. in_use A q = Some d \<and> q \<le> x \<and> x < q + d \<longrightarrow> bytes st'' x = bytes st x)"
    if "num \<noteq> 0" "sz \<noteq> 0" "(sz * num) mod 2 ^ 64 = n" for num sz
    using scalloc_smalloc [OF assms that] a(1) m3.alloc_apart [OF assms]
    by (intro exI [of _ "st'\<lparr>bytes := memset (bytes st) p NUL n\<rparr>"]) (fastforce simp: heap_ok_bytes memset_def)
  ultimately show ?thesis using a m3.alloc_apart [OF assms]
    by (intro exI [of _ A'] exI [of _ c] conjI allI impI) blast+
qed

text \<open>
  C29. \<open>sfree\<close>. NULL and a block that is free already change nothing; a mapping is unmapped; a block in use
  becomes free and is joined with its buddy as long as that is free and of the same order, provided that no
  free buddy it meets is smaller. The blocks still tile the arena, exactly the freed one is no longer in use,
  and no byte of user data changes.
\<close>

theorem sfree_correct:
  assumes "heap_ok st (B, N, bl, mp)"
  shows "sfree st None = Some st
    \<and> (bl a = Some (k, True) \<longrightarrow> sfree st (Some (a + MDSZ)) = Some st)
    \<and> (mp a = Some s \<longrightarrow> (\<exists>st'. sfree st (Some (a + MDSZ)) = Some st' \<and> bytes st' = bytes st
         \<and> heap_ok st' (B, N, bl, mp(a := None))))
    \<and> (bl a = Some (k, False) \<and> merge_safe (MAX_ORDER - k) (bl(a \<mapsto> (k, True))) a k \<longrightarrow>
         (\<exists>st'. sfree st (Some (a + MDSZ)) = Some st' \<and> bytes st' = bytes st
           \<and> heap_ok st' (B, N, free_blocks bl a k, mp)
           \<and> order_in_use (free_blocks bl a k) = (order_in_use bl)(a := None)))"
proof (intro conjI impI)
  have rep: "buddy_rep st bl mp" and ok: "arena_ok B N bl mp" "mappings_ok B N mp" using assms by simp_all
  show "sfree st None = Some st" by (simp add: sfree_def)
  show "sfree st (Some (a + MDSZ)) = Some st" if "bl a = Some (k, True)" using sfree_free [OF rep that] .
  show "\<exists>st'. sfree st (Some (a + MDSZ)) = Some st' \<and> bytes st' = bytes st \<and> heap_ok st' (B, N, bl, mp(a := None))"
    if "mp a = Some s"
    using sfree_mapping [OF rep that] mappings_ok_del [OF ok(2), of a] ok(1) by (auto simp: arena_ok_def)
  show "\<exists>st'. sfree st (Some (a + MDSZ)) = Some st' \<and> bytes st' = bytes st
      \<and> heap_ok st' (B, N, free_blocks bl a k, mp) \<and> order_in_use (free_blocks bl a k) = (order_in_use bl)(a := None)"
    if "bl a = Some (k, False) \<and> merge_safe (MAX_ORDER - k) (bl(a \<mapsto> (k, True))) a k"
    using sfree_block [OF rep ok(1)] that ok(2) free_blocks_in_use [of bl a k] by auto
qed

text \<open>
  C30. The statistics of the buddy allocator. The numbers of free and of all blocks, the free bytes and the
  bytes of metadata are what the blocks and mappings say, and the bytes of the blocks together with their
  metadata always make up the 4 MiB of the arena. The bytes allocated are summed in an \<open>int\<close>: the result
  is right exactly when they are fewer than \<open>2 ^ 31\<close>.
\<close>

theorem malloc_3_statistics:
  assumes "heap_ok st (B, 32, bl, mp)" "card (dom mp) < 2 ^ 30"
    "T = total (\<lambda>k f. payload k) bl + total_mp (\<lambda>s. s - MDSZ) mp" "T < 2 ^ 63"
  shows "num_free_blocks st = Some (card {a. \<exists>k. bl a = Some (k, True)})
    \<and> num_free_bytes st = Some (total (\<lambda>k f. if f then payload k else 0) bl)
    \<and> num_allocated_blocks st = Some (card (dom bl) + card (dom mp))
    \<and> num_meta_data_bytes st = Some (size_meta_data * (card (dom bl) + card (dom mp)))
    \<and> total (\<lambda>k f. payload k) bl + size_meta_data * card (dom bl) = 32 * SIZE_128K
    \<and> (num_allocated_bytes st = Some T \<longleftrightarrow> T < 2 ^ 31)"
proof -
  have rep: "buddy_rep st bl mp" and t: "tiling B 32 bl" and mo: "mappings_ok B 32 mp"
    using assms(1) by (simp_all add: arena_ok_def)
  note fin = total_orders(2) [OF rep]
  note stats = stats_rep [OF rep mo]
  note cnt = tiling_count [OF t fin]
  have one: "total (\<lambda>k f. 1) bl = card (dom bl)" "total_mp (\<lambda>s. 1) mp = card (dom mp)"
    by (simp_all add: total_def total_mp_def)
  have arena: "32 * bsz MAX_ORDER = 2 ^ 22" by (simp add: bsz_def MAX_ORDER_def)
  have few: "card (dom bl) \<le> 2 ^ 15" using cnt(2) unfolding one arena by simp
  have fits: "to_unsigned 64 (to_signed 32 (int n)) = n" if "n < 2 ^ 31" for n
    using that by (simp add: to_signed_id to_unsigned_def)
  have free: "total (\<lambda>k f. of_bool f) bl = card {a. \<exists>k. bl a = Some (k, True)}"
  proof -
    have "{a. \<exists>k. bl a = Some (k, True)} = {a \<in> dom bl. snd (the (bl a))}" by force
    then show ?thesis using fin by (simp add: total_def of_bool_def sum.If_cases Int_def)
  qed
  have "total (\<lambda>k f. of_bool f) bl \<le> total (\<lambda>k f. 1) bl" by (rule total_mono) simp
  then have f1: "num_free_blocks st = Some (card {a. \<exists>k. bl a = Some (k, True)})"
    using stats(1) fits few unfolding free one by simp
  have "total (\<lambda>k f. of_bool f * payload k) bl \<le> total (\<lambda>k f. payload k) bl" by (rule total_mono) simp
  moreover have "total (\<lambda>k f. payload k) bl \<le> 2 ^ 22" using cnt(1) unfolding arena by simp
  moreover have "(\<lambda>k f. of_bool f * payload k) = (\<lambda>k f. if f then payload k else 0)" by (simp add: fun_eq_iff)
  ultimately have f2: "num_free_bytes st = Some (total (\<lambda>k f. if f then payload k else 0) bl)"
    using stats(2) by simp
  have f3: "num_allocated_blocks st = Some (card (dom bl) + card (dom mp))"
    using stats(3) fits [of "card (dom bl) + card (dom mp)"] few assms(2) unfolding one by simp
  then have f4: "num_meta_data_bytes st = Some (size_meta_data * (card (dom bl) + card (dom mp)))"
    using few assms(2) by (simp add: num_meta_data_bytes_def size_meta_data_def MDSZ_def)
  have b: "num_allocated_bytes st = Some (to_unsigned 64 (to_signed 32 (int T)))"
    unfolding assms(3) by (rule stats(4))
  have "num_allocated_bytes st \<noteq> Some T" if "\<not> T < 2 ^ 31"
  proof -
    have "to_unsigned 64 (to_signed 32 (int T)) < 2 ^ 31 \<or> 2 ^ 63 \<le> to_unsigned 64 (to_signed 32 (int T))"
      by (rule unsigned_of_int)
    then show ?thesis using b that assms(4) by auto
  qed
  then have "num_allocated_bytes st = Some T \<longleftrightarrow> T < 2 ^ 31" using b fits [of T] by auto
  then show ?thesis using f1 f2 f3 f4 cnt(1) unfolding one by (simp add: SIZE_128K_bsz size_meta_data_def)
qed

subsection \<open>The freed buddy that is smaller\<close>

text \<open>
  \<open>sfree\<close> of a lower half whose upper half starts with a smaller free block. Unlinking the smaller block from
  the list of the larger order does nothing, and the freed block takes the whole pair.
\<close>

lemma xor_bsz_ne: "a XOR bsz k \<noteq> a"
proof
  assume "a XOR bsz k = a"
  then have "a XOR (a XOR bsz k) = a XOR a" by simp
  then show False by (simp flip: xor.assoc)
qed

lemma lower_half_xor: "bsz (Suc i) dvd a \<Longrightarrow> a XOR bsz i = a + bsz i"
  using buddy_xor [of i a] bsz_dvd [of i "Suc i"] dvd_trans by auto

lemma need_bound: "sz \<le> bsz (need sz)"
proof -
  have "sz < 2 ^ sz" by (rule less_exp)
  also have "2 ^ sz \<le> bsz sz" by (simp add: bsz_def)
  finally have "sz \<le> bsz sz" by simp
  then show ?thesis using needI by blast
qed

text \<open>A block that starts in the upper half of a pair, with another block at the start of the half, ends in it.\<close>

lemma block_in_pair:
  assumes t: "tiling B N bl" and a: "bsz (Suc i) dvd a" and c: "bl c = Some (h, f)" "a < c" "c < a + bsz (Suc i)"
  shows "c + bsz h \<le> a + bsz (Suc i)"
proof (cases "Suc i \<le> h")
  case True
  then have "bsz (Suc i) dvd c" using tilingD(2) [OF t c(1)] bsz_dvd dvd_trans by blast
  then have "c \<le> a" using dvd_gap [OF a _ c(3)] by blast
  then show ?thesis using c(2) by simp
next
  case False
  then have "bsz h dvd a + bsz (Suc i)" using a bsz_dvd [of h "Suc i"] dvd_trans [of "bsz h" "bsz (Suc i)" a] by simp
  then have "bsz h dvd a + bsz (Suc i) - bsz h" by simp
  have d: "bsz h dvd c" using tilingD(2) [OF t c(1)] .
  have "bsz h \<le> a + bsz (Suc i)" using bsz_mono [of h "Suc i"] False by simp
  then have "c \<le> a + bsz (Suc i) - bsz h" using dvd_gap [OF _ d, of "a + bsz (Suc i) - bsz h"] c(3)
      \<open>bsz h dvd a + bsz (Suc i) - bsz h\<close> by simp
  then show ?thesis using \<open>bsz h \<le> a + bsz (Suc i)\<close> by simp
qed

lemma list_del_absent:
  assumes rep: "buddy_rep st bl mp" and b: "mem st b = Some m" "address m = b + MDSZ" "b \<notin> of_order bl i"
    and i: "i \<le> MAX_ORDER"
  shows "list_del st i b = Some st"
  using md_set_del_absent [OF repD(2) [OF rep i] b] repD(1) [OF rep] i by (simp add: list_del_def)

lemma merge_smaller:
  assumes rep: "buddy_rep st bl mp" and i: "i < MAX_ORDER" and a: "bl a = Some (i, True)"
    and b: "bl b = Some (j, True)" "j \<noteq> i" "a < b"
    and stop: "Suc i = MAX_ORDER \<or> bl (a XOR bsz (Suc i)) = Some (l, False)"
  shows "\<exists>st'. merge_loop st a b = Some st' \<and> buddy_rep st' (bl(a \<mapsto> (Suc i, True))) mp \<and> bytes st' = bytes st"
proof -
  note D = repD [OF rep]
  have ne: "b \<noteq> a" "\<not> b < a" using b(3) by simp_all
  obtain rm where rm: "mem st a = Some rm" "size rm = bsz i" "address rm = a + MDSZ"
    using coreD [OF D(5) [OF a]] by blast
  obtain nm where nm: "mem st b = Some nm" "is_free nm" "address nm = b + MDSZ"
    using coreD [OF D(5) [OF b(1)]] by blast
  have lt: "bsz i < SIZE_128K" using i bsz_less by (simp add: SIZE_128K_bsz)
  obtain st1 ma where s1: "list_del st i a = Some st1" "buddy_rep st1 (bl(a := None)) mp" "bytes st1 = bytes st"
    "mem st1 a = Some ma" "core ma = (bsz i, True, a + MDSZ, False)" "next_md ma = None"
    using rep_del [OF rep a] by blast
  have b1: "(bl(a := None)) b = Some (j, True)" using b ne by simp
  obtain mb where "mem st1 b = Some mb" "address mb = b + MDSZ" using coreD [OF repD(5) [OF s1(2) b1]] by blast
  then have s2: "list_del st1 i b = Some st1"
    using list_del_absent [OF s1(2)] b1 b(2) i by (simp add: of_order_def)
  let ?m = "ma\<lparr>size := size ma * 2, is_free := True\<rparr>"
  have m: "core ?m = (bsz (Suc i), True, a + MDSZ, False)" "next_md ?m = None" "size ?m = bsz (Suc i)"
    using s1(5,6) by (auto simp: core_def bsz_Suc)
  have out: "a \<notin> dom (bl(a := None))" "a \<notin> dom mp" using a D(7) by auto
  have cell: "mem (st1\<lparr>mem := (mem st1)(a \<mapsto> ?m)\<rparr>) a = Some ?m" by simp
  have "Suc i \<le> MAX_ORDER" using i by simp
  from rep_add [OF rep_write [OF s1(2) out, of ?m] this out cell m(1,2)] obtain st3 where
    s3: "list_add (st1\<lparr>mem := (mem st1)(a \<mapsto> ?m)\<rparr>) (Suc i) a = Some st3"
    "buddy_rep st3 (bl(a \<mapsto> (Suc i, True))) mp" "bytes st3 = bytes st1" by auto
  have "merge_loop st3 a (a XOR bsz (Suc i)) = Some st3" if "Suc i \<noteq> MAX_ORDER"
  proof -
    have "(bl(a \<mapsto> (Suc i, True))) (a XOR bsz (Suc i)) = Some (l, False)" using that stop a by auto
    then obtain c where "mem st3 (a XOR bsz (Suc i)) = Some c" "\<not> is_free c"
      using coreD [OF repD(5) [OF s3(2)]] by blast
    moreover obtain c' where "mem st3 a = Some c'" using coreD [OF repD(5) [OF s3(2), of a]] by auto
    ultimately show ?thesis by (subst merge_loop.simps) simp
  qed
  moreover have "bsz (Suc i) = SIZE_128K \<longleftrightarrow> Suc i = MAX_ORDER" by (simp add: SIZE_128K_bsz bsz_inj)
  ultimately have "merge_loop st a b = Some st3"
    using nm rm lt findSizeIndex_bsz [of i] i s1(1,4) s2 ne m(3) s3(1)
    by (subst merge_loop.simps) (simp add: Let_def findNeighboringBlock_ChallengeOne_def del: fun_upd_apply)
  then show ?thesis using s3(2,3) s1(3) by auto
qed

lemma sfree_smaller:
  assumes rep: "buddy_rep st bl mp" and i: "i < MAX_ORDER" and a: "bl a = Some (i, False)"
    and b: "bl (a XOR bsz i) = Some (j, True)" "j \<noteq> i" "a < a XOR bsz i"
    and stop: "Suc i = MAX_ORDER \<or> bl (a XOR bsz (Suc i)) = Some (l, False)"
  shows "\<exists>st'. sfree st (Some (a + MDSZ)) = Some st' \<and> buddy_rep st' (bl(a \<mapsto> (Suc i, True))) mp
    \<and> bytes st' = bytes st"
proof -
  obtain m where m: "mem st a = Some m" "size m = bsz i" "\<not> is_free m" "\<not> is_mmap m"
    using coreD [OF repD(5) [OF rep a]] by blast
  let ?st = "st\<lparr>mem := (mem st)(a \<mapsto> m\<lparr>is_free := True\<rparr>)\<rparr>" let ?bl = "bl(a \<mapsto> (i, True))"
  have rep1: "buddy_rep ?st ?bl mp" using rep_set_free [OF rep a m(1)] .
  have b1: "?bl (a XOR bsz i) = Some (j, True)" using b by auto
  have "bl a \<noteq> Some (l, False) \<or> i = l" using a by simp
  then have stop1: "Suc i = MAX_ORDER \<or> ?bl (a XOR bsz (Suc i)) = Some (l, False)"
    using stop xor_bsz_ne [of a "Suc i"] by auto
  obtain st' where s: "merge_loop ?st a (a XOR bsz i) = Some st'" "buddy_rep st' (?bl(a \<mapsto> (Suc i, True))) mp"
      "bytes st' = bytes ?st"
    using merge_smaller [OF rep1 i fun_upd_same b1 b(2,3) stop1] by blast
  obtain nm where "mem ?st (a XOR bsz i) = Some nm" "is_free nm" using coreD [OF repD(5) [OF rep1 b1]] by blast
  moreover have "size m < SIZE_128K" using m(2) i bsz_less by (simp add: SIZE_128K_bsz)
  ultimately have "sfree st (Some (a + MDSZ)) = merge_loop ?st a (a XOR bsz i)"
    using m by (simp add: sfree_def findNeighboringBlock_ChallengeOne_def Let_def)
  then show ?thesis using s by simp
qed

text \<open>A request for exactly one order, which has a free block; the blocks need not tile the arena.\<close>

lemma smalloc_exact:
  assumes rep: "buddy_rep st bl mp" and n: "\<not> invalidSize n" "MDSZ + n \<le> SIZE_128K"
    and a: "bl a = Some (need (MDSZ + n), True)" "\<And>x. bl x = Some (need (MDSZ + n), True) \<Longrightarrow> a \<le> x"
  shows "\<exists>st'. smalloc k st n = Some (Some (a + MDSZ), st')
    \<and> buddy_rep st' (bl(a \<mapsto> (need (MDSZ + n), False))) mp \<and> bytes st' = bytes st"
proof -
  let ?j = "need (MDSZ + n)" let ?r = "MAX_ORDER - need (MDSZ + n)"
  have j: "MDSZ + n \<le> bsz ?j" "?j \<le> MAX_ORDER" using needI [of "MDSZ + n" MAX_ORDER] n(2) by (auto simp: SIZE_128K_bsz)
  have e: "findExactSizeBlock_ChallengeZero st (MDSZ + n) = exact_loop (Suc ?r) st (MDSZ + n) ?j 0"
    using exact_loop_skip [of 0 ?j "MDSZ + n" "Suc ?r" st 0] j(2)
    by (simp add: findExactSizeBlock_ChallengeZero_def)
  have "a \<in> free_at bl ?j" "\<And>x. x \<in> free_at bl ?j \<Longrightarrow> a \<le> x" using a by (auto simp: free_at_def)
  then obtain m where m: "mem st a = Some m"
      "findFreeSizedBlock (mem st) (mdListArr st ! ?j) (MDSZ + n)
        = Some (Some (a + MDSZ), (mem st)(a \<mapsto> m\<lparr>is_free := False\<rparr>))"
    using find_rep [OF rep j(2,1)] by (metis dual_order.antisym empty_iff)
  let ?st = "st\<lparr>mem := (mem st)(a \<mapsto> m\<lparr>is_free := False\<rparr>)\<rparr>"
  have "exact_loop (Suc ?r) st (MDSZ + n) ?j 0 = Some (Some (a + MDSZ), ?st)"
    using m j blocksSizesArr_nth [OF j(2)] by (simp add: splitBlocks_ChallengeZero_def Let_def)
  then have "smalloc k st n = Some (Some (a + MDSZ), ?st)"
    using n e valid_total [OF n(1)] by (simp add: smalloc_def first_init_later [OF rep] Let_def)
  then show ?thesis using rep_set_free [OF rep a(1) m(1), of False] by simp
qed

text \<open>
  C31. Why \<open>sfree\<close> needs the condition of C29: it does not compare the sizes of the buddies. In a well-formed
  heap, let the block in use at \<open>a\<close> be a lower half, its upper half start with a smaller free block, and the next
  buddy be in use (or the pair be a block of the largest order). Freeing the block makes the whole pair
  one free block: every other block stays as it was, those in use inside the upper half too, and
  the blocks do not tile the arena any more. The next request for a block of that order, when no free one lies
  lower, is given the pair: then every block in use inside the upper half is at the same time part of the new block,
  and the new bytes reach into the upper half.
\<close>

theorem sfree_merges_smaller:
  assumes "heap_ok st (B, N, bl, mp)" "bl a = Some (i, False)" "i < MAX_ORDER" "bsz (Suc i) dvd a"
    "bl (a + bsz i) = Some (j, True)" "j < i"
    "Suc i = MAX_ORDER \<or> bl (a XOR bsz (Suc i)) = Some (l, False)"
  shows "\<exists>st'. sfree st (Some (a + MDSZ)) = Some st' \<and> bytes st' = bytes st
    \<and> buddy_rep st' (bl(a \<mapsto> (Suc i, True))) mp \<and> \<not> tiling B N (bl(a \<mapsto> (Suc i, True)))
    \<and> (\<forall>k n. \<not> invalidSize n \<and> need (MDSZ + n) = Suc i \<and> (\<forall>x. bl x = Some (Suc i, True) \<longrightarrow> a \<le> x) \<longrightarrow>
        (\<exists>st''. smalloc k st' n = Some (Some (a + MDSZ), st'')
          \<and> buddy_rep st'' (bl(a \<mapsto> (Suc i, False))) mp \<and> a + bsz i < (a + MDSZ) + n
          \<and> (\<forall>c h. bl c = Some (h, False) \<and> a + bsz i \<le> c \<and> c < a + bsz (Suc i) \<longrightarrow>
              (bl(a \<mapsto> (Suc i, False))) c = Some (h, False) \<and> a < c \<and> c + bsz h \<le> a + bsz (Suc i))))"
proof -
  let ?bl = "bl(a \<mapsto> (Suc i, True))" let ?bl' = "bl(a \<mapsto> (Suc i, False))"
  have t: "tiling B N bl" and rep: "buddy_rep st bl mp" using assms(1) by (auto simp: arena_ok_def)
  have ab: "a < a + bsz i" "a + bsz i < a + bsz (Suc i)" by (simp_all add: bsz_Suc)
  have x: "a XOR bsz i = a + bsz i" by (rule lower_half_xor [OF assms(4)])
  obtain st' where s: "sfree st (Some (a + MDSZ)) = Some st'" "buddy_rep st' ?bl mp" "bytes st' = bytes st"
    using sfree_smaller [OF rep assms(3,2), of j l] assms(5-7) ab(1) unfolding x by auto
  have "\<not> tiling B N ?bl"
  proof
    assume "tiling B N ?bl"
    from tiling_disjoint [OF this, of a "Suc i" True "a + bsz i" j True] assms(5) ab show False by simp
  qed
  moreover have "\<exists>st''. smalloc k st' n = Some (Some (a + MDSZ), st'') \<and> buddy_rep st'' ?bl' mp"
      "a + bsz i < (a + MDSZ) + n"
    if "\<not> invalidSize n" "need (MDSZ + n) = Suc i" "\<forall>x. bl x = Some (Suc i, True) \<longrightarrow> a \<le> x" for k n
  proof -
    show "a + bsz i < (a + MDSZ) + n" using need_least [of i "MDSZ + n"] that(2) by simp
    have "MDSZ + n \<le> SIZE_128K"
      using need_bound [of "MDSZ + n"] that(2) bsz_mono [of "Suc i" MAX_ORDER] assms(3) by (simp add: SIZE_128K_bsz)
    moreover have "a \<le> x" if "?bl x = Some (Suc i, True)" for x
      using that \<open>\<forall>x. bl x = Some (Suc i, True) \<longrightarrow> a \<le> x\<close> by (auto split: if_splits)
    ultimately show "\<exists>st''. smalloc k st' n = Some (Some (a + MDSZ), st'') \<and> buddy_rep st'' ?bl' mp"
      using smalloc_exact [OF s(2) that(1), of a k, unfolded that(2)] fun_upd_same [of bl a "Some (Suc i, True)"]
      unfolding fun_upd_upd by metis
  qed
  moreover have "?bl' c = Some (h, False) \<and> a < c \<and> c + bsz h \<le> a + bsz (Suc i)"
    if "bl c = Some (h, False)" "a + bsz i \<le> c" "c < a + bsz (Suc i)" for c h
    using block_in_pair [OF t assms(4) that(1) _ that(3)] that ab by auto
  ultimately show ?thesis using s by blast
qed

text \<open>
  The situation arises from an untouched process: the heap after \<open>a = smalloc(60000)\<close>, \<open>b = smalloc(30000)\<close>,
  \<open>c = smalloc(30000)\<close> and \<open>sfree(b)\<close>. \<open>a\<close> has the lower half of the first block of the arena, \<open>b\<close> and \<open>c\<close> the quarters of its
  upper half.
\<close>

definition ex_kernel :: kernel where
  "ex_kernel = \<lparr>prog_break = 5000, sbrk_ok = (\<lambda>_. True), mmap_res = (\<lambda>_. Some 1000000000)\<rparr>"

definition bug_blocks :: blocks where
  "bug_blocks = (initial_blocks 131072 32)(131072 \<mapsto> (9, False), 196608 \<mapsto> (8, True), 229376 \<mapsto> (8, False))"

definition bug_run :: "buddy option" where
  "bug_run =
     do { (a, st1) \<leftarrow> smalloc ex_kernel (init_buddy (\<lambda>_. NUL)) 60000;
          (b, st2) \<leftarrow> smalloc ex_kernel st1 30000;
          (c, st3) \<leftarrow> smalloc ex_kernel st2 30000;
          sfree st3 b }"

definition bug_state :: buddy where "bug_state = the bug_run"

lemma alloc_spec_unique: "alloc_spec bl sz (Some (a, k)) \<Longrightarrow> alloc_spec bl sz r \<Longrightarrow> r = Some (a, k)"
proof -
  assume a: "alloc_spec bl sz (Some (a, k))" "alloc_spec bl sz r"
  then obtain b j where r: "r = Some (b, j)" by (cases r) (auto simp: alloc_spec_def)
  have "j = k" using a unfolding r alloc_spec_def by (auto intro: linorder_cases [of j k])
  then show ?thesis using a r by (auto simp: alloc_spec_def intro: antisym)
qed

lemma alloc_specI:
  assumes "need sz \<le> k" "k \<le> MAX_ORDER" "bl a = Some (k, True)"
    "\<And>x. bl x = Some (k, True) \<Longrightarrow> a \<le> x" "\<And>x l. bl x = Some (l, True) \<Longrightarrow> need sz \<le> l \<Longrightarrow> k \<le> l"
  shows "alloc_spec bl sz (Some (a, k))"
  using assms by (fastforce simp: alloc_spec_def free_at_def)

lemma smalloc_takes:
  assumes "heap_ok st (B, N, bl, mp)" "\<not> invalidSize n" "MDSZ + n \<le> SIZE_128K" "alloc_spec bl (MDSZ + n) (Some (a, j))"
  shows "\<exists>st'. smalloc k st n = Some (Some (a + MDSZ), st')
    \<and> heap_ok st' (B, N, split_blocks bl a j (j - need (MDSZ + n)), mp)"
  using smalloc_small [OF assms(1-3), of k] alloc_spec_unique [OF assms(4)] by (fastforce simp: alloc_blocks_def)

lemma need_eq: "sz \<le> bsz k \<Longrightarrow> (\<And>j. j < k \<Longrightarrow> bsz j < sz) \<Longrightarrow> need sz = k"
  unfolding need_def by (rule Least_equality) (auto simp: not_less [symmetric])

lemma need_Suc: "bsz k < sz \<Longrightarrow> sz \<le> bsz (Suc k) \<Longrightarrow> need sz = Suc k"
  by (rule need_eq, assumption) (metis bsz_mono le_less_trans less_Suc_eq_le)

lemma ex_need: "need (MDSZ + 60000) = 9" "need (MDSZ + 30000) = 8" "need (MDSZ + 100000) = 10"
  using need_Suc [of 8 60048] need_Suc [of 7 30048] need_Suc [of 9 100048] by (simp_all add: bsz_def MDSZ_def)

lemma initial_first: "initial_blocks 131072 32 131072 = Some (10, True)"
  by (simp add: initial_blocks_def MAX_ORDER_def)

lemma initial_ge: "initial_blocks 131072 32 x = Some y \<Longrightarrow> 131072 \<le> x \<and> y = (10, True)"
  unfolding initial_blocks_def MAX_ORDER_def by (auto split: if_splits)

lemma initial_none: "initial_blocks 131072 32 196608 = None" "initial_blocks 131072 32 229376 = None"
  by (simp_all add: initial_blocks_def bsz_def MAX_ORDER_def)

lemma split_blocks_none: "split_blocks bl a k 0 = bl(a \<mapsto> (k, False))"
  by (simp add: split_blocks_def)

lemma split_blocks_once:
  "split_blocks bl a (Suc k) (Suc 0) = bl(a + bsz k \<mapsto> (k, True), a \<mapsto> (k, False))"
  by (simp add: split_blocks_def)

lemma bug_run: "\<exists>st. bug_run = Some st \<and> heap_ok st (131072, 32, bug_blocks, Map.empty)"
proof -
  let ?b0 = "initial_blocks 131072 32"
  let ?b1 = "?b0(196608 \<mapsto> (9, True), 131072 \<mapsto> (9, False))"
  let ?b2 = "?b1(229376 \<mapsto> (8, True), 196608 \<mapsto> (8, False))" let ?b3 = "?b2(229376 \<mapsto> (8, False))"
  have b: "bsz 8 = 32768" "bsz 9 = 65536" by (simp_all add: bsz_def)
  have ok: "\<not> invalidSize 60000" "MDSZ + 60000 \<le> SIZE_128K" "\<not> invalidSize 30000" "MDSZ + 30000 \<le> SIZE_128K"
    by (simp_all add: invalidSize_def MDSZ_def SIZE_128K_def)
  have ge: "131072 \<le> x" "l = 10" if "?b0 x = Some (l, f)" for x l f using initial_ge [OF that] by simp_all
  have mo: "(8::nat) \<le> MAX_ORDER" "(9::nat) \<le> MAX_ORDER" "(10::nat) \<le> MAX_ORDER" by (simp_all add: MAX_ORDER_def)
  have sp: "alloc_spec ?b0 (MDSZ + 60000) (Some (131072, 10))"
  proof (rule alloc_specI)
    fix x l assume "?b0 x = Some (l, True)"
    then show "10 \<le> l" using ge(2) by blast
    show "131072 \<le> x" if "?b0 x = Some (10, True)" using ge(1) that .
  qed (simp_all only: ex_need mo initial_first)
  have sp1: "alloc_spec ?b1 (MDSZ + 30000) (Some (196608, 9))"
  proof (rule alloc_specI)
    fix x l assume x: "?b1 x = Some (l, True)"
    show "9 \<le> l" using x ge(2) [of x l True] by (simp split: if_splits)
    show "196608 \<le> x" if "?b1 x = Some (9, True)" using that ge(2) [of x 9 True] by (simp split: if_splits)
  qed (simp_all add: ex_need mo)
  have sp2: "alloc_spec ?b2 (MDSZ + 30000) (Some (229376, 8))"
  proof (rule alloc_specI)
    fix x l assume x: "?b2 x = Some (l, True)"
    show "8 \<le> l" using x ge(2) [of x l True] by (simp split: if_splits)
    show "229376 \<le> x" if "?b2 x = Some (8, True)" using that ge(2) [of x 8 True] by (simp split: if_splits)
  qed (simp_all add: ex_need mo)
  have bl: "split_blocks ?b0 131072 10 (10 - 9) = ?b1" "split_blocks ?b1 196608 9 (9 - 8) = ?b2"
      "split_blocks ?b2 229376 8 (8 - 8) = ?b3"
    using split_blocks_once [of ?b0 131072 9] split_blocks_once [of ?b1 196608 8] split_blocks_none [of ?b2 229376 8]
    by (simp_all add: b)
  obtain st0 where s0: "first_init ex_kernel (init_buddy (\<lambda>_. NUL)) = Some st0"
      "heap_ok st0 (131072, 32, ?b0, Map.empty)"
    using first_heap [of ex_kernel "\<lambda>_. NUL"] by (auto simp: ex_kernel_def first_base_def SIZE_128K_def)
  have f0: "\<not> firstMalloc st0" using s0(2) repD(8) by auto
  obtain st1 where s1: "smalloc ex_kernel st0 60000 = Some (Some (131072 + MDSZ), st1)"
      "heap_ok st1 (131072, 32, ?b1, Map.empty)"
    using smalloc_takes [OF s0(2) ok(1,2) sp, of ex_kernel] unfolding ex_need bl by blast
  obtain st2 where s2: "smalloc ex_kernel st1 30000 = Some (Some (196608 + MDSZ), st2)"
      "heap_ok st2 (131072, 32, ?b2, Map.empty)"
    using smalloc_takes [OF s1(2) ok(3,4) sp1, of ex_kernel] unfolding ex_need bl by blast
  obtain st3 where s3: "smalloc ex_kernel st2 30000 = Some (Some (229376 + MDSZ), st3)"
      "heap_ok st3 (131072, 32, ?b3, Map.empty)"
    using smalloc_takes [OF s2(2) ok(3,4) sp2, of ex_kernel] unfolding ex_need bl by blast
  have x: "196608 XOR 32768 = (229376 :: nat)" by simp
  have m: "MAX_ORDER - 8 = Suc (Suc 0)" by (simp add: MAX_ORDER_def)
  have u: "?b3 196608 = Some (8, False)" "?b3 229376 = Some (8, False)" by simp_all
  have safe: "merge_safe (MAX_ORDER - 8) (?b3(196608 \<mapsto> (8, True))) 196608 8" by (simp add: m b x)
  have fb: "free_blocks ?b3 196608 8 = bug_blocks"
    by (auto simp add: free_blocks_def m b x bug_blocks_def fun_eq_iff)
  obtain st where "sfree st3 (Some (196608 + MDSZ)) = Some st" "heap_ok st (131072, 32, bug_blocks, Map.empty)"
    using sfree_block [OF _ _ u(1) safe, of st3 Map.empty 131072 32] s3(2) unfolding fb by auto
  then show ?thesis
    using s1(1) s2(1) s3(1) smalloc_first [OF s0(1) f0] by (simp add: bug_run_def del: heap_ok.simps)
qed

lemma bug_heap: "heap_ok bug_state (131072, 32, bug_blocks, Map.empty)"
  and bug_reached: "bug_run = Some bug_state"
  using bug_run unfolding bug_state_def by (metis option.sel)+

text \<open>
  C32. The first call. When \<open>sbrk\<close> succeeds, the first \<open>smalloc\<close> makes an arena of 32 free blocks of 128 KiB from the
  next multiple of 128 KiB after the program break, whatever the break was, and then
  allocates from it as every later call does. The amount asked of \<open>sbrk\<close> is right: the arena starts above the
  old break and ends exactly at the new one.
\<close>

theorem first_smalloc:
  assumes "sbrk_ok k (first_amount k)"
  shows "\<exists>st. heap_ok st (first_base k, 32, initial_blocks (first_base k) 32, Map.empty) \<and> bytes st = b
    \<and> prog_break k < first_base k \<and> first_base k \<le> prog_break k + SIZE_128K \<and> SIZE_128K dvd first_base k
    \<and> heap_end st = first_base k + 32 * SIZE_128K \<and> heap_end st = prog_break k + first_amount k
    \<and> (\<forall>n. smalloc k (init_buddy b) n = smalloc k st n)"
proof -
  obtain st where st: "first_init k (init_buddy b) = Some st" "bytes st = b"
      "heap_ok st (first_base k, 32, initial_blocks (first_base k) 32, Map.empty)"
      "heap_end st = first_base k + 32 * SIZE_128K"
    using first_heap [OF assms] by blast
  have "\<not> firstMalloc st" using st(3) repD(8) by auto
  from smalloc_first [OF st(1) this] have "\<forall>n. smalloc k (init_buddy b) n = smalloc k st n" by blast
  moreover have "SIZE_128K dvd first_base k" using st(3) by (simp add: arena_ok_def tiling_def SIZE_128K_bsz)
  moreover have "prog_break k < first_base k \<and> first_base k \<le> prog_break k + SIZE_128K"
  proof -
    have "prog_break k mod SIZE_128K < SIZE_128K" "prog_break k mod SIZE_128K \<le> prog_break k"
      by (simp_all add: SIZE_128K_def)
    then show ?thesis by (simp add: first_base_def Let_def)
  qed
  ultimately show ?thesis using st(2,3,4) first_end [of k] by metis
qed

subsection \<open>Witnesses\<close>

theorem first_smalloc_witness:
  "\<exists>st. heap_ok st (131072, 32, initial_blocks 131072 32, Map.empty) \<and> heap_end st = 4325376
    \<and> (\<forall>n. smalloc ex_kernel (init_buddy (\<lambda>_. NUL)) n = smalloc ex_kernel st n)"
  using first_smalloc [of ex_kernel "\<lambda>_. NUL"]
  by (auto simp: ex_kernel_def first_base_def SIZE_128K_def simp del: heap_ok.simps)

theorem sfree_merges_smaller_witness:
  "bug_run = Some bug_state \<and> bug_blocks 229376 = Some (8, False)
   \<and> (\<exists>st' st''. sfree bug_state (Some (131072 + MDSZ)) = Some st'
        \<and> smalloc ex_kernel st' 100000 = Some (Some (131072 + MDSZ), st'')
        \<and> buddy_rep st'' (bug_blocks(131072 \<mapsto> (10, False))) Map.empty
        \<and> (bug_blocks(131072 \<mapsto> (10, False))) 229376 = Some (8, False)
        \<and> 131072 + MDSZ < 229376 + MDSZ \<and> 229376 + MDSZ < (131072 + MDSZ) + 100000)"
proof -
  have b: "bsz 9 = 65536" "bsz (Suc 9) = 131072" by (simp_all add: bsz_def)
  have h: "bug_blocks 131072 = Some (9, False)" "9 < MAX_ORDER" "bsz (Suc 9) dvd 131072"
      "bug_blocks (131072 + bsz 9) = Some (8, True)" "8 < (9 :: nat)"
      "Suc 9 = MAX_ORDER \<or> bug_blocks (131072 XOR bsz (Suc 9)) = Some (0, False)"
    unfolding b by (simp_all add: bug_blocks_def MAX_ORDER_def)
  have low: "131072 \<le> x" if "bug_blocks x = Some (Suc 9, True)" for x
    using that initial_ge [of x "(10, True)"] by (simp add: bug_blocks_def split: if_splits)
  have n: "\<not> invalidSize 100000" "need (MDSZ + 100000) = Suc 9" using ex_need(3) by (simp_all add: invalidSize_def)
  have c: "bug_blocks 229376 = Some (8, False)" by (simp add: bug_blocks_def)
  obtain st' st'' where s: "sfree bug_state (Some (131072 + MDSZ)) = Some st'"
      "smalloc ex_kernel st' 100000 = Some (Some (131072 + MDSZ), st'')"
      "buddy_rep st'' (bug_blocks(131072 \<mapsto> (Suc 9, False))) Map.empty"
    using sfree_merges_smaller [OF bug_heap h] n low by blast
  have "(10 :: nat) = Suc 9" "(131072 + MDSZ) + 100000 > 229376 + MDSZ" by simp_all
  then show ?thesis using s bug_reached c by (intro conjI exI [of _ st'] exI [of _ st'']) simp_all
qed

lemma bug_kernel: "kernel_ok (131072, 32, bug_blocks, Map.empty) ex_kernel n"
  by (simp add: ex_kernel_def bsz_def MAX_ORDER_def)

theorem smalloc_correct_witness:
  "smalloc ex_kernel bug_state 0 = Some (None, bug_state)
   \<and> (\<exists>st'. smalloc ex_kernel bug_state 200000 = Some (Some (1000000000 + MDSZ), st')
        \<and> heap_ok st' (131072, 32, bug_blocks, [1000000000 \<mapsto> MDSZ + 200000]))"
  using smalloc_correct [OF bug_heap bug_kernel, of 0] smalloc_correct [OF bug_heap bug_kernel, of 200000]
  by (auto simp: invalidSize_def MDSZ_def SIZE_128K_def ex_kernel_def simp del: heap_ok.simps)

theorem smalloc_fresh_witness:
  "\<exists>st' A' c. smalloc ex_kernel bug_state 200000 = Some (Some (1000000000 + MDSZ), st') \<and> heap_ok st' A' \<and> 200000 \<le> c
    \<and> in_use A' = (in_use (131072, 32, bug_blocks, Map.empty))(1000000000 + MDSZ \<mapsto> c)
    \<and> (\<exists>st''. scalloc ex_kernel bug_state 200 1000 = Some (Some (1000000000 + MDSZ), st'') \<and> heap_ok st'' A'
      \<and> bytes st'' (1000000000 + MDSZ) = NUL)"
proof -
  obtain st' where s: "smalloc ex_kernel bug_state 200000 = Some (Some (1000000000 + MDSZ), st')"
    using smalloc_large [OF bug_heap _ _ bug_kernel, of 200000]
    by (auto simp: invalidSize_def MDSZ_def SIZE_128K_def ex_kernel_def)
  from smalloc_fresh [OF bug_heap bug_kernel s] obtain A' c where
    "heap_ok st' A'" "200000 \<le> c" "in_use A' = (in_use (131072, 32, bug_blocks, Map.empty))(1000000000 + MDSZ \<mapsto> c)"
    and z: "\<forall>num sz. num \<noteq> 0 \<and> sz \<noteq> 0 \<and> (sz * num) mod 2 ^ 64 = 200000 \<longrightarrow>
      (\<exists>st''. scalloc ex_kernel bug_state num sz = Some (Some (1000000000 + MDSZ), st'') \<and> heap_ok st'' A'
        \<and> (\<forall>x. bytes st'' x = (if 1000000000 + MDSZ \<le> x \<and> x < 1000000000 + MDSZ + 200000 then NUL else bytes bug_state x))
        \<and> (\<forall>q d x. in_use (131072, 32, bug_blocks, Map.empty) q = Some d \<and> q \<le> x \<and> x < q + d \<longrightarrow> bytes st'' x = bytes bug_state x))"
    by (elim exE conjE) (rule that; assumption)
  moreover have "\<exists>st''. scalloc ex_kernel bug_state 200 1000 = Some (Some (1000000000 + MDSZ), st'') \<and> heap_ok st'' A'
      \<and> bytes st'' (1000000000 + MDSZ) = NUL"
    using z [rule_format, of 200 1000] by force
  ultimately show ?thesis using s by blast
qed

theorem sfree_correct_witness:
  "sfree bug_state (Some (196608 + MDSZ)) = Some bug_state
   \<and> (\<exists>st'. sfree bug_state (Some (229376 + MDSZ)) = Some st' \<and>
        heap_ok st' (131072, 32, (initial_blocks 131072 32)(131072 \<mapsto> (9, False), 196608 \<mapsto> (9, True)), Map.empty))"
proof -
  have x: "229376 XOR 32768 = (196608 :: nat)" "196608 XOR 65536 = (131072 :: nat)" by simp_all
  have b: "bsz 8 = 32768" "bsz 9 = 65536" by (simp_all add: bsz_def)
  have m: "MAX_ORDER - 8 = Suc (Suc 0)" by (simp add: MAX_ORDER_def)
  have "merge_safe (MAX_ORDER - 8) (bug_blocks(229376 \<mapsto> (8, True))) 229376 8"
    by (simp add: m b x bug_blocks_def)
  moreover have "free_blocks bug_blocks 229376 8
      = (initial_blocks 131072 32)(131072 \<mapsto> (9, False), 196608 \<mapsto> (9, True))"
    by (auto simp add: free_blocks_def m b x bug_blocks_def fun_eq_iff initial_none)
  moreover have "bug_blocks 229376 = Some (8, False)" "bug_blocks 196608 = Some (8, True)"
    by (simp_all add: bug_blocks_def)
  ultimately show ?thesis
    using sfree_correct [OF bug_heap, of 229376 8] sfree_correct [OF bug_heap, of 196608 8] by metis
qed

lemma dom_initial: "dom (initial_blocks B n) = (\<lambda>i. B + i * bsz MAX_ORDER) ` {..<n}"
  by (induction n) (simp_all add: initial_blocks_Suc lessThan_Suc del: fun_upd_apply)

lemma card_initial: "card (dom (initial_blocks B n)) = n"
  unfolding dom_initial by (subst card_image) (auto simp: inj_on_def)

lemma initial_free: "initial_blocks B n a = Some x \<Longrightarrow> x = (MAX_ORDER, True)"
  by (simp add: initial_blocks_def split: if_splits)

lemma total_initial: "total g (initial_blocks B n) = n * g MAX_ORDER True"
proof -
  have "total g (initial_blocks B n) = (\<Sum>a\<in>dom (initial_blocks B n). g MAX_ORDER True)"
    unfolding total_def by (intro sum.cong refl) (auto dest: initial_free)
  then show ?thesis by (simp add: card_initial)
qed

theorem malloc_3_statistics_witness:
  "\<exists>st. num_free_blocks st = Some 32 \<and> num_allocated_blocks st = Some 32
    \<and> num_meta_data_bytes st = Some (48 * 32) \<and> num_allocated_bytes st = Some (32 * (131072 - 48))"
proof -
  obtain st where st: "heap_ok st (131072, 32, initial_blocks 131072 32, Map.empty)"
    using first_heap [of ex_kernel "\<lambda>_. NUL"] by (auto simp: ex_kernel_def first_base_def SIZE_128K_def)
  have pay: "payload MAX_ORDER = 131024" by (simp add: payload_def bsz_def MAX_ORDER_def MDSZ_def)
  have "{a. \<exists>k. initial_blocks 131072 32 a = Some (k, True)} = dom (initial_blocks 131072 32)"
    using initial_free by fastforce
  then show ?thesis
    using malloc_3_statistics [OF st, of 4192768]
    by (auto simp: card_initial total_initial total_mp_def pay size_meta_data_def MDSZ_def)
qed

end
