(* ===== verification/Realloc3.thy ===== *)
theory Realloc3
  imports Buddy
begin

unbundle bit_operations_syntax

section \<open>Reallocation in the buddy allocator\<close>

text \<open>
  The function \<^const>\<open>srealloc\<close> of \<open>malloc_3.cpp\<close> on the abstract heap of \<open>Buddy\<close>: it returns the block when
  it is large enough, joins it with free buddies when the first one is free, and moves it otherwise. Moving
  is right. Joining is right for a lower half whose buddies are free up to the size that is needed; when they are
  not, the pointer it returns is uninitialised, and an upper half is joined with the wrong neighbour.
\<close>

subsection \<open>Joining with the buddies\<close>

text \<open>One round of the loop. It joins the block with any free block of the same order, whichever half it is.\<close>

lemma grow_round:
  assumes rep: "buddy_rep st bl mp" and i: "i < MAX_ORDER" and ne: "b \<noteq> a"
    and a: "bl a = Some (i, False)" and b: "bl b = Some (i, True)"
  shows "\<exists>st3. grow_loop st a b sz
      = (if sz \<le> bsz (Suc i) then Some (st3, Some (a + MDSZ)) else grow_loop st3 a (a XOR bsz (Suc i)) sz)
    \<and> buddy_rep st3 (bl(b := None, a \<mapsto> (Suc i, False))) mp \<and> bytes st3 = bytes st"
proof -
  note D = repD [OF rep]
  obtain cm where cm: "mem st a = Some cm" "size cm = bsz i" using coreD [OF D(5) [OF a]] by blast
  obtain nm where nm: "mem st b = Some nm" "is_free nm" "size nm = bsz i" using coreD [OF D(5) [OF b]] by blast
  have lt: "bsz i < SIZE_128K" using i bsz_less by (simp add: SIZE_128K_bsz)
  obtain st1 ma where s1: "list_del st i a = Some st1" "buddy_rep st1 (bl(a := None)) mp" "bytes st1 = bytes st"
    "mem st1 a = Some ma" "core ma = (bsz i, False, a + MDSZ, False)" "next_md ma = None"
    using rep_del [OF rep a] by blast
  have b1: "(bl(a := None)) b = Some (i, True)" using b ne by simp
  obtain st2 where s2: "list_del st1 i b = Some st2" "buddy_rep st2 (bl(a := None, b := None)) mp"
    "bytes st2 = bytes st1" "\<forall>x. x \<notin> dom (bl(a := None)) \<longrightarrow> mem st2 x = mem st1 x"
    using rep_del [OF s1(2) b1] by blast
  have ma2: "mem st2 a = Some ma" using s2(4) s1(4) by simp
  let ?m = "ma\<lparr>size := size ma * 2\<rparr>"
  have m: "core ?m = (bsz (Suc i), False, a + MDSZ, False)" "next_md ?m = None" "size ma * 2 = bsz (Suc i)"
      "address ma = a + MDSZ"
    using s1(5,6) by (auto simp: core_def bsz_Suc)
  have out: "a \<notin> dom (bl(a := None, b := None))" "a \<notin> dom mp" using a D(7) by auto
  have cell: "mem (st2\<lparr>mem := (mem st2)(a \<mapsto> ?m)\<rparr>) a = Some ?m" by simp
  have "Suc i \<le> MAX_ORDER" using i by simp
  from rep_add [OF rep_write [OF s2(2) out, of ?m] this out cell m(1,2)] obtain st3 where
    s3: "list_add (st2\<lparr>mem := (mem st2)(a \<mapsto> ?m)\<rparr>) (Suc i) a = Some st3"
    "buddy_rep st3 (bl(a := None, b := None, a \<mapsto> (Suc i, False))) mp" "bytes st3 = bytes st2" by auto
  have "bl(a := None, b := None, a \<mapsto> (Suc i, False)) = bl(b := None, a \<mapsto> (Suc i, False))"
    using ne by (auto simp: fun_eq_iff)
  moreover have "grow_loop st a b sz
      = (if sz \<le> bsz (Suc i) then Some (st3, Some (a + MDSZ)) else grow_loop st3 a (a XOR bsz (Suc i)) sz)"
    using nm cm lt findSizeIndex_bsz [of i] i s1(1) s2(1) ma2 m(3,4) s3(1)
    by (subst grow_loop.simps) (simp add: Let_def findNeighboringBlock_ChallengeOne_def del: fun_upd_apply)
  ultimately show ?thesis using s3(2,3) s2(3) s1(3) by auto
qed

text \<open>The loop leaves \<open>newMD\<close> uninitialised when it meets a block in use.\<close>

lemma grow_stops:
  assumes rep: "buddy_rep st bl mp" and a: "bl a = Some (i, False)" and b: "bl b = Some (j, False)"
  shows "grow_loop st a b sz = Some (st, None)"
  using coreD [OF repD(5) [OF rep a]] coreD [OF repD(5) [OF rep b]]
  by (subst grow_loop.simps) auto

text \<open>
  The block \<open>a\<close> of order \<open>i\<close> takes in the free blocks behind it, \<open>n\<close> times; \<^term>\<open>room_behind bl a i n\<close>
  says that they are there and that \<open>a\<close> is the lower half each time.
\<close>

fun grow_blocks :: "blocks \<Rightarrow> addr \<Rightarrow> nat \<Rightarrow> nat \<Rightarrow> blocks" where
  "grow_blocks bl a i 0 = bl"
| "grow_blocks bl a i (Suc n) = grow_blocks (bl(a + bsz i := None, a \<mapsto> (Suc i, False))) a (Suc i) n"

definition room_behind :: "blocks \<Rightarrow> addr \<Rightarrow> nat \<Rightarrow> nat \<Rightarrow> bool" where
  "room_behind bl a i n \<longleftrightarrow> bsz (i + n) dvd a \<and> (\<forall>l. i \<le> l \<and> l < i + n \<longrightarrow> bl (a + bsz l) = Some (l, True))"

lemma room_behindD:
  assumes "room_behind bl a i (Suc n)" "i + Suc n \<le> MAX_ORDER"
  shows "bsz (Suc i) dvd a" "a XOR bsz i = a + bsz i" "bl (a + bsz i) = Some (i, True)"
    "room_behind (bl(a + bsz i := None, a \<mapsto> (Suc i, False))) a (Suc i) n"
proof -
  show al: "bsz (Suc i) dvd a"
    using assms(1) dvd_trans [OF bsz_dvd [of "Suc i" "i + Suc n"]] by (simp add: room_behind_def)
  then have "bsz i dvd a" using bsz_dvd [of i "Suc i"] dvd_trans by auto
  then show "a XOR bsz i = a + bsz i" using buddy_xor [of i a] al by simp
  show "bl (a + bsz i) = Some (i, True)" using assms(1) by (simp add: room_behind_def)
  show "room_behind (bl(a + bsz i := None, a \<mapsto> (Suc i, False))) a (Suc i) n"
    using assms(1) by (auto simp: room_behind_def bsz_inj)
qed

lemma grow_loop_rep:
  assumes "buddy_rep st bl mp" "tiling B N bl" "bl a = Some (i, False)" "i + Suc n \<le> MAX_ORDER"
    "room_behind bl a i (Suc n)" "sz > bsz (i + n)"
  shows "\<exists>st'. grow_loop st a (a XOR bsz i) sz
      = (if sz \<le> bsz (i + Suc n) then Some (st', Some (a + MDSZ)) else grow_loop st' a (a XOR bsz (i + Suc n)) sz)
    \<and> buddy_rep st' (grow_blocks bl a i (Suc n)) mp \<and> tiling B N (grow_blocks bl a i (Suc n))
    \<and> grow_blocks bl a i (Suc n) a = Some (i + Suc n, False) \<and> bytes st' = bytes st"
  using assms
proof (induction n arbitrary: st bl i)
  case 0
  let ?bl = "bl(a + bsz i := None, a \<mapsto> (Suc i, False))"
  note r = room_behindD [OF "0.prems"(5,4)]
  have t: "tiling B N ?bl"
    using tiling_merge [OF "0.prems"(2,3) r(3,1), of False] "0.prems"(4) by simp
  have "i < MAX_ORDER" using "0.prems"(4) by simp
  from grow_round [OF "0.prems"(1) this _ "0.prems"(3) r(3), of sz] obtain st3 where
    "grow_loop st a (a XOR bsz i) sz
      = (if sz \<le> bsz (Suc i) then Some (st3, Some (a + MDSZ)) else grow_loop st3 a (a XOR bsz (Suc i)) sz)"
    "buddy_rep st3 ?bl mp" "bytes st3 = bytes st" using r(2) by (auto simp del: fun_upd_apply)
  then show ?case using t by (intro exI [of _ st3]) (simp del: fun_upd_apply, simp)
next
  case (Suc n)
  let ?bl = "bl(a + bsz i := None, a \<mapsto> (Suc i, False))"
  note r = room_behindD [OF Suc.prems(5,4)]
  have i: "i < MAX_ORDER" using Suc.prems(4) by simp
  have t: "tiling B N ?bl" using tiling_merge [OF Suc.prems(2,3) r(3,1) i, of False] .
  obtain st3 where s: "grow_loop st a (a XOR bsz i) sz
      = (if sz \<le> bsz (Suc i) then Some (st3, Some (a + MDSZ)) else grow_loop st3 a (a XOR bsz (Suc i)) sz)"
      "buddy_rep st3 ?bl mp" "bytes st3 = bytes st"
    using grow_round [OF Suc.prems(1) i _ Suc.prems(3) r(3), of sz] r(2) by (auto simp del: fun_upd_apply)
  have "bsz (Suc i) < sz" using Suc.prems(6) bsz_mono [of "Suc i" "i + Suc n"] by simp
  then have "grow_loop st a (a XOR bsz i) sz = grow_loop st3 a (a XOR bsz (Suc i)) sz" using s(1) by simp
  moreover have e: "Suc i + Suc n = i + Suc (Suc n)" "Suc i + n = i + Suc n" by simp_all
  moreover have "?bl a = Some (Suc i, False)" by simp
  note Suc.IH [OF s(2) t this _ r(4), unfolded e, OF Suc.prems(4,6)]
  ultimately show ?case unfolding grow_blocks.simps(2) [of bl a i "Suc n"] s(3) by (simp only:)
qed

lemma grow_blocks_in_use:
  "room_behind bl a i n \<Longrightarrow> i + n \<le> MAX_ORDER \<Longrightarrow> bl a = Some (i, False) \<Longrightarrow>
   order_in_use (grow_blocks bl a i n) = (order_in_use bl)(a \<mapsto> i + n)"
proof (induction n arbitrary: bl i)
  case 0
  then show ?case by (auto simp: order_in_use_def fun_eq_iff)
next
  case (Suc n)
  let ?bl = "bl(a + bsz i := None, a \<mapsto> (Suc i, False))"
  note r = room_behindD [OF Suc.prems(1,2)]
  have "order_in_use (grow_blocks ?bl a (Suc i) n) = (order_in_use ?bl)(a \<mapsto> Suc i + n)"
    by (rule Suc.IH [OF r(4)]) (use Suc.prems in auto)
  moreover have "(order_in_use ?bl)(a \<mapsto> Suc i + n) = (order_in_use bl)(a \<mapsto> i + Suc n)"
    using r(3) by (auto simp: order_in_use_def fun_eq_iff)
  ultimately show ?case by simp
qed


subsection \<open>Reallocation\<close>

lemma memmove_same [simp]: "memmove bs d d n = bs"
  by (auto simp: memmove_def fun_eq_iff)



text \<open>The blocks do not depend on the bytes stored in them.\<close>

lemma rep_bytes [simp]: "buddy_rep (st\<lparr>bytes := b\<rparr>) bl mp \<longleftrightarrow> buddy_rep st bl mp"
  by (simp add: buddy_rep_def)

text \<open>What \<open>srealloc\<close> does with a block in use that is too small, by the state of its buddy.\<close>

lemma srealloc_free_buddy:
  assumes rep: "buddy_rep st bl mp" and a: "bl a = Some (k, False)" and b: "bl (a XOR bsz k) = Some (j, True)"
    and n: "0 < n" "n + MDSZ < 2 ^ 64" "bsz k < n + MDSZ"
    and g: "grow_loop st a (a XOR bsz k) (n + MDSZ) = Some (st1, r)"
    and c: "\<And>d. r = Some d \<Longrightarrow> d = a + MDSZ \<and> (\<exists>m. mem st1 a = Some m \<and> \<not> is_mmap m)"
  shows "srealloc ke st (Some (a + MDSZ)) n = (case r of None \<Rightarrow> None | Some d \<Rightarrow> Some (Some d, st1))"
proof -
  obtain m where m: "mem st a = Some m" "size m = bsz k" "\<not> is_mmap m" using coreD [OF repD(5) [OF rep a]] by blast
  obtain nm where "mem st (a XOR bsz k) = Some nm" "is_free nm" using coreD [OF repD(5) [OF rep b]] by blast
  then show ?thesis using m n g c
    by (cases r) (auto simp: srealloc_def findNeighboringBlock_ChallengeOne_def Let_def)
qed


lemma srealloc_fits:
  assumes rep: "buddy_rep st bl mp" and a: "bl a = Some (k, False)" and n: "0 < n" "n < 2 ^ 64"
    and f: "n + MDSZ \<le> bsz k \<or> 2 ^ 64 \<le> n + MDSZ"
  shows "srealloc ke st (Some (a + MDSZ)) n = Some (Some (a + MDSZ), st)"
proof -
  obtain m where m: "mem st a = Some m" "size m = bsz k" "\<not> is_mmap m" using coreD [OF repD(5) [OF rep a]] by blast
  have "bsz k \<le> bsz MAX_ORDER" using repD(4) [OF rep a] by (rule bsz_mono)
  then have "bsz k < 2 ^ 64" by (simp add: bsz_def MAX_ORDER_def)
  moreover have "(n + MDSZ) mod 2 ^ 64 = n + MDSZ - 2 ^ 64" if "2 ^ 64 \<le> n + MDSZ"
    using that n(2) by (subst le_mod_geq) (simp_all add: MDSZ_def)
  ultimately have "(n + MDSZ) mod 2 ^ 64 \<le> bsz k"
    using f n(2) MDSZ_bsz [of k] by (cases "2 ^ 64 \<le> n + MDSZ") auto
  then show ?thesis using m n(1) by (simp add: srealloc_def Let_def)
qed






text \<open>The blocks around an upper half: its end is the end of the arena or the start of another block.\<close>

lemma block_end:
  assumes t: "tiling B N bl" and a: "bl a = Some (k, f)"
  shows "a + bsz k = B + N * bsz MAX_ORDER \<or> bl (a + bsz k) \<noteq> None"
proof (rule ccontr)
  assume "\<not> ?thesis"
  then have e: "a + bsz k \<noteq> B + N * bsz MAX_ORDER" "bl (a + bsz k) = None" by blast+
  have "B \<le> a + bsz k" "a + bsz k < B + N * bsz MAX_ORDER" using tilingD(3,4) [OF t a] e(1) by auto
  from tiling_ex1 [OF t this] obtain c where "covers bl c (a + bsz k)" by (elim ex1E)
  then obtain j g where c: "bl c = Some (j, g)" "c \<le> a + bsz k" "a + bsz k < c + bsz j" by (auto simp: covers_def)
  have "c \<noteq> a + bsz k" "c \<noteq> a" using c e(2) a by auto
  then show False
    using tiling_disjoint [OF t a c(1)] tiling_disjoint [OF t c(1) a] c(2,3) bsz_pos(1) [of k] by linarith
qed

lemma srealloc_grow:
  assumes h: "heap_ok st (B, N, bl, mp)" and a: "bl a = Some (k, False)" and i: "i = k + Suc d" "i \<le> MAX_ORDER"
    and r: "room_behind bl a k (Suc d)" and n: "n + MDSZ < 2 ^ 64" "bsz (k + d) < n + MDSZ"
  shows "n + MDSZ \<le> bsz i \<Longrightarrow>
      \<exists>st'. srealloc ke st (Some (a + MDSZ)) n = Some (Some (a + MDSZ), st') \<and> bytes st' = bytes st
        \<and> heap_ok st' (B, N, grow_blocks bl a k (Suc d), mp)"
    "bsz i < n + MDSZ \<Longrightarrow> bl (a XOR bsz i) = Some (j, False) \<Longrightarrow> i < MAX_ORDER \<Longrightarrow>
      srealloc ke st (Some (a + MDSZ)) n = None"
proof -
  have rep: "buddy_rep st bl mp" and t: "tiling B N bl" and ok: "arena_ok B N bl mp" "mappings_ok B N mp"
    using h by (simp_all add: arena_ok_def)
  let ?g = "grow_blocks bl a k (Suc d)"
  have i': "k + Suc d \<le> MAX_ORDER" using i by simp
  note rb = room_behindD [OF r i']
  have b: "bl (a XOR bsz k) = Some (k, True)" using rb(2,3) by simp
  obtain st' where s: "grow_loop st a (a XOR bsz k) (n + MDSZ) = (if n + MDSZ \<le> bsz i then Some (st', Some (a + MDSZ))
        else grow_loop st' a (a XOR bsz i) (n + MDSZ))" "buddy_rep st' ?g mp" "tiling B N ?g"
      "?g a = Some (i, False)" "bytes st' = bytes st"
    using grow_loop_rep [OF rep t a i' r n(2)] unfolding i(1) by blast
  have small: "bsz k < n + MDSZ" using n(2) bsz_mono [of k "k + d"] by simp
  have n0: "0 < n" using small MDSZ_bsz [of k] by (cases n) auto
  obtain m' where m': "mem st' a = Some m'" "\<not> is_mmap m'" using coreD [OF repD(5) [OF s(2,4)]] by blast
  note eq = srealloc_free_buddy [OF rep a b n0 n(1) small]
  show "\<exists>st'. srealloc ke st (Some (a + MDSZ)) n = Some (Some (a + MDSZ), st') \<and> bytes st' = bytes st
        \<and> heap_ok st' (B, N, ?g, mp)" if "n + MDSZ \<le> bsz i"
    using eq [of st' "Some (a + MDSZ)" ke] m' s that ok by (intro exI [of _ st']) (auto simp: arena_ok_def)
  show "srealloc ke st (Some (a + MDSZ)) n = None"
    if big: "bsz i < n + MDSZ" and c: "bl (a XOR bsz i) = Some (j, False)" and lt: "i < MAX_ORDER"
  proof -
    have "a XOR bsz i \<noteq> a" using pair_start_facts(7) [OF tilingD(2) [OF s(3,4)]] .
    then have "order_in_use ?g (a XOR bsz i) = Some j"
      using grow_blocks_in_use [OF r i' a] c by (simp add: order_in_use_iff del: grow_blocks.simps)
    then have "?g (a XOR bsz i) = Some (j, False)" by (simp only: order_in_use_iff)
    from grow_stops [OF s(2,4) this, of "n + MDSZ"] show ?thesis
      using eq [of st' None ke] s(1) big by simp
  qed
qed

lemma srealloc_upper:
  assumes h: "heap_ok st (B, N, bl, mp)" and a: "bl a = Some (k, False)" "k < MAX_ORDER"
    and u: "\<not> bsz (Suc k) dvd a" "bl (a - bsz k) = Some (k, True)"
    and n: "bsz k < n + MDSZ" "n + MDSZ \<le> bsz (Suc k)"
  shows "\<exists>st'. srealloc ke st (Some (a + MDSZ)) n = Some (Some (a + MDSZ), st')
    \<and> buddy_rep st' (bl(a - bsz k := None, a \<mapsto> (Suc k, False))) mp \<and> bytes st' = bytes st"
proof -
  have rep: "buddy_rep st bl mp" and t: "tiling B N bl" using h by (simp_all add: arena_ok_def)
  have x: "a XOR bsz k = a - bsz k" and ne: "a - bsz k \<noteq> a"
    using buddy_xor [OF tilingD(2) [OF t a(1)]] u(1) by auto
  have b: "bl (a XOR bsz k) = Some (k, True)" using x u(2) by simp
  let ?bl = "bl(a - bsz k := None, a \<mapsto> (Suc k, False))"
  obtain st' where s: "grow_loop st a (a XOR bsz k) (n + MDSZ) = Some (st', Some (a + MDSZ))"
      "buddy_rep st' ?bl mp" "bytes st' = bytes st"
    using grow_round [OF rep a(2) ne a(1) u(2), of "n + MDSZ"] n(2) x by (auto simp del: fun_upd_apply)
  have "?bl a = Some (Suc k, False)" by simp
  then obtain m' where m': "mem st' a = Some m'" "\<not> is_mmap m'" using coreD [OF repD(5) [OF s(2)]] by blast
  have n0: "0 < n" using n(1) MDSZ_bsz [of k] by (cases n) auto
  have "bsz (Suc k) \<le> bsz MAX_ORDER" using a(2) by (intro bsz_mono) simp
  then have "n + MDSZ < 2 ^ 64" using n(2) by (simp add: bsz_def MAX_ORDER_def)
  from srealloc_free_buddy [OF rep a(1) b n0 this n(1) s(1)] m' s(2,3) show ?thesis by auto
qed


subsection \<open>Properties\<close>


text \<open>
  C34. \<open>srealloc\<close> in place. A block that is large enough is returned and nothing changes; so is one for a size
  so near \<open>2 ^ 64\<close> that adding the metadata wraps around. A block that is the lower half of its pair, and stays
  so while free buddies of its own order follow it, takes them in: it keeps its address and contents,
  the blocks still tile the arena, and it now has the bytes asked for. But when the first buddies are free and
  a later one that is still needed is in use, \<open>srealloc\<close> goes on with the uninitialised \<open>newMD\<close>.
\<close>

theorem srealloc_in_place:
  assumes "heap_ok st (B, N, bl, mp)" "bl a = Some (k, False)" "0 < n" "n < 2 ^ 64"
  shows "(n + MDSZ \<le> bsz k \<or> 2 ^ 64 \<le> n + MDSZ \<longrightarrow>
       srealloc ke st (Some (a + MDSZ)) n = Some (Some (a + MDSZ), st))
    \<and> (room_behind bl a k (Suc d) \<and> k + Suc d \<le> MAX_ORDER \<and> bsz (k + d) < n + MDSZ \<and> n + MDSZ \<le> bsz (k + Suc d) \<longrightarrow>
       (\<exists>st'. srealloc ke st (Some (a + MDSZ)) n = Some (Some (a + MDSZ), st') \<and> bytes st' = bytes st
          \<and> heap_ok st' (B, N, grow_blocks bl a k (Suc d), mp)
          \<and> in_use (B, N, grow_blocks bl a k (Suc d), mp)
            = (in_use (B, N, bl, mp))(a + MDSZ \<mapsto> bsz (k + Suc d) - MDSZ)))
    \<and> (room_behind bl a k (Suc d) \<and> k + Suc d < MAX_ORDER \<and> bl (a XOR bsz (k + Suc d)) = Some (j, False)
         \<and> bsz (k + Suc d) < n + MDSZ \<and> n + MDSZ < 2 ^ 64 \<longrightarrow>
       srealloc ke st (Some (a + MDSZ)) n = None)"
proof (intro conjI impI; (elim conjE)?)
  have rep: "buddy_rep st bl mp" using assms(1) by simp
  show "srealloc ke st (Some (a + MDSZ)) n = Some (Some (a + MDSZ), st)" if "n + MDSZ \<le> bsz k \<or> 2 ^ 64 \<le> n + MDSZ"
    using srealloc_fits [OF rep assms(2-4) that] .
  assume r: "room_behind bl a k (Suc d)"
  {
    assume i: "k + Suc d \<le> MAX_ORDER" and n: "bsz (k + d) < n + MDSZ" "n + MDSZ \<le> bsz (k + Suc d)"
    have "bsz (k + Suc d) \<le> bsz MAX_ORDER" using i by (rule bsz_mono)
    then have "n + MDSZ < 2 ^ 64" using n(2) by (simp add: bsz_def MAX_ORDER_def)
    moreover have "in_use (B, N, grow_blocks bl a k (Suc d), mp)
        = (in_use (B, N, bl, mp))(a + MDSZ \<mapsto> bsz (k + Suc d) - MDSZ)"
      by (rule in_use_upd_block) (rule grow_blocks_in_use [OF r i assms(2)])
    ultimately show "\<exists>st'. srealloc ke st (Some (a + MDSZ)) n = Some (Some (a + MDSZ), st') \<and> bytes st' = bytes st
          \<and> heap_ok st' (B, N, grow_blocks bl a k (Suc d), mp)
          \<and> in_use (B, N, grow_blocks bl a k (Suc d), mp) = (in_use (B, N, bl, mp))(a + MDSZ \<mapsto> bsz (k + Suc d) - MDSZ)"
      using srealloc_grow(1) [OF assms(1,2) refl i r _ n] by blast
  next
    assume i: "k + Suc d < MAX_ORDER" and c: "bl (a XOR bsz (k + Suc d)) = Some (j, False)"
      and n: "bsz (k + Suc d) < n + MDSZ" "n + MDSZ < 2 ^ 64"
    have "bsz (k + d) < n + MDSZ" using n(1) bsz_mono [of "k + d" "k + Suc d"] by simp
    from srealloc_grow(2) [OF assms(1,2) refl _ r n(2) this n(1) c i] i
    show "srealloc ke st (Some (a + MDSZ)) n = None" by simp
  }
qed

text \<open>
  C40. \<open>srealloc\<close> of an upper half. When the buddy, the lower half, is free, the loop doubles the size of the
  upper half where it stands instead of starting the joined block at the lower half. The pointer stays, the
  blocks of the program do not tile the arena any more, and the bytes the caller asked for reach past the end of
  the old block: into the block behind it, which may be in use and stays as it was, or out of the arena.
\<close>

theorem srealloc_upper_half:
  assumes "heap_ok st (B, N, bl, mp)" "bl a = Some (k, False)" "k < MAX_ORDER"
    "\<not> bsz (Suc k) dvd a" "bl (a - bsz k) = Some (k, True)" "bsz k < n + MDSZ" "n + MDSZ \<le> bsz (Suc k)"
  shows "\<exists>st' bl'. srealloc ke st (Some (a + MDSZ)) n = Some (Some (a + MDSZ), st')
    \<and> buddy_rep st' bl' mp \<and> bl' = bl(a - bsz k := None, a \<mapsto> (Suc k, False)) \<and> \<not> tiling B N bl'
    \<and> a + bsz k < (a + MDSZ) + n
    \<and> (a + bsz k = B + N * bsz MAX_ORDER \<or> (\<exists>x. bl (a + bsz k) = Some x \<and> bl' (a + bsz k) = Some x))"
proof -
  let ?bl = "bl(a - bsz k := None, a \<mapsto> (Suc k, False))"
  have t: "tiling B N bl" using assms(1) by (simp add: arena_ok_def)
  have "?bl a = Some (Suc k, False)" by simp
  then have "\<not> tiling B N ?bl" using tilingD(2) [of B N ?bl a] assms(4) by blast
  moreover have "a + bsz k \<noteq> a - bsz k" using bsz_pos(1) [of k] by linarith
  then have "a + bsz k = B + N * bsz MAX_ORDER \<or> (\<exists>x. bl (a + bsz k) = Some x \<and> ?bl (a + bsz k) = Some x)"
    using block_end [OF t assms(2)] by auto
  ultimately show ?thesis using srealloc_upper [OF assms, of ke] assms(6) by (auto simp del: fun_upd_apply)
qed


subsection \<open>Witnesses\<close>

text \<open>The first block of the arena in two halves: the lower one in use, the upper one free or in use.\<close>

definition halves :: "bool \<Rightarrow> blocks" where
  "halves f = (initial_blocks 131072 32)(131072 \<mapsto> (9, False), 196608 \<mapsto> (9, f))"

lemma halves_heap: "\<exists>st. heap_ok st (131072, 32, halves f, Map.empty)"
proof -
  have x: "229376 XOR 32768 = (196608 :: nat)" "196608 XOR 65536 = (131072 :: nat)" by simp_all
  have b: "bsz 8 = 32768" "bsz 9 = 65536" by (simp_all add: bsz_def)
  have m: "MAX_ORDER - 8 = Suc (Suc 0)" by (simp add: MAX_ORDER_def)
  have s: "merge_safe (MAX_ORDER - 8) (bug_blocks(229376 \<mapsto> (8, True))) 229376 8"
    by (simp add: m b x bug_blocks_def)
  have fb: "free_blocks bug_blocks 229376 8 = halves True"
    by (auto simp add: free_blocks_def m b x bug_blocks_def halves_def fun_eq_iff initial_none)
  have "bug_blocks 229376 = Some (8, False)" "buddy_rep bug_state bug_blocks Map.empty"
      "arena_ok 131072 32 bug_blocks Map.empty"
    using bug_heap by (simp_all add: bug_blocks_def)
  from sfree_block [OF this(2,3,1) s] obtain st where
    st: "buddy_rep st (halves True) Map.empty" "arena_ok 131072 32 (halves True) Map.empty"
    unfolding fb by blast
  have u: "halves True 196608 = Some (9, True)" "(halves True)(196608 \<mapsto> (9, f)) = halves f"
    by (simp_all add: halves_def)
  obtain c where c: "mem st 196608 = Some c" using coreD [OF repD(5) [OF st(1) u(1)]] by blast
  have "buddy_rep (st\<lparr>mem := (mem st)(196608 \<mapsto> c\<lparr>is_free := f\<rparr>)\<rparr>) (halves f) Map.empty"
    using rep_set_free [OF st(1) u(1) c, of f] unfolding u(2) .
  moreover have t: "tiling 131072 32 (halves True)" using st(2) by (simp add: arena_ok_def)
  have "tiling 131072 32 (halves f)" using tiling_flag [OF t u(1), of f] unfolding u(2) .
  ultimately show ?thesis by (auto simp: arena_ok_def mappings_ok_def)
qed



theorem srealloc_in_place_witness:
  "srealloc ex_kernel bug_state (Some (131072 + MDSZ)) 60000 = Some (Some (131072 + MDSZ), bug_state)
   \<and> (\<exists>st st'. heap_ok st (131072, 32, halves True, Map.empty)
        \<and> srealloc ex_kernel st (Some (131072 + MDSZ)) 100000 = Some (Some (131072 + MDSZ), st')
        \<and> heap_ok st' (131072, 32, (initial_blocks 131072 32)(131072 \<mapsto> (10, False)), Map.empty))"
proof
  have b: "bsz 9 = 65536" "bsz 10 = 131072" by (simp_all add: bsz_def)
  have "bug_blocks 131072 = Some (9, False)" by (simp add: bug_blocks_def)
  from srealloc_in_place [OF bug_heap this, of 60000 ex_kernel] b
  show "srealloc ex_kernel bug_state (Some (131072 + MDSZ)) 60000 = Some (Some (131072 + MDSZ), bug_state)"
    by (simp add: MDSZ_def)
  obtain st where st: "heap_ok st (131072, 32, halves True, Map.empty)" using halves_heap by blast
  have h: "halves True 131072 = Some (9, False)" by (simp add: halves_def)
  have r: "room_behind (halves True) 131072 9 (Suc 0)"
    using b le_less_Suc_eq [of 9] by (auto simp: room_behind_def halves_def)
  have g: "grow_blocks (halves True) 131072 9 (Suc 0) = (initial_blocks 131072 32)(131072 \<mapsto> (10, False))"
    using b by (auto simp: halves_def fun_eq_iff initial_none)
  have "room_behind (halves True) 131072 9 (Suc 0) \<and> 9 + Suc 0 \<le> MAX_ORDER \<and> bsz (9 + 0) < 100000 + MDSZ
      \<and> 100000 + MDSZ \<le> bsz (9 + Suc 0)"
    using r b by (simp add: MAX_ORDER_def MDSZ_def)
  with srealloc_in_place [OF st h, of 100000 ex_kernel 0] g st
  show "\<exists>st st'. heap_ok st (131072, 32, halves True, Map.empty)
        \<and> srealloc ex_kernel st (Some (131072 + MDSZ)) 100000 = Some (Some (131072 + MDSZ), st')
        \<and> heap_ok st' (131072, 32, (initial_blocks 131072 32)(131072 \<mapsto> (10, False)), Map.empty)"
    by (auto simp del: heap_ok.simps in_use.simps grow_blocks.simps)
qed

theorem srealloc_upper_half_witness:
  "\<exists>st'. srealloc ex_kernel bug_state (Some (229376 + MDSZ)) 40000 = Some (Some (229376 + MDSZ), st')
    \<and> buddy_rep st' ((initial_blocks 131072 32)(131072 \<mapsto> (9, False), 229376 \<mapsto> (9, False))) Map.empty"
proof -
  have b: "bsz 8 = 32768" "bsz (Suc 8) = 65536" by (simp_all add: bsz_def)
  have h: "bug_blocks 229376 = Some (8, False)" "8 < MAX_ORDER" "\<not> bsz (Suc 8) dvd 229376"
      "bug_blocks (229376 - bsz 8) = Some (8, True)" "bsz 8 < 40000 + MDSZ" "40000 + MDSZ \<le> bsz (Suc 8)"
    unfolding b by (simp_all add: bug_blocks_def MAX_ORDER_def MDSZ_def)
  have "bug_blocks(229376 - bsz 8 := None, 229376 \<mapsto> (Suc 8, False))
      = (initial_blocks 131072 32)(131072 \<mapsto> (9, False), 229376 \<mapsto> (9, False))"
    unfolding b by (auto simp: bug_blocks_def fun_eq_iff initial_none)
  then show ?thesis using srealloc_upper_half [OF bug_heap h, of ex_kernel] by auto
qed

end
