(* ===== verification/Cmdline.thy ===== *)
theory Cmdline
  imports OS_Prelude
begin

section \<open>Command lines (OS_HW1/Commands.cpp)\<close>

text \<open>
  How smash turns a line into a command object: trimming, splitting into words, removing the
  background sign, the constructors of the command classes and the choice of the class in
  \<open>CreateCommand\<close>. A C string is a list of characters without the terminating NUL. Reading outside a
  string, writing outside the array of parameters and using an uninitialised entry of it are undefined
  (\<^const>\<open>None\<close>). The allocations of the constructors are taken to succeed.
\<close>

subsection \<open>Trimming and splitting\<close>

definition WHITESPACE :: string where
  "WHITESPACE = [CHR '' '', CHR 0x0D, CHR 0x0A, CHR 0x09, CHR 0x0B, CHR 0x0C]"

fun find_first_not_of :: "string \<Rightarrow> string \<Rightarrow> nat option" where
  "find_first_not_of cs [] = None"
| "find_first_not_of cs (c # s) = (if c \<in> set cs then map_option Suc (find_first_not_of cs s) else Some 0)"

fun find_last_not_of :: "string \<Rightarrow> string \<Rightarrow> nat option" where
  "find_last_not_of cs [] = None"
| "find_last_not_of cs (c # s) =
     (case find_last_not_of cs s of
        Some i \<Rightarrow> Some (Suc i)
      | None \<Rightarrow> if c \<in> set cs then None else Some 0)"

definition ltrim :: "string \<Rightarrow> string" where
  "ltrim s = (case find_first_not_of WHITESPACE s of None \<Rightarrow> [] | Some start \<Rightarrow> drop start s)"

definition rtrim :: "string \<Rightarrow> string" where
  "rtrim s = (case find_last_not_of WHITESPACE s of None \<Rightarrow> [] | Some e \<Rightarrow> take (e + 1) s)"

definition trim :: "string \<Rightarrow> string" where
  "trim s = rtrim (ltrim s)"

text \<open>The words that \<open>iss >> s\<close> reads one after the other.\<close>

function words :: "string \<Rightarrow> string list" where
  "words s =
     (let t = dropWhile isspace s in
      if t = [] then [] else takeWhile (\<lambda>c. \<not> isspace c) t # words (dropWhile (\<lambda>c. \<not> isspace c) t))"
  by auto
termination
proof (relation "measure length", goal_cases)
  case (2 s t)
  then have "\<not> isspace (hd t)" "t \<noteq> []" using hd_dropWhile [of isspace s] by simp_all
  then obtain c r where t: "t = c # r" "\<not> isspace c" by (cases t) auto
  have "length (dropWhile (\<lambda>c. \<not> isspace c) r) \<le> length r" by (rule length_dropWhile_le)
  moreover have "length t \<le> length s" using 2(1) length_dropWhile_le by metis
  ultimately show ?case using t by simp
qed simp

declare words.simps [simp del]

subsection \<open>The array of parameters\<close>

definition COMMAND_ARGS_MAX_LENGTH :: nat where "COMMAND_ARGS_MAX_LENGTH = 200"

definition COMMAND_MAX_ARGS :: nat where "COMMAND_MAX_ARGS = 20"

datatype cell = Uninit | Null | Str string

text \<open>The loop of \<open>_parseCommandLine\<close>: store the word at \<open>i\<close>, advance and terminate the list with NULL.\<close>

fun parse_loop :: "cell list \<Rightarrow> nat \<Rightarrow> string list \<Rightarrow> (cell list \<times> nat) option" where
  "parse_loop args i [] = Some (args, i)"
| "parse_loop args i (w # ws) =
     (if Suc i < length args then parse_loop (args[i := Str w, Suc i := Null]) (Suc i) ws else None)"

definition parseCommandLine :: "string \<Rightarrow> cell list \<Rightarrow> (cell list \<times> nat) option" where
  "parseCommandLine cmd_line args = parse_loop args 0 (words (trim cmd_line))"

text \<open>A parameter used as a C string.\<close>

definition param :: "cell list \<Rightarrow> nat \<Rightarrow> string option" where
  "param ps i = (if i < length ps then (case ps ! i of Str s \<Rightarrow> Some s | _ \<Rightarrow> None) else None)"

definition isBackgroundComamnd :: "string \<Rightarrow> bool option" where
  "isBackgroundComamnd s = map_option (\<lambda>i. s ! i = CHR ''&'') (find_last_not_of WHITESPACE s)"

text \<open>
  \<open>_removeBackgroundSign\<close>: the index is stored in an \<open>unsigned int\<close>, so that the comparison with \<open>npos\<close>
  is never true and a blank line is indexed at \<open>2 ^ 32 - 1\<close>.
\<close>

definition removeBackgroundSign :: "string \<Rightarrow> string option" where
  "removeBackgroundSign s =
     (let idx = (case find_last_not_of WHITESPACE s of None \<Rightarrow> 2 ^ 32 - 1 | Some i \<Rightarrow> i mod 2 ^ 32) in
      if idx > length s then None
      else if idx = length s \<or> s ! idx \<noteq> CHR ''&'' then Some s
      else let s' = s[idx := CHR '' '']; last = find_last_not_of WHITESPACE (take (Suc idx) s) in
           case last of None \<Rightarrow> None | Some l \<Rightarrow> Some (take (l + 1) s'))"

subsection \<open>Command objects\<close>

record Command =
  cmd_line :: string
  parametrs :: "cell list"
  num_of_params :: nat

text \<open>\<open>s.find(c, pos)\<close>.\<close>

definition find_char :: "char \<Rightarrow> string \<Rightarrow> nat \<Rightarrow> nat option" where
  "find_char c s pos = find (\<lambda>i. s ! i = c) [pos..<length s]"

text \<open>The loop of the constructor that erases every ampersand.\<close>

function erase_loop :: "string \<Rightarrow> nat option \<Rightarrow> string" where
  "erase_loop s None = s"
| "erase_loop s (Some pos) =
     (if pos < length s
      then let s' = take pos s @ drop (Suc pos) s in erase_loop s' (find_char (CHR ''&'') s' pos)
      else s)"
  by pat_completeness auto
termination by (relation "measure (length \<circ> fst)") auto

definition mk_Command :: "string \<Rightarrow> Command option" where
  "mk_Command cmd_line_input =
     (let modified_cmd = trim (erase_loop cmd_line_input (find_char (CHR ''&'') cmd_line_input 0)) in
      map_option (\<lambda>(ps, n). \<lparr>cmd_line = cmd_line_input, parametrs = ps, num_of_params = n\<rparr>)
        (parseCommandLine modified_cmd (replicate COMMAND_MAX_ARGS Uninit)))"

text \<open>The destructor: the entries from \<open>i\<close> down are read and freed unless NULL.\<close>

fun delete_loop :: "cell list \<Rightarrow> nat \<Rightarrow> cell list option" where
  "delete_loop ps i =
     (if i \<ge> length ps \<or> ps ! i = Uninit then None
      else case i of 0 \<Rightarrow> Some ps | Suc j \<Rightarrow> delete_loop ps j)"

definition delete_Command :: "Command \<Rightarrow> cell list option" where
  "delete_Command c = delete_loop (parametrs c) COMMAND_MAX_ARGS"

record RedirectionCommand = Command +
  isAppend :: bool
  file_name :: string

text \<open>\<open>cmd_line_input[i]\<close>, the terminating NUL included.\<close>

definition char_at :: "string \<Rightarrow> nat \<Rightarrow> char option" where
  "char_at s i = (if i < length s then Some (s ! i) else if i = length s then Some NUL else None)"

fun arrow_loop :: "string \<Rightarrow> nat" where
  "arrow_loop [] = 0"
| "arrow_loop (c # s) = (if c \<noteq> CHR ''>'' then Suc (arrow_loop s) else 0)"

definition mk_RedirectionCommand :: "string \<Rightarrow> RedirectionCommand option" where
  "mk_RedirectionCommand cmd_line_input =
     do { c \<leftarrow> mk_Command cmd_line_input;
          (let pos = arrow_loop cmd_line_input in
           do { next_c \<leftarrow> char_at cmd_line_input (pos + 1);
                (let app = (next_c = CHR ''>'');
                     beginning = (if app then pos + 2 else pos + 1) in
                 Some \<lparr>cmd_line = trim (take pos cmd_line_input), parametrs = parametrs c,
                       num_of_params = num_of_params c, isAppend = app,
                       file_name = trim (take (length cmd_line_input - pos - 1) (drop beginning cmd_line_input))\<rparr>) }) }"

record PipeCommand = Command +
  firstCommand :: string
  secondCommand :: string
  isPipeWithAmpersand :: bool

definition pipe_position :: "string \<Rightarrow> nat" where
  "pipe_position s = (case find_char (CHR ''|'') s 0 of None \<Rightarrow> 0 | Some i \<Rightarrow> i)"

definition mk_PipeCommand :: "string \<Rightarrow> PipeCommand option" where
  "mk_PipeCommand cmd_line_input =
     do { c \<leftarrow> mk_Command cmd_line_input;
          (let pos = pipe_position cmd_line_input in
           do { next_c \<leftarrow> char_at cmd_line_input (pos + 1);
                (let amp = (next_c = CHR ''&'');
                     start = (if amp then pos + 2 else pos + 1) in
                 Some \<lparr>cmd_line = cmd_line_input, parametrs = parametrs c, num_of_params = num_of_params c,
                       firstCommand = trim (take pos cmd_line_input),
                       secondCommand = trim (take (length cmd_line_input - pos - 1) (drop start cmd_line_input)),
                       isPipeWithAmpersand = amp\<rparr>) }) }"

subsection \<open>The class of a command\<close>

datatype cmd =
    Chprompt Command
  | ShowPidCommand Command
  | GetCurrDirCommand Command
  | ChangeDirCommand Command
  | JobsCommand Command
  | ForegroundCommand Command
  | QuitCommand Command
  | KillCommand Command
  | ExternalCommand Command bool bool
  | Redirection RedirectionCommand
  | Pipe PipeCommand

definition CreateCommand :: "string \<Rightarrow> cmd option" where
  "CreateCommand line =
     (let cmd_s = trim line;
          firstWord = takeWhile (\<lambda>c. c \<noteq> CHR '' '' \<and> c \<noteq> CHR 0x0A) cmd_s in
      do { isBG \<leftarrow> isBackgroundComamnd line;
           (let isIO = CHR ''>'' \<in> set cmd_s;
                isComplex = (CHR ''?'' \<in> set cmd_s \<or> CHR ''*'' \<in> set cmd_s);
                isPipe = CHR ''|'' \<in> set cmd_s in
            if isIO then map_option Redirection (mk_RedirectionCommand line)
            else if isPipe then map_option Pipe (mk_PipeCommand line)
            else if firstWord = ''chprompt'' \<or> firstWord = ''chprompt&'' then map_option Chprompt (mk_Command line)
            else if firstWord = ''showpid'' \<or> firstWord = ''showpid&'' then map_option ShowPidCommand (mk_Command line)
            else if firstWord = ''pwd'' \<or> firstWord = ''pwd&'' then map_option GetCurrDirCommand (mk_Command line)
            else if firstWord = ''cd'' \<or> firstWord = ''cd&'' then map_option ChangeDirCommand (mk_Command line)
            else if firstWord = ''jobs'' \<or> firstWord = ''jobs&'' then map_option JobsCommand (mk_Command line)
            else if firstWord = ''fg'' \<or> firstWord = ''fg&'' then map_option ForegroundCommand (mk_Command line)
            else if firstWord = ''quit'' \<or> firstWord = ''quit&'' then map_option QuitCommand (mk_Command line)
            else if firstWord = ''kill'' \<or> firstWord = ''kill'' then map_option KillCommand (mk_Command line)
            else map_option (\<lambda>c. ExternalCommand c isBG isComplex) (mk_Command line)) })"

subsection \<open>Trimming\<close>

lemma WHITESPACE_isspace: "c \<in> set WHITESPACE \<longleftrightarrow> isspace c"
  by (auto simp: WHITESPACE_def isspace_def)

lemma find_first_not_of_None: "find_first_not_of cs s = None \<longleftrightarrow> set s \<subseteq> set cs"
  by (induction s) auto

lemma find_last_not_of_None: "find_last_not_of cs s = None \<longleftrightarrow> set s \<subseteq> set cs"
  by (induction s) (auto split: option.splits)

lemma find_last_not_of_Some:
  "find_last_not_of cs s = Some i \<Longrightarrow> i < length s \<and> s ! i \<notin> set cs \<and> set (drop (Suc i) s) \<subseteq> set cs"
proof (induction s arbitrary: i)
  case (Cons c s)
  then show ?case using find_last_not_of_None [of cs s] by (auto split: option.splits if_splits)
qed simp

lemma ltrim_dropWhile: "ltrim s = dropWhile isspace s"
proof (induction s)
  case (Cons c s)
  then show ?case by (auto simp: ltrim_def WHITESPACE_isspace split: option.splits)
qed (simp add: ltrim_def)

lemma rtrim_snoc: "rtrim (s @ [c]) = (if isspace c then rtrim s else s @ [c])"
proof -
  have "find_last_not_of WHITESPACE (s @ [c]) = (if isspace c then find_last_not_of WHITESPACE s else Some (length s))"
    by (induction s) (auto simp: WHITESPACE_isspace split: option.splits)
  moreover have "i < length s" if "find_last_not_of WHITESPACE s = Some i" for i
    using find_last_not_of_Some [OF that] by blast
  ultimately show ?thesis by (auto simp: rtrim_def split: option.splits)
qed

lemma rtrim_dropWhile: "rtrim s = rev (dropWhile isspace (rev s))"
  by (induction s rule: rev_induct) (simp_all add: rtrim_snoc, simp add: rtrim_def)

lemma length_trim: "length (trim s) \<le> length s"
  unfolding trim_def ltrim_dropWhile rtrim_dropWhile
  by (metis length_dropWhile_le length_rev le_trans)

subsection \<open>Words\<close>

lemma words_Nil [simp]: "words [] = []"
  by (simp add: words.simps)

lemma words_unfold:
  "dropWhile isspace s \<noteq> [] \<Longrightarrow> words s = takeWhile (\<lambda>c. \<not> isspace c) (dropWhile isspace s)
     # words (dropWhile (\<lambda>c. \<not> isspace c) (dropWhile isspace s))"
  by (subst words.simps) (simp add: Let_def del: dropWhile_eq_Nil_conv)

lemma words_space: "isspace c \<Longrightarrow> words (c # s) = words s"
  by (subst (1 2) words.simps) simp

lemma words_all_space: "\<forall>c\<in>set s. isspace c \<Longrightarrow> words s = []"
  by (subst words.simps) (simp add: dropWhile_eq_Nil_conv)

lemma words_ltrim: "words (dropWhile isspace s) = words s"
  by (induction s) (auto simp: words_space)

lemma words_snoc_space: "isspace c \<Longrightarrow> words (s @ [c]) = words s"
proof (induction s rule: words.induct)
  case (1 s)
  let ?t = "dropWhile isspace s"
  show ?case
  proof (cases "?t = []")
    case True
    then have "\<forall>d\<in>set s. isspace d" by (simp add: dropWhile_eq_Nil_conv)
    then show ?thesis using "1.prems" by (simp add: words_all_space)
  next
    case False
    then obtain x where x: "x \<in> set s" "\<not> isspace x" by (auto simp: dropWhile_eq_Nil_conv)
    then have d: "dropWhile isspace (s @ [c]) = ?t @ [c]" by (rule dropWhile_append1)
    have IH: "words (dropWhile (\<lambda>c. \<not> isspace c) ?t @ [c]) = words (dropWhile (\<lambda>c. \<not> isspace c) ?t)"
      using "1.IH" [OF refl False "1.prems"] .
    have "takeWhile (\<lambda>c. \<not> isspace c) (?t @ [c]) = takeWhile (\<lambda>c. \<not> isspace c) ?t"
      using "1.prems" by (induction ?t) (auto simp: takeWhile_tail)
    moreover have "words (dropWhile (\<lambda>c. \<not> isspace c) (?t @ [c])) = words (dropWhile (\<lambda>c. \<not> isspace c) ?t)"
    proof (cases "\<exists>x\<in>set ?t. isspace x")
      case True
      then have "dropWhile (\<lambda>c. \<not> isspace c) (?t @ [c]) = dropWhile (\<lambda>c. \<not> isspace c) ?t @ [c]"
        by (auto intro!: dropWhile_append1)
      then show ?thesis using IH by simp
    next
      case False
      then have "dropWhile (\<lambda>c. \<not> isspace c) (?t @ [c]) = [c]" "dropWhile (\<lambda>c. \<not> isspace c) ?t = []"
        using "1.prems" by (simp_all add: dropWhile_append2 dropWhile_eq_Nil_conv)
      then show ?thesis using "1.prems" by (simp only: words_space)
    qed
    moreover have ne: "dropWhile isspace (s @ [c]) \<noteq> []" unfolding d by simp
    ultimately show ?thesis unfolding words_unfold [OF False] words_unfold [OF ne] by (simp only: d)
  qed
qed

lemma words_rtrim: "words (rtrim s) = words s"
proof (induction s rule: rev_induct)
  case (snoc c s)
  then show ?case by (simp add: rtrim_snoc words_snoc_space)
qed (simp add: rtrim_def)

lemma words_trim [simp]: "words (trim s) = words s"
  by (simp add: trim_def words_rtrim ltrim_dropWhile words_ltrim)

lemma words_word_append:
  assumes "w \<noteq> []" "\<forall>c\<in>set w. \<not> isspace c"
  shows "words (w @ s) = (w @ takeWhile (\<lambda>c. \<not> isspace c) s) # words (dropWhile (\<lambda>c. \<not> isspace c) s)"
proof -
  have "dropWhile isspace (w @ s) = w @ s" using assms by (cases w) auto
  then show ?thesis using assms by (subst words.simps) (simp add: takeWhile_append2 dropWhile_append2)
qed

lemma words_no_space: "w \<in> set (words s) \<Longrightarrow> w \<noteq> [] \<and> (\<forall>c\<in>set w. \<not> isspace c)"
proof (induction s rule: words.induct)
  case (1 s)
  let ?t = "dropWhile isspace s"
  have t: "?t \<noteq> []" using "1.prems" words_all_space [of s] by (fastforce simp: dropWhile_eq_Nil_conv)
  then have "takeWhile (\<lambda>c. \<not> isspace c) ?t \<noteq> []" using hd_dropWhile [of isspace s] by (cases ?t) auto
  moreover have "w = takeWhile (\<lambda>c. \<not> isspace c) ?t \<or> w \<in> set (words (dropWhile (\<lambda>c. \<not> isspace c) ?t))"
    using "1.prems" unfolding words_unfold [OF t] by simp
  moreover have "\<forall>c\<in>set (takeWhile (\<lambda>c. \<not> isspace c) ?t). \<not> isspace c" by (blast dest: set_takeWhileD)
  ultimately show ?case using "1.IH" [OF refl t] by metis
qed

text \<open>Splitting a line put together from words gives the words back.\<close>

definition unwords :: "string list \<Rightarrow> string" where
  "unwords ws = concat (map (\<lambda>w. w @ '' '') ws)"

lemma words_unwords:
  "\<forall>w\<in>set ws. w \<noteq> [] \<and> (\<forall>c\<in>set w. \<not> isspace c) \<Longrightarrow> words (unwords ws) = ws"
proof (induction ws)
  case (Cons w ws)
  have sp: "isspace (CHR '' '')" by (simp add: isspace_def)
  have "unwords (w # ws) = w @ '' '' @ unwords ws" by (simp add: unwords_def)
  then show ?case using Cons sp by (simp add: words_word_append words_space)
qed (simp add: unwords_def)

subsection \<open>Erasing ampersands\<close>

lemma find_char_Some:
  "find_char c s p = Some i \<longleftrightarrow> p \<le> i \<and> i < length s \<and> s ! i = c \<and> (\<forall>j. p \<le> j \<and> j < i \<longrightarrow> s ! j \<noteq> c)"
proof
  assume "find_char c s p = Some i"
  then obtain k where k: "k < length s - p" "s ! (p + k) = c" "i = p + k" "\<forall>j<k. s ! (p + j) \<noteq> c"
    by (auto simp: find_char_def find_Some_iff)
  have "s ! j \<noteq> c" if "p \<le> j" "j < i" for j using k(3,4) that by (metis le_add_diff_inverse nat_add_left_cancel_less)
  then show "p \<le> i \<and> i < length s \<and> s ! i = c \<and> (\<forall>j. p \<le> j \<and> j < i \<longrightarrow> s ! j \<noteq> c)" using k by auto
next
  assume a: "p \<le> i \<and> i < length s \<and> s ! i = c \<and> (\<forall>j. p \<le> j \<and> j < i \<longrightarrow> s ! j \<noteq> c)"
  then show "find_char c s p = Some i"
    unfolding find_char_def find_Some_iff by (intro exI [of _ "i - p"]) auto
qed

lemma find_char_None: "find_char c s p = None \<longleftrightarrow> c \<notin> set (drop p s)"
proof -
  have "set (drop p s) = (\<lambda>i. s ! i) ` {p..<length s}"
    by (metis drop_map drop_upt map_nth plus_nat.add_0 set_map set_upt)
  then show ?thesis by (auto simp: find_char_def find_None_iff)
qed

lemma erase_loop_filter:
  assumes "pos = find_char (CHR ''&'') s p" "CHR ''&'' \<notin> set (take p s)"
  shows "erase_loop s pos = filter (\<lambda>c. c \<noteq> CHR ''&'') s"
  using assms
proof (induction s pos arbitrary: p rule: erase_loop.induct)
  case (1 s)
  then have "CHR ''&'' \<notin> set s" by (metis Un_iff append_take_drop_id find_char_None set_append)
  then have "filter (\<lambda>c. c \<noteq> CHR ''&'') s = s" by (auto simp: filter_id_conv)
  then show ?case by simp
next
  case (2 s pos)
  let ?s = "take pos s @ drop (Suc pos) s"
  have i: "p \<le> pos" "pos < length s" "s ! pos = CHR ''&''" "\<And>j. p \<le> j \<Longrightarrow> j < pos \<Longrightarrow> s ! j \<noteq> CHR ''&''"
    using "2.prems"(1) find_char_Some [of "CHR ''&''" s p pos] by metis+
  have "s ! j \<noteq> CHR ''&''" if "j < pos" for j
    using i(2,4) "2.prems"(2) that by (cases "p \<le> j") (auto simp: in_set_conv_nth not_le)
  then have "CHR ''&'' \<notin> set (take pos ?s)" using i(2) by (auto simp: in_set_conv_nth)
  with "2.IH" [OF i(2) refl refl] have "erase_loop ?s (find_char (CHR ''&'') ?s pos) = filter (\<lambda>c. c \<noteq> CHR ''&'') ?s"
    by blast
  moreover have "filter (\<lambda>c. c \<noteq> CHR ''&'') s = filter (\<lambda>c. c \<noteq> CHR ''&'') ?s"
    by (subst id_take_nth_drop [OF i(2)]) (simp add: i(3))
  ultimately show ?case using i(2) by (simp add: Let_def)
qed

subsection \<open>The constructors\<close>

lemma parse_loop_words:
  "parse_loop (map Str us @ x # replicate m Uninit) (length us) ws =
     (if length ws \<le> m
      then Some (map Str (us @ ws) @ (if ws = [] then x else Null) # replicate (m - length ws) Uninit, length us + length ws)
      else None)"
proof (induction ws arbitrary: us x m)
  case (Cons w ws)
  show ?case
  proof (cases m)
    case (Suc n)
    have "(map Str us @ x # replicate m Uninit)[length us := Str w, Suc (length us) := Null]
        = map Str (us @ [w]) @ Null # replicate n Uninit"
      using Suc by (simp add: list_update_append)
    then show ?thesis using Cons [of "us @ [w]" Null n] Suc by simp
  qed simp
qed simp

definition no_amp :: "string \<Rightarrow> string" where
  "no_amp s = filter (\<lambda>c. c \<noteq> CHR ''&'') s"

lemma erase_loop_no_amp: "erase_loop s (find_char (CHR ''&'') s 0) = no_amp s"
  unfolding no_amp_def by (rule erase_loop_filter [OF refl]) simp

lemma mk_Command_eq:
  "mk_Command line =
     (let ws = words (no_amp line) in
      if length ws < COMMAND_MAX_ARGS
      then Some \<lparr>cmd_line = line,
        parametrs = map Str ws @ (if ws = [] then Uninit else Null) # replicate (19 - length ws) Uninit,
        num_of_params = length ws\<rparr>
      else None)"
proof -
  have "replicate COMMAND_MAX_ARGS Uninit = map Str [] @ Uninit # replicate 19 Uninit"
    by (simp add: COMMAND_MAX_ARGS_def numeral_eq_Suc)
  from parse_loop_words [of "[]" Uninit 19 "words (no_amp line)"] this
  show ?thesis unfolding mk_Command_def parseCommandLine_def erase_loop_no_amp
    by (auto simp: Let_def COMMAND_MAX_ARGS_def)
qed

lemma mk_Command_length: "mk_Command line = Some c \<Longrightarrow> length (parametrs c) = COMMAND_MAX_ARGS"
  by (auto simp: mk_Command_eq Let_def COMMAND_MAX_ARGS_def split: if_splits)

lemma param_word:
  assumes "mk_Command line = Some c"
  shows "i < num_of_params c \<Longrightarrow> param (parametrs c) i = Some (words (no_amp line) ! i)"
    "num_of_params c \<le> i \<Longrightarrow> param (parametrs c) i = None"
    "num_of_params c = length (words (no_amp line))"
  using assms by (auto simp: mk_Command_eq Let_def param_def nth_append nth_Cons' split: if_splits)

text \<open>The destructor reads one entry too many.\<close>

lemma delete_Command_undefined: "mk_Command line = Some c \<Longrightarrow> delete_Command c = None"
  by (simp add: delete_Command_def mk_Command_length)

lemma arrow_loop_le: "arrow_loop s \<le> length s" "CHR ''>'' \<in> set s \<Longrightarrow> arrow_loop s < length s"
  "CHR ''>'' \<notin> set (take (arrow_loop s) s)"
  by (induction s) auto

lemma set_trim: "set (trim s) \<subseteq> set s"
  unfolding trim_def ltrim_dropWhile rtrim_dropWhile
  by (metis (no_types, lifting) set_dropWhileD set_rev subsetI)

lemma blank_iff: "find_first_not_of WHITESPACE s = None \<longleftrightarrow> find_last_not_of WHITESPACE s = None"
  by (simp add: find_first_not_of_None find_last_not_of_None)

lemma pipe_position_less: "CHR ''|'' \<in> set s \<Longrightarrow> pipe_position s < length s"
  using find_char_None [of "CHR ''|''" s 0] find_char_Some [of "CHR ''|''" s 0]
  by (auto simp: pipe_position_def split: option.splits)

lemma mk_RedirectionCommand_Some:
  assumes "mk_RedirectionCommand line = Some r"
  shows "cmd_line r = trim (take (arrow_loop line) line)"
  using assms by (auto simp: mk_RedirectionCommand_def Let_def char_at_def split: bind_splits if_splits)

lemma redirection_shorter:
  assumes "CreateCommand line = Some (Redirection r)"
  shows "length (cmd_line r) < length line" "CHR ''>'' \<notin> set (cmd_line r)"
proof -
  have r: "CHR ''>'' \<in> set (trim line)" "mk_RedirectionCommand line = Some r"
    using assms by (auto simp: CreateCommand_def Let_def split: bind_splits if_splits)
  then have "CHR ''>'' \<in> set line" using set_trim by blast
  then have "arrow_loop line < length line" by (rule arrow_loop_le(2))
  moreover have "length (cmd_line r) \<le> arrow_loop line"
    using mk_RedirectionCommand_Some [OF r(2)] length_trim [of "take (arrow_loop line) line"] by simp
  ultimately show "length (cmd_line r) < length line" by simp
  show "CHR ''>'' \<notin> set (cmd_line r)"
    using mk_RedirectionCommand_Some [OF r(2)] set_trim arrow_loop_le(3) [of line] by auto
qed

text \<open>Every line that is not blank and has fewer than 20 words gives a command.\<close>

lemma CreateCommand_defined:
  assumes "find_first_not_of WHITESPACE line \<noteq> None" "length (words (no_amp line)) < COMMAND_MAX_ARGS"
  shows "\<exists>c. CreateCommand line = Some c"
proof -
  obtain b where b: "isBackgroundComamnd line = Some b"
    using assms(1) unfolding blank_iff isBackgroundComamnd_def by auto
  obtain c where c: "mk_Command line = Some c" using assms(2) by (simp add: mk_Command_eq Let_def)
  have "\<exists>r. mk_RedirectionCommand line = Some r" if "CHR ''>'' \<in> set (trim line)"
  proof -
    have "arrow_loop line < length line" using that set_trim arrow_loop_le(2) by blast
    then show ?thesis using c by (auto simp: mk_RedirectionCommand_def Let_def char_at_def)
  qed
  moreover have "\<exists>p. mk_PipeCommand line = Some p" if "CHR ''|'' \<in> set (trim line)"
  proof -
    have "pipe_position line < length line" using that set_trim pipe_position_less by blast
    then show ?thesis using c by (auto simp: mk_PipeCommand_def Let_def char_at_def)
  qed
  ultimately show ?thesis using b c by (auto simp: CreateCommand_def Let_def)
qed

subsection \<open>Properties\<close>

text \<open>
  C33. The constructor of \<open>Command\<close>. The loop that erases the ampersands and the loop that fills the array
  of 20 entries amount to splitting the line without its ampersands: the parameters are its words in
  order, and nothing else can be read. From 20 words on the constructor writes past the array;
  and the destructor always reads past it.
\<close>

theorem command_parameters:
  "case mk_Command line of
     None \<Rightarrow> COMMAND_MAX_ARGS \<le> length (words (no_amp line))
   | Some c \<Rightarrow> cmd_line c = line \<and> num_of_params c = length (words (no_amp line))
       \<and> num_of_params c < COMMAND_MAX_ARGS \<and> length (parametrs c) = COMMAND_MAX_ARGS
       \<and> (\<forall>i. param (parametrs c) i
            = (if i < length (words (no_amp line)) then Some (words (no_amp line) ! i) else None))
       \<and> delete_Command c = None"
proof (cases "mk_Command line")
  case None
  then show ?thesis by (auto simp: mk_Command_eq Let_def split: if_splits)
next
  case (Some c)
  then have "cmd_line c = line \<and> num_of_params c < COMMAND_MAX_ARGS"
    by (auto simp: mk_Command_eq Let_def split: if_splits)
  then show ?thesis
    using Some mk_Command_length [OF Some] delete_Command_undefined [OF Some] param_word [OF Some] by auto
qed

text \<open>
  Splitting is the inverse of joining: at most 19 words without white space and ampersands, each followed
  by a blank, become exactly these parameters.
\<close>

theorem command_roundtrip:
  assumes "\<forall>w\<in>set ws. w \<noteq> [] \<and> (\<forall>c\<in>set w. \<not> isspace c \<and> c \<noteq> CHR ''&'')" "length ws < COMMAND_MAX_ARGS"
  shows "\<exists>c. mk_Command (unwords ws) = Some c \<and> num_of_params c = length ws
    \<and> map (param (parametrs c)) [0..<length ws] = map Some ws"
proof -
  have "no_amp (unwords ws) = unwords ws"
    using assms(1) by (auto simp: no_amp_def unwords_def filter_id_conv)
  then have w: "words (no_amp (unwords ws)) = ws" using words_unwords [of ws] assms(1) by simp
  then obtain c where c: "mk_Command (unwords ws) = Some c" using assms(2) by (simp add: mk_Command_eq Let_def)
  have "map (param (parametrs c)) [0..<length ws] = map Some ws"
    using param_word [OF c] w by (intro nth_equalityI) auto
  then show ?thesis using c param_word(3) [OF c] w by auto
qed

theorem command_roundtrip_witness:
  "\<exists>c. mk_Command ''ls -l '' = Some c \<and> num_of_params c = 2
    \<and> map (param (parametrs c)) [0..<2] = [Some ''ls'', Some ''-l'']"
  using command_roundtrip [of "[''ls'', ''-l'']"] by (simp add: unwords_def isspace_def COMMAND_MAX_ARGS_def numeral_2_eq_2)

end
