(* ===== verification/Jobs.thy ===== *)
theory Jobs
  imports Cmdline
begin

section \<open>The state of smash and its job list (OS_HW1/Commands.cpp)\<close>

text \<open>
  The singleton \<open>SmallShell\<close> with its descriptor table and everything it has done so far (output and
  system calls), and the class \<open>JobsList\<close>. What a system call returns is an argument, the record
  \<open>kernel\<close>: an answer may depend on everything that happened before, so the theorems hold for
  every behaviour of the children and of the file system. A call that returns a new descriptor also sees
  the table of the open ones.
\<close>

subsection \<open>State\<close>

record JobEntry =
  job_cmd :: string
  jobPid :: int
  jobId :: int
  indexInList :: int

record JobsList =
  jobs_list :: "JobEntry list"
  max_index :: int
  cur_size :: int

definition MAX_JOBS_NUM :: int where "MAX_JOBS_NUM = 100"

text \<open>What a descriptor refers to.\<close>

datatype target = Terminal | File string | Pipe_read | Pipe_write

text \<open>System calls. \<open>Waitpid p True\<close> has the option WUNTRACED, \<open>Waitpid p False\<close> WNOHANG.\<close>

datatype syscall =
    Fork | Waitpid int bool | Kill int int | Chdir string | Getcwd nat | Malloc
  | Open string bool | Dup int | Dup2 int int | Close int | Pipe_sys | Chmod string int

datatype event = Out "target option" string | Err string | Perror string | Sys syscall

record kernel =
  k_fork :: "event list \<Rightarrow> int"
  k_waitpid :: "event list \<Rightarrow> int \<Rightarrow> bool \<Rightarrow> int \<times> bool"
  k_kill :: "event list \<Rightarrow> int \<Rightarrow> int \<Rightarrow> int"
  k_chdir :: "event list \<Rightarrow> string \<Rightarrow> int"
  k_getcwd :: "event list \<Rightarrow> nat \<Rightarrow> string option"
  k_malloc :: "event list \<Rightarrow> bool"
  k_open :: "event list \<Rightarrow> (int \<rightharpoonup> target) \<Rightarrow> string \<Rightarrow> bool \<Rightarrow> int"
  k_dup :: "event list \<Rightarrow> (int \<rightharpoonup> target) \<Rightarrow> int \<Rightarrow> int"
  k_dup2 :: "event list \<Rightarrow> int \<Rightarrow> int \<Rightarrow> int"
  k_close :: "event list \<Rightarrow> int \<Rightarrow> int"
  k_pipe :: "event list \<Rightarrow> (int \<rightharpoonup> target) \<Rightarrow> int \<times> int"
  k_chmod :: "event list \<Rightarrow> string \<Rightarrow> int \<Rightarrow> int"
  k_sigint :: "event list \<Rightarrow> nat"

record smash =
  pid :: int
  prompt :: string
  last_working_directory :: string
  foreground_command_pid :: int
  jobs :: JobsList
  fds :: "int \<rightharpoonup> target"
  trace :: "event list"

text \<open>The constructor \<open>SmallShell()\<close>, in a process \<open>p\<close> with the descriptor table \<open>d\<close>.\<close>

definition NO_DIR :: string where "NO_DIR = ''noot a valid directory girls''"

definition mk_SmallShell :: "int \<Rightarrow> (int \<rightharpoonup> target) \<Rightarrow> smash" where
  "mk_SmallShell p d = \<lparr>pid = p, prompt = ''smash> '', last_working_directory = NO_DIR,
     foreground_command_pid = p, jobs = \<lparr>jobs_list = [], max_index = 1, cur_size = 0\<rparr>, fds = d, trace = []\<rparr>"

definition emit :: "event \<Rightarrow> smash \<Rightarrow> smash" where
  "emit e st = st\<lparr>trace := trace st @ [e]\<rparr>"

text \<open>Output to the descriptors 1 and 2.\<close>

definition cout :: "string \<Rightarrow> smash \<Rightarrow> smash" where
  "cout s st = emit (Out (fds st 1) s) st"

definition cerr :: "string \<Rightarrow> smash \<Rightarrow> smash" where
  "cerr s st = emit (Err s) st"

definition perror :: "string \<Rightarrow> smash \<Rightarrow> smash" where
  "perror s st = emit (Perror s) st"

definition waitpid :: "kernel \<Rightarrow> int \<Rightarrow> bool \<Rightarrow> smash \<Rightarrow> (int \<times> bool) \<times> smash" where
  "waitpid k p untraced st = (k_waitpid k (trace st) p untraced, emit (Sys (Waitpid p untraced)) st)"

definition kill :: "kernel \<Rightarrow> int \<Rightarrow> int \<Rightarrow> smash \<Rightarrow> int \<times> smash" where
  "kill k p sig st = (k_kill k (trace st) p sig, emit (Sys (Kill p sig)) st)"

definition SIGKILL :: int where "SIGKILL = 9"

definition LF :: string where "LF = [CHR 0x0A]"

subsection \<open>The job list\<close>

text \<open>
  The loop over the jobs with \<open>waitpid\<close>: the jobs that stay, and whether the loop came to its end.
\<close>

fun reap_loop :: "kernel \<Rightarrow> JobEntry list \<Rightarrow> smash \<Rightarrow> JobEntry list \<times> bool \<times> smash" where
  "reap_loop k [] st = ([], True, st)"
| "reap_loop k (j # js) st =
     (let ((retchild, _), st1) = waitpid k (jobPid j) False st in
      if retchild > 0 then reap_loop k js st1
      else if retchild = - 1 then (j # js, False, perror ''smash error: waitpid failed'' st1)
      else let (js', ended, st2) = reap_loop k js st1 in (j # js', ended, st2))"

fun max_loop :: "JobEntry list \<Rightarrow> int \<Rightarrow> int" where
  "max_loop [] mx = mx"
| "max_loop (j # js) mx = max_loop js (if jobId j \<ge> mx then jobId j else mx)"

definition removeFinishedJobs :: "kernel \<Rightarrow> smash \<Rightarrow> smash" where
  "removeFinishedJobs k st =
     (if jobs_list (jobs st) = [] then st\<lparr>jobs := (jobs st)\<lparr>cur_size := 0, max_index := 1\<rparr>\<rparr>
      else let (js, ended, st1) = reap_loop k (jobs_list (jobs st)) st;
               st2 = st1\<lparr>jobs := (jobs st1)\<lparr>jobs_list := js\<rparr>\<rparr> in
           if \<not> ended then st2
           else if js = [] then st2\<lparr>jobs := (jobs st2)\<lparr>cur_size := 0, max_index := 1\<rparr>\<rparr>
           else st2\<lparr>jobs := (jobs st2)\<lparr>max_index := max_loop js 1 + 1, cur_size := int (length js)\<rparr>\<rparr>)"

text \<open>\<open>addJob\<close>; the first argument is the command line of the command, \<^const>\<open>None\<close> for NULL.\<close>

definition addJob :: "kernel \<Rightarrow> string option \<Rightarrow> int \<Rightarrow> smash \<Rightarrow> smash" where
  "addJob k cmd jPid st =
     (let st1 = removeFinishedJobs k st; jl = jobs st1 in
      if cur_size jl = MAX_JOBS_NUM then st1
      else case cmd of
        None \<Rightarrow> st1
      | Some line \<Rightarrow>
          let jb = \<lparr>job_cmd = line, jobPid = jPid, jobId = max_index jl, indexInList = cur_size jl\<rparr> in
          st1\<lparr>jobs := \<lparr>jobs_list = jobs_list jl @ [jb], max_index = max_index jl + 1, cur_size = cur_size jl + 1\<rparr>\<rparr>)"

definition job_line :: "JobEntry \<Rightarrow> string" where
  "job_line j = ''['' @ fmt_d (jobId j) @ ''] '' @ job_cmd j @ LF"

definition printJobsList :: "kernel \<Rightarrow> smash \<Rightarrow> smash" where
  "printJobsList k st =
     (let st1 = removeFinishedJobs k st in fold (\<lambda>j. cout (job_line j)) (jobs_list (jobs st1)) st1)"

definition getJobById :: "JobsList \<Rightarrow> int \<Rightarrow> JobEntry option" where
  "getJobById jl i = find (\<lambda>j. jobId j = i) (jobs_list jl)"

fun last_loop :: "JobEntry list \<Rightarrow> int \<Rightarrow> int" where
  "last_loop [] last_returned = last_returned"
| "last_loop (j # js) last_returned = last_loop js (if jobId j > last_returned then jobId j else last_returned)"

definition getLastJob :: "JobsList \<Rightarrow> int \<times> JobEntry option" where
  "getLastJob jl = (let l = last_loop (jobs_list jl) (- 1) in (l, getJobById jl l))"

fun erase_job :: "JobEntry list \<Rightarrow> int \<Rightarrow> JobEntry list" where
  "erase_job [] i = []"
| "erase_job (j # js) i = (if jobId j = i then js else j # erase_job js i)"

definition removeJobById :: "JobsList \<Rightarrow> int \<Rightarrow> JobsList" where
  "removeJobById jl i =
     (if getJobById jl i = None then jl
      else let jl1 = jl\<lparr>jobs_list := erase_job (jobs_list jl) i, cur_size := cur_size jl - 1\<rparr> in
           if i = max_index jl1 then jl1\<lparr>max_index := fst (getLastJob jl1)\<rparr> else jl1)"

fun kill_loop :: "kernel \<Rightarrow> JobEntry list \<Rightarrow> smash \<Rightarrow> bool \<times> smash" where
  "kill_loop k [] st = (True, st)"
| "kill_loop k (j # js) st =
     (let st1 = cout (fmt_d (jobPid j) @ '': '' @ job_cmd j @ LF) st;
          (res, st2) = kill k (jobPid j) SIGKILL st1 in
      if res = - 1 then (False, perror ''smash error: kill failed'' st2) else kill_loop k js st2)"

definition killAllJobs :: "kernel \<Rightarrow> smash \<Rightarrow> smash" where
  "killAllJobs k st =
     (let (ended, st1) = kill_loop k (jobs_list (jobs st)) st in
      if ended then st1\<lparr>jobs := (jobs st1)\<lparr>jobs_list := []\<rparr>\<rparr> else st1)"

subsection \<open>What the operations leave alone\<close>

text \<open>Everything but the trace and the jobs.\<close>

definition same_shell :: "smash \<Rightarrow> smash \<Rightarrow> bool" where
  "same_shell st st' \<longleftrightarrow> pid st' = pid st \<and> prompt st' = prompt st
     \<and> last_working_directory st' = last_working_directory st
     \<and> foreground_command_pid st' = foreground_command_pid st \<and> fds st' = fds st"

lemma emit_simps [simp]:
  "pid (emit e st) = pid st" "prompt (emit e st) = prompt st" "jobs (emit e st) = jobs st"
  "last_working_directory (emit e st) = last_working_directory st" "fds (emit e st) = fds st"
  "foreground_command_pid (emit e st) = foreground_command_pid st" "trace (emit e st) = trace st @ [e]"
  by (simp_all add: emit_def)

lemmas out_defs = cout_def cerr_def perror_def

lemma same_shell_refl [simp]: "same_shell st st"
  by (simp add: same_shell_def)

lemma same_shell_trans: "same_shell a b \<Longrightarrow> same_shell b c \<Longrightarrow> same_shell a c"
  by (simp add: same_shell_def)

lemma same_shell_emit [simp]: "same_shell st (emit e st)"
  by (simp add: same_shell_def)

lemma same_shell_jobs [simp]: "same_shell st (st'\<lparr>jobs := x\<rparr>) = same_shell st st'"
  by (simp add: same_shell_def)

lemma reap_loop_keeps:
  "same_shell st (snd (snd (reap_loop k js st))) \<and> jobs (snd (snd (reap_loop k js st))) = jobs st"
proof (induction js arbitrary: st)
  case (Cons j js)
  let ?st1 = "emit (Sys (Waitpid (jobPid j) False)) st"
  have "same_shell st (snd (snd (reap_loop k js ?st1)))"
    using Cons.IH [of ?st1] same_shell_trans [of st ?st1] by simp
  moreover have "jobs (snd (snd (reap_loop k js ?st1))) = jobs st" using Cons.IH [of ?st1] by simp
  moreover have "same_shell st (perror x ?st1)" for x
    using same_shell_trans [of st ?st1] by (simp add: perror_def)
  ultimately show ?case
    by (simp add: waitpid_def Let_def perror_def case_prod_beta)
qed simp

lemma removeFinishedJobs_keeps: "same_shell st (removeFinishedJobs k st)"
  using reap_loop_keeps [of st k "jobs_list (jobs st)"]
  by (simp add: removeFinishedJobs_def Let_def case_prod_beta)

subsection \<open>The invariant\<close>

text \<open>
  The ids grow along the list and lie below \<open>max_index\<close>, the next id; the list is not longer than
  \<open>cur_size\<close>, which is at most 100.
\<close>

definition jobs_inv :: "JobsList \<Rightarrow> bool" where
  "jobs_inv jl \<longleftrightarrow> sorted_wrt (<) (map jobId (jobs_list jl)) \<and> 1 \<le> max_index jl
     \<and> (\<forall>j\<in>set (jobs_list jl). 1 \<le> jobId j \<and> jobId j < max_index jl)
     \<and> int (length (jobs_list jl)) \<le> cur_size jl \<and> cur_size jl \<le> MAX_JOBS_NUM"

lemma jobs_inv_init: "jobs_inv (jobs (mk_SmallShell p d))"
  by (simp add: jobs_inv_def mk_SmallShell_def MAX_JOBS_NUM_def)

lemma reap_loop_sub:
  "set (fst (reap_loop k js st)) \<subseteq> set js \<and> length (fst (reap_loop k js st)) \<le> length js
   \<and> (sorted_wrt (<) (map jobId js) \<longrightarrow> sorted_wrt (<) (map jobId (fst (reap_loop k js st))))"
proof (induction js arbitrary: st)
  case (Cons j js)
  show ?case using Cons.IH [of "emit (Sys (Waitpid (jobPid j) False)) st"]
    by (auto simp: waitpid_def Let_def case_prod_beta le_SucI)
qed simp

lemma max_loop_bounds: "mx \<le> max_loop js mx \<and> (\<forall>j\<in>set js. jobId j \<le> max_loop js mx)"
proof (induction js arbitrary: mx)
  case (Cons j js)
  from Cons.IH [of "if jobId j \<ge> mx then jobId j else mx"] show ?case by (simp split: if_splits)
qed simp

lemma max_loop_in: "max_loop js mx = mx \<or> (\<exists>j\<in>set js. max_loop js mx = jobId j)"
proof (induction js arbitrary: mx)
  case (Cons j js)
  from Cons.IH [of "if jobId j \<ge> mx then jobId j else mx"] show ?case by (auto split: if_splits)
qed simp

lemma removeFinishedJobs_inv:
  assumes "jobs_inv (jobs st)" shows "jobs_inv (jobs (removeFinishedJobs k st))"
proof -
  obtain js ended st1 where r: "reap_loop k (jobs_list (jobs st)) st = (js, ended, st1)" by (cases "reap_loop k (jobs_list (jobs st)) st") auto
  then have sub: "set js \<subseteq> set (jobs_list (jobs st))" "length js \<le> length (jobs_list (jobs st))"
      "sorted_wrt (<) (map jobId js)" "jobs st1 = jobs st"
    using reap_loop_sub [of k "jobs_list (jobs st)" st] reap_loop_keeps [of st k "jobs_list (jobs st)"] assms
    by (auto simp: jobs_inv_def)
  have "1 \<le> jobId j \<and> jobId j < max_index (jobs st)" if "j \<in> set js" for j
    using sub(1) that assms by (auto simp: jobs_inv_def)
  moreover have "jobId j < max_loop js 1 + 1" if "j \<in> set js" for j
    using max_loop_bounds [of 1 js] that by auto
  moreover have "1 \<le> max_loop js 1" using max_loop_bounds [of 1 js] by simp
  ultimately show ?thesis using sub assms r
    by (auto simp: removeFinishedJobs_def jobs_inv_def Let_def MAX_JOBS_NUM_def)
qed

lemma addJob_inv:
  assumes "jobs_inv (jobs st)" shows "jobs_inv (jobs (addJob k c p st))"
proof -
  have "jobs_inv (jobs (removeFinishedJobs k st))" using removeFinishedJobs_inv [OF assms] .
  then show ?thesis
    by (auto simp: addJob_def Let_def jobs_inv_def sorted_wrt_append split: option.splits)
qed

lemma erase_job_sub: "set (erase_job js i) \<subseteq> set js" "length (erase_job js i) \<le> length js"
  by (induction js i rule: erase_job.induct) auto

lemma erase_job_filter:
  "sorted_wrt (<) (map jobId js) \<Longrightarrow> erase_job js i = filter (\<lambda>j. jobId j \<noteq> i) js"
proof (induction js)
  case (Cons j js)
  have "filter (\<lambda>j. jobId j \<noteq> i) js = js" if "jobId j = i"
    using Cons.prems that by (auto simp: filter_id_conv)
  then show ?case using Cons by simp
qed simp

lemma getJobById_None: "getJobById jl i = None \<longleftrightarrow> i \<notin> jobId ` set (jobs_list jl)"
  by (auto simp: getJobById_def find_None_iff)

lemma getJobById_Some: "getJobById jl i = Some j \<Longrightarrow> j \<in> set (jobs_list jl) \<and> jobId j = i"
  by (auto simp: getJobById_def find_Some_iff)

text \<open>The comparison with \<open>max_index\<close> in \<open>removeJobById\<close> is never true, so the next id stays.\<close>

lemma removeJobById_eq:
  assumes "jobs_inv jl"
  shows "removeJobById jl i = (if i \<in> jobId ` set (jobs_list jl)
    then jl\<lparr>jobs_list := filter (\<lambda>j. jobId j \<noteq> i) (jobs_list jl), cur_size := cur_size jl - 1\<rparr> else jl)"
  using assms by (auto simp: removeJobById_def getJobById_None Let_def erase_job_filter jobs_inv_def)

lemma removeJobById_inv:
  assumes "jobs_inv jl" shows "jobs_inv (removeJobById jl i)"
proof (cases "i \<in> jobId ` set (jobs_list jl)")
  case True
  then obtain j where "j \<in> set (jobs_list jl)" "\<not> jobId j \<noteq> i" by auto
  then have "length (filter (\<lambda>j. jobId j \<noteq> i) (jobs_list jl)) < length (jobs_list jl)"
    by (rule length_filter_less)
  then show ?thesis using assms True
    by (auto simp: removeJobById_eq jobs_inv_def sorted_wrt_map sorted_wrt_filter)
qed (use assms in \<open>simp add: removeJobById_eq\<close>)

lemma last_loop_bounds: "lr \<le> last_loop js lr \<and> (\<forall>j\<in>set js. jobId j \<le> last_loop js lr)"
proof (induction js arbitrary: lr)
  case (Cons j js)
  from Cons.IH [of "if jobId j > lr then jobId j else lr"] show ?case by (simp split: if_splits)
qed simp

lemma last_loop_in: "last_loop js lr = lr \<or> (\<exists>j\<in>set js. last_loop js lr = jobId j)"
proof (induction js arbitrary: lr)
  case (Cons j js)
  from Cons.IH [of "if jobId j > lr then jobId j else lr"] show ?case by (auto split: if_splits)
qed simp

text \<open>\<open>getLastJob\<close> is the last entry of the list.\<close>

lemma getLastJob_last:
  assumes "jobs_inv jl"
  shows "snd (getLastJob jl) = (if jobs_list jl = [] then None else Some (last (jobs_list jl)))"
    "jobs_list jl \<noteq> [] \<Longrightarrow> fst (getLastJob jl) = jobId (last (jobs_list jl))"
proof -
  let ?js = "jobs_list jl"
  have s: "sorted_wrt (<) (map jobId ?js)" and pos: "\<forall>j\<in>set ?js. 1 \<le> jobId j" using assms by (auto simp: jobs_inv_def)
  have last: "last_loop ?js (- 1) = jobId (last ?js) \<and> getJobById jl (jobId (last ?js)) = Some (last ?js)" if ne: "?js \<noteq> []"
  proof -
    obtain xs x where x: "?js = xs @ [x]" using ne by (cases ?js rule: rev_cases) auto
    have le: "jobId j \<le> jobId x" if "j \<in> set ?js" for j using s x that by (auto simp: sorted_wrt_append intro: less_imp_le)
    have "jobId x \<le> last_loop ?js (- 1)" using last_loop_bounds [of "- 1" ?js] x by simp
    moreover have "last_loop ?js (- 1) \<le> jobId x" using last_loop_in [of ?js "- 1"] le pos x by force
    moreover have "find (\<lambda>j. jobId j = jobId x) (xs @ [x]) = Some x"
    proof -
      have "find (\<lambda>j. jobId j = jobId x) xs = None" using s x by (auto simp: find_None_iff sorted_wrt_append)
      then show ?thesis by (induction xs) (auto split: if_splits)
    qed
    ultimately show ?thesis using x by (simp add: getJobById_def)
  qed
  then show "snd (getLastJob jl) = (if ?js = [] then None else Some (last ?js))"
    "?js \<noteq> [] \<Longrightarrow> fst (getLastJob jl) = jobId (last ?js)"
    by (auto simp: getLastJob_def getJobById_def Let_def)
qed

lemma kill_loop_keeps:
  "same_shell st (snd (kill_loop k js st)) \<and> jobs (snd (kill_loop k js st)) = jobs st"
proof (induction js arbitrary: st)
  case (Cons j js)
  let ?st = "emit (Sys (Kill (jobPid j) SIGKILL)) (cout (fmt_d (jobPid j) @ '': '' @ job_cmd j @ LF) st)"
  have s: "same_shell st ?st" by (simp add: same_shell_def cout_def)
  then have "same_shell st (snd (kill_loop k js ?st))" using Cons.IH [of ?st] same_shell_trans [of st ?st] by blast
  moreover have "same_shell st (perror x ?st)" for x using same_shell_trans [OF s] by (simp add: perror_def)
  moreover have "jobs (snd (kill_loop k js ?st)) = jobs st" using Cons.IH [of ?st] by (simp add: cout_def)
  ultimately show ?case by (simp add: kill_def Let_def perror_def cout_def)
qed simp

lemma killAllJobs_keeps: "same_shell st (killAllJobs k st)"
  using kill_loop_keeps [of st k "jobs_list (jobs st)"] by (simp add: killAllJobs_def Let_def case_prod_beta)

lemma killAllJobs_inv: "jobs_inv (jobs st) \<Longrightarrow> jobs_inv (jobs (killAllJobs k st))"
  using kill_loop_keeps [of st k "jobs_list (jobs st)"]
  by (auto simp: killAllJobs_def Let_def case_prod_beta jobs_inv_def)

lemma addJob_keeps: "same_shell st (addJob k c p st)"
  using removeFinishedJobs_keeps [of st k] by (auto simp: addJob_def Let_def split: option.splits)

lemma fold_cout_keeps: "same_shell st (fold (\<lambda>j. cout (f j)) js st) \<and> jobs (fold (\<lambda>j. cout (f j)) js st) = jobs st"
proof (induction js arbitrary: st)
  case (Cons j js)
  have "same_shell st (cout (f j) st)" by (simp add: cout_def)
  then show ?case using Cons.IH [of "cout (f j) st"] same_shell_trans by (fastforce simp: cout_def)
qed simp

lemma printJobsList_keeps: "same_shell st (printJobsList k st)"
  "jobs (printJobsList k st) = jobs (removeFinishedJobs k st)"
proof -
  note f = fold_cout_keeps [of "removeFinishedJobs k st" job_line "jobs_list (jobs (removeFinishedJobs k st))"]
  show "same_shell st (printJobsList k st)"
    unfolding printJobsList_def Let_def
    by (rule same_shell_trans [OF removeFinishedJobs_keeps]) (use f in blast)
  show "jobs (printJobsList k st) = jobs (removeFinishedJobs k st)"
    using f by (simp add: printJobsList_def Let_def)
qed

subsection \<open>Which jobs are removed\<close>

text \<open>
  What \<open>removeFinishedJobs\<close> is told about the \<open>i\<close>-th job: the answer of \<open>waitpid\<close> after the calls for the jobs before it. An
  answer may differ from call to call; the kernel reports a finished child once and fails for it
  afterwards. \<open>unfinished\<close> are those of the first \<open>m\<close> jobs that were not reported as finished.
\<close>

definition wait_events :: "JobEntry list \<Rightarrow> event list" where
  "wait_events js = map (\<lambda>j. Sys (Waitpid (jobPid j) False)) js"

definition wait_answer :: "kernel \<Rightarrow> event list \<Rightarrow> JobEntry list \<Rightarrow> nat \<Rightarrow> int" where
  "wait_answer k tr js i = fst (k_waitpid k (tr @ wait_events (take i js)) (jobPid (js ! i)) False)"

definition unfinished :: "kernel \<Rightarrow> event list \<Rightarrow> JobEntry list \<Rightarrow> nat \<Rightarrow> JobEntry list" where
  "unfinished k tr js m = map ((!) js) (filter (\<lambda>i. \<not> wait_answer k tr js i > 0) [0..<m])"

lemma wait_answer_Cons:
  "wait_answer k tr (j # js) 0 = fst (k_waitpid k tr (jobPid j) False)"
  "wait_answer k tr (j # js) (Suc i) = wait_answer k (tr @ [Sys (Waitpid (jobPid j) False)]) js i"
  by (simp_all add: wait_answer_def wait_events_def)

lemma unfinished_Cons:
  "unfinished k tr (j # js) (Suc m) = (if wait_answer k tr (j # js) 0 > 0 then [] else [j])
     @ unfinished k (tr @ [Sys (Waitpid (jobPid j) False)]) js m"
proof -
  have "[0..<Suc m] = 0 # map Suc [0..<m]" by (simp add: map_Suc_upt upt_conv_Cons del: upt_Suc)
  then show ?thesis by (simp add: unfinished_def filter_map comp_def wait_answer_Cons(2) del: upt_Suc)
qed

lemma reap_loop_split:
  "\<exists>m \<le> length js. (\<forall>i < m. wait_answer k (trace st) js i \<noteq> - 1)
    \<and> (m < length js \<longrightarrow> wait_answer k (trace st) js m = - 1)
    \<and> reap_loop k js st = (unfinished k (trace st) js m @ drop m js, m = length js,
        st\<lparr>trace := trace st @ wait_events (take (Suc m) js)
          @ (if m = length js then [] else [Perror ''smash error: waitpid failed''])\<rparr>)"
proof (induction js arbitrary: st)
  case (Cons j js)
  let ?w = "Sys (Waitpid (jobPid j) False)"
  let ?st = "st\<lparr>trace := trace st @ [?w]\<rparr>"
  obtain r e where r: "k_waitpid k (trace st) (jobPid j) False = (r, e)" by fastforce
  have w: "waitpid k (jobPid j) False st = ((r, e), ?st)" using r by (simp add: waitpid_def emit_def)
  show ?case
  proof (cases "r = - 1")
    case True
    then show ?thesis using w r
      by (intro exI [of _ 0]) (simp add: unfinished_def wait_answer_Cons wait_events_def perror_def emit_def)
  next
    case False
    obtain m where "m \<le> length js" "\<forall>i < m. wait_answer k (trace ?st) js i \<noteq> - 1"
      "m < length js \<longrightarrow> wait_answer k (trace ?st) js m = - 1"
      "reap_loop k js ?st = (unfinished k (trace ?st) js m @ drop m js, m = length js,
        ?st\<lparr>trace := trace ?st @ wait_events (take (Suc m) js)
          @ (if m = length js then [] else [Perror ''smash error: waitpid failed''])\<rparr>)"
      using Cons.IH [of ?st] by blast
    then show ?thesis using w r False
      by (intro exI [of _ "Suc m"])
        (auto simp: unfinished_Cons wait_answer_Cons wait_events_def less_Suc_eq_0_disj simp del: upt_Suc)
  qed
qed (auto simp: unfinished_def wait_events_def)

lemma max_loop_Max:
  assumes "js \<noteq> []" "\<forall>j\<in>set js. 1 \<le> jobId j"
  shows "max_loop js 1 = Max (jobId ` set js)"
proof (rule Max_eqI [symmetric])
  show "y \<le> max_loop js 1" if "y \<in> jobId ` set js" for y using max_loop_bounds [of 1 js] that by auto
  show "max_loop js 1 \<in> jobId ` set js"
  proof (cases "max_loop js 1 = 1")
    case True
    have "jobId (hd js) \<le> 1" "1 \<le> jobId (hd js)" using max_loop_bounds [of 1 js] assms True by auto
    then show ?thesis using True assms(1) by (intro image_eqI [of _ _ "hd js"]) auto
  qed (use max_loop_in [of js 1] in auto)
qed simp

subsection \<open>Properties\<close>

text \<open>
  The states of the shell that the operations of the job list lead to, whatever the kernel answers and
  whatever else changes in between.
\<close>

inductive jobs_reach :: "smash \<Rightarrow> bool" where
  start: "jobs_reach (mk_SmallShell p d)"
| other: "jobs_reach st \<Longrightarrow> jobs st' = jobs st \<Longrightarrow> jobs_reach st'"
| finished: "jobs_reach st \<Longrightarrow> jobs_reach (removeFinishedJobs k st)"
| added: "jobs_reach st \<Longrightarrow> jobs_reach (addJob k c q st)"
| printed: "jobs_reach st \<Longrightarrow> jobs_reach (printJobsList k st)"
| removed: "jobs_reach st \<Longrightarrow> jobs_reach (st\<lparr>jobs := removeJobById (jobs st) i\<rparr>)"
| killed: "jobs_reach st \<Longrightarrow> jobs_reach (killAllJobs k st)"

lemma jobs_reach_inv: "jobs_reach st \<Longrightarrow> jobs_inv (jobs st)"
  by (induction rule: jobs_reach.induct)
    (simp_all add: jobs_inv_init removeFinishedJobs_inv addJob_inv printJobsList_keeps removeJobById_inv killAllJobs_inv)

text \<open>
  C35. The job list. In every reachable state, for every behaviour of the kernel, at most 100 jobs are listed and
  their ids are positive and strictly increasing. A job that is added gets an id above all the
  others, unless \<open>cur_size\<close> is 100: then the new process is not listed. Removing by id removes exactly the
  job with that id, and \<open>getLastJob\<close> is the job added last of those listed.
\<close>

theorem jobs_list_correct:
  assumes "jobs_reach st"
  shows "length (jobs_list (jobs st)) \<le> 100 \<and> sorted_wrt (<) (map jobId (jobs_list (jobs st)))
    \<and> (\<forall>j\<in>set (jobs_list (jobs st)). 1 \<le> jobId j)
    \<and> (let jl = jobs (removeFinishedJobs k st); jl' = jobs (addJob k (Some line) q st) in
        if cur_size jl = MAX_JOBS_NUM then jl' = jl
        else \<exists>j. jobs_list jl' = jobs_list jl @ [j] \<and> job_cmd j = line \<and> jobPid j = q
          \<and> (\<forall>x\<in>set (jobs_list jl). jobId x < jobId j))
    \<and> jobs_list (removeJobById (jobs st) i) = filter (\<lambda>j. jobId j \<noteq> i) (jobs_list (jobs st))
    \<and> snd (getLastJob (jobs st)) = (if jobs_list (jobs st) = [] then None else Some (last (jobs_list (jobs st))))"
proof -
  have inv: "jobs_inv (jobs st)" using jobs_reach_inv [OF assms] .
  have "jobs_list (removeJobById (jobs st) i) = filter (\<lambda>j. jobId j \<noteq> i) (jobs_list (jobs st))"
  proof (cases "i \<in> jobId ` set (jobs_list (jobs st))")
    case False
    then have "filter (\<lambda>j. jobId j \<noteq> i) (jobs_list (jobs st)) = jobs_list (jobs st)"
      by (auto simp: filter_id_conv)
    then show ?thesis using False by (simp add: removeJobById_eq [OF inv])
  qed (simp add: removeJobById_eq [OF inv])
  moreover have "let jl = jobs (removeFinishedJobs k st); jl' = jobs (addJob k (Some line) q st) in
        if cur_size jl = MAX_JOBS_NUM then jl' = jl
        else \<exists>j. jobs_list jl' = jobs_list jl @ [j] \<and> job_cmd j = line \<and> jobPid j = q
          \<and> (\<forall>x\<in>set (jobs_list jl). jobId x < jobId j)"
    using removeFinishedJobs_inv [OF inv, of k] by (auto simp: addJob_def Let_def jobs_inv_def)
  ultimately show ?thesis using inv getLastJob_last(1) [OF inv] by (auto simp: jobs_inv_def MAX_JOBS_NUM_def)
qed

text \<open>
  C36. \<open>removeFinishedJobs\<close> against its specification, for every kernel, in particular one that reports a finished child once
  and fails for it afterwards. It calls \<open>waitpid\<close> once for each job in the order of the list, up to the first call that
  fails (the job number \<open>m\<close>). When none fails, exactly the jobs that were not reported as finished stay, in their order, and
  \<open>max_index\<close> becomes one more than the largest id left (1 for an empty list). When one fails, a
  message is printed, only finished jobs before it are removed and the two counters keep their old values.
\<close>

theorem removeFinishedJobs_correct:
  assumes "jobs_reach st"
  shows "\<exists>m. let jl = jobs st; js = jobs_list jl; ans = wait_answer k (trace st) js;
        rest = map ((!) js) (filter (\<lambda>i. \<not> ans i > 0) [0..<m]); st' = removeFinishedJobs k st in
      m \<le> length js \<and> (\<forall>i < m. ans i \<noteq> - 1) \<and> (m < length js \<longrightarrow> ans m = - 1)
      \<and> trace st' = trace st @ wait_events (take (Suc m) js)
          @ (if m = length js then [] else [Perror ''smash error: waitpid failed''])
      \<and> jobs st' = (if m = length js
          then \<lparr>jobs_list = rest, max_index = (if rest = [] then 1 else Max (jobId ` set rest) + 1),
                cur_size = int (length rest)\<rparr>
          else jl\<lparr>jobs_list := rest @ drop m js\<rparr>)"
proof -
  let ?js = "jobs_list (jobs st)"
  have pos: "\<forall>j\<in>set ?js. 1 \<le> jobId j" using jobs_reach_inv [OF assms(1)] by (auto simp: jobs_inv_def)
  obtain m where m: "m \<le> length ?js" "\<forall>i < m. wait_answer k (trace st) ?js i \<noteq> - 1"
      "m < length ?js \<longrightarrow> wait_answer k (trace st) ?js m = - 1"
      "reap_loop k ?js st = (unfinished k (trace st) ?js m @ drop m ?js, m = length ?js,
        st\<lparr>trace := trace st @ wait_events (take (Suc m) ?js)
          @ (if m = length ?js then [] else [Perror ''smash error: waitpid failed''])\<rparr>)"
    using reap_loop_split [of ?js k st] by blast
  let ?rest = "unfinished k (trace st) ?js m"
  have e: "?js = [] \<Longrightarrow> ?rest = []" using m(1) by (simp add: unfinished_def)
  have "set ?rest \<subseteq> set ?js" using m(1) by (auto simp: unfinished_def)
  then have "max_loop ?rest 1 = Max (jobId ` set ?rest)" if "?rest \<noteq> []"
    using that pos by (intro max_loop_Max) auto
  then have j: "jobs (removeFinishedJobs k st) = (if m = length ?js
      then \<lparr>jobs_list = ?rest, max_index = (if ?rest = [] then 1 else Max (jobId ` set ?rest) + 1), cur_size = int (length ?rest)\<rparr>
      else (jobs st)\<lparr>jobs_list := ?rest @ drop m ?js\<rparr>)"
    using m(1,4) e by (cases "?js = []") (auto simp: removeFinishedJobs_def)
  have "trace (removeFinishedJobs k st) = trace st @ wait_events (take (Suc m) ?js)
      @ (if m = length ?js then [] else [Perror ''smash error: waitpid failed''])"
    using m(1,4) by (cases "?js = []") (simp_all add: removeFinishedJobs_def wait_events_def Let_def)
  then show ?thesis using m(1-3) j unfolding Let_def unfinished_def by (intro exI [of _ m] conjI)
qed

subsection \<open>Witnesses\<close>

text \<open>A kernel in which the process 11 has finished, 12 is unknown and the others run.\<close>

text \<open>The lowest number that is not in use, for the numbers up to 9.\<close>

definition lowest :: "(int \<rightharpoonup> target) \<Rightarrow> int" where
  "lowest d = (case find (\<lambda>n. d n = None) [0..9] of None \<Rightarrow> - 1 | Some n \<Rightarrow> n)"

definition ex_kernel :: kernel where
  "ex_kernel = \<lparr>k_fork = (\<lambda>_. 11), k_waitpid = (\<lambda>_ p _. (if p = 11 then 11 else if p = 12 then - 1 else 0, True)),
     k_kill = (\<lambda>_ _ _. 0), k_chdir = (\<lambda>_ _. 0), k_getcwd = (\<lambda>_ _. Some ''/home''), k_malloc = (\<lambda>_. True),
     k_open = (\<lambda>_ d _ _. lowest d), k_dup = (\<lambda>_ d _. lowest d), k_dup2 = (\<lambda>_ _ d. d), k_close = (\<lambda>_ _. 0),
     k_pipe = (\<lambda>_ d. (lowest d, lowest (d(lowest d \<mapsto> Pipe_read)))), k_chmod = (\<lambda>_ _ _. 0), k_sigint = (\<lambda>_. 0)\<rparr>"

definition ex_jobs :: smash where
  "ex_jobs = addJob ex_kernel (Some ''b&'') 11 (addJob ex_kernel (Some ''a&'') 10 (mk_SmallShell 5 [1 \<mapsto> Terminal]))"

lemma ex_jobs_reach: "jobs_reach ex_jobs"
  unfolding ex_jobs_def by (intro added start)

lemma ex_jobs_list:
  "jobs ex_jobs = \<lparr>jobs_list = [\<lparr>job_cmd = ''a&'', jobPid = 10, jobId = 1, indexInList = 0\<rparr>,
     \<lparr>job_cmd = ''b&'', jobPid = 11, jobId = 2, indexInList = 1\<rparr>], max_index = 3, cur_size = 2\<rparr>"
  by (simp add: ex_jobs_def addJob_def removeFinishedJobs_def mk_SmallShell_def ex_kernel_def MAX_JOBS_NUM_def Let_def
      waitpid_def emit_def)

theorem jobs_list_correct_witness:
  "map jobId (jobs_list (removeJobById (jobs ex_jobs) 1)) = [2]
   \<and> map_option jobPid (snd (getLastJob (jobs ex_jobs))) = Some 11"
  using jobs_list_correct [OF ex_jobs_reach, of ex_kernel "''c&''" 12 1] by (simp add: ex_jobs_list)

text \<open>A kernel that reports the end of the process 11 once.\<close>

definition ex_reap_kernel :: kernel where
  "ex_reap_kernel = ex_kernel\<lparr>k_waitpid := (\<lambda>tr p _.
     (if p \<noteq> 11 then 0 else if Sys (Waitpid 11 False) \<in> set tr then - 1 else 11, True))\<rparr>"

theorem removeFinishedJobs_correct_witness:
  "jobs (removeFinishedJobs ex_reap_kernel ex_jobs)
   = \<lparr>jobs_list = [\<lparr>job_cmd = ''a&'', jobPid = 10, jobId = 1, indexInList = 0\<rparr>], max_index = 2, cur_size = 1\<rparr>
   \<and> fst (k_waitpid ex_reap_kernel (trace (removeFinishedJobs ex_reap_kernel ex_jobs)) 11 False) = - 1"
proof -
  have t: "trace ex_jobs = [Sys (Waitpid 10 False)]"
    by (simp add: ex_jobs_def addJob_def removeFinishedJobs_def mk_SmallShell_def ex_kernel_def MAX_JOBS_NUM_def Let_def
        waitpid_def emit_def)
  have a: "wait_answer ex_reap_kernel (trace ex_jobs) (jobs_list (jobs ex_jobs)) 0 = 0"
      "wait_answer ex_reap_kernel (trace ex_jobs) (jobs_list (jobs ex_jobs)) (Suc 0) = 11"
    by (simp_all add: ex_jobs_list wait_answer_def wait_events_def ex_reap_kernel_def t)
  from removeFinishedJobs_correct [OF ex_jobs_reach, of ex_reap_kernel] obtain m where
    m: "let jl = jobs ex_jobs; js = jobs_list jl; ans = wait_answer ex_reap_kernel (trace ex_jobs) js;
        rest = map ((!) js) (filter (\<lambda>i. \<not> ans i > 0) [0..<m]); st' = removeFinishedJobs ex_reap_kernel ex_jobs in
      m \<le> length js \<and> (\<forall>i < m. ans i \<noteq> - 1) \<and> (m < length js \<longrightarrow> ans m = - 1)
      \<and> trace st' = trace ex_jobs @ wait_events (take (Suc m) js)
          @ (if m = length js then [] else [Perror ''smash error: waitpid failed''])
      \<and> jobs st' = (if m = length js
          then \<lparr>jobs_list = rest, max_index = (if rest = [] then 1 else Max (jobId ` set rest) + 1),
                cur_size = int (length rest)\<rparr>
          else jl\<lparr>jobs_list := rest @ drop m js\<rparr>)" ..
  have l: "length (jobs_list (jobs ex_jobs)) = Suc (Suc 0)" by (simp add: ex_jobs_list)
  have "m = Suc (Suc 0)" using m a l by (cases m rule: nat.exhaust; cases "m - 1") (auto simp: Let_def)
  with m a show ?thesis by (simp add: Let_def l) (simp add: ex_jobs_list wait_events_def ex_reap_kernel_def)
qed

end
