(* ===== verification/Shell.thy ===== *)
theory Shell
  imports Jobs "HOL-Library.Signed_Division"
begin

section \<open>The commands of smash (OS_HW1/Commands.cpp, signals.cpp, smash.cpp)\<close>

text \<open>
  The method \<open>execute\<close> of every command class, \<open>executeCommand\<close>, the handler of ctrl-C and the main loop. A call
  returns, exits the process or runs into undefined behaviour; in each case the outcome has the state
  reached. What a forked child does is described by separate definitions (\<open>external_child\<close>,
  \<open>pipe_first_child\<close>, \<open>pipe_second_child\<close>), on a copy of the state.
\<close>

datatype outcome = Returns smash | Exits int smash | Undefined smash

fun and_then :: "outcome \<Rightarrow> (smash \<Rightarrow> outcome) \<Rightarrow> outcome" where
  "and_then (Returns st) f = f st"
| "and_then (Exits c st) f = Exits c st"
| "and_then (Undefined st) f = Undefined st"

fun final_state :: "outcome \<Rightarrow> smash" where
  "final_state (Returns st) = st"
| "final_state (Exits c st) = st"
| "final_state (Undefined st) = st"

subsection \<open>System calls\<close>

definition fork :: "kernel \<Rightarrow> smash \<Rightarrow> int \<times> smash" where
  "fork k st = (k_fork k (trace st), emit (Sys Fork) st)"

definition chdir :: "kernel \<Rightarrow> string \<Rightarrow> smash \<Rightarrow> int \<times> smash" where
  "chdir k d st = (k_chdir k (trace st) d, emit (Sys (Chdir d)) st)"

definition getcwd :: "kernel \<Rightarrow> nat \<Rightarrow> smash \<Rightarrow> string option \<times> smash" where
  "getcwd k n st = (k_getcwd k (trace st) n, emit (Sys (Getcwd n)) st)"

definition malloc :: "kernel \<Rightarrow> smash \<Rightarrow> bool \<times> smash" where
  "malloc k st = (k_malloc k (trace st), emit (Sys Malloc) st)"

definition open_file :: "kernel \<Rightarrow> string \<Rightarrow> bool \<Rightarrow> smash \<Rightarrow> int \<times> smash" where
  "open_file k f app st =
     (let r = k_open k (trace st) (fds st) f app; st1 = emit (Sys (Open f app)) st in
      (r, if r = - 1 then st1 else st1\<lparr>fds := (fds st1)(r \<mapsto> File f)\<rparr>))"

definition dup :: "kernel \<Rightarrow> int \<Rightarrow> smash \<Rightarrow> int \<times> smash" where
  "dup k a st =
     (let r = k_dup k (trace st) (fds st) a; st1 = emit (Sys (Dup a)) st in
      (r, if r = - 1 then st1 else st1\<lparr>fds := (fds st1)(r := fds st1 a)\<rparr>))"

definition dup2 :: "kernel \<Rightarrow> int \<Rightarrow> int \<Rightarrow> smash \<Rightarrow> int \<times> smash" where
  "dup2 k a b st =
     (let r = k_dup2 k (trace st) a b; st1 = emit (Sys (Dup2 a b)) st in
      (r, if r = - 1 then st1 else st1\<lparr>fds := (fds st1)(b := fds st1 a)\<rparr>))"

definition close :: "kernel \<Rightarrow> int \<Rightarrow> smash \<Rightarrow> int \<times> smash" where
  "close k a st =
     (let r = k_close k (trace st) a; st1 = emit (Sys (Close a)) st in
      (r, if r = - 1 then st1 else st1\<lparr>fds := (fds st1)(a := None)\<rparr>))"

definition pipe :: "kernel \<Rightarrow> smash \<Rightarrow> (int \<times> int) \<times> smash" where
  "pipe k st =
     (let (r, w) = k_pipe k (trace st) (fds st); st1 = emit (Sys Pipe_sys) st in
      ((r, w), st1\<lparr>fds := (fds st1)(r \<mapsto> Pipe_read, w \<mapsto> Pipe_write)\<rparr>))"

definition chmod :: "kernel \<Rightarrow> string \<Rightarrow> int \<Rightarrow> smash \<Rightarrow> int \<times> smash" where
  "chmod k f m st = (k_chmod k (trace st) f m, emit (Sys (Chmod f m)) st)"

subsection \<open>Signals\<close>

definition ctrlCHandler :: "kernel \<Rightarrow> smash \<Rightarrow> smash" where
  "ctrlCHandler k st =
     (let st1 = cout (''smash: got ctrl-C'' @ LF) st in
      if foreground_command_pid st1 = pid st1 then st1
      else let (res, st2) = kill k (foreground_command_pid st1) SIGKILL st1 in
        if res = - 1 then perror (''smash error: kill failed'' @ LF) st2
        else let st3 = cout (''smash: process '' @ fmt_d (foreground_command_pid st2) @ '' was killed'' @ LF) st2 in
          st3\<lparr>foreground_command_pid := pid st3\<rparr>)"

text \<open>
  \<open>main\<close> installs the handler. A signal takes effect while the shell waits, in \<open>getline\<close> or in a \<open>waitpid\<close> for a
  foreground process, which goes on waiting afterwards: \<open>k_sigint\<close> is the number of signals that arrive during the wait.
\<close>

definition interrupts :: "kernel \<Rightarrow> smash \<Rightarrow> smash" where
  "interrupts k st = (ctrlCHandler k ^^ k_sigint k (trace st)) st"

definition wait_fg :: "kernel \<Rightarrow> int \<Rightarrow> smash \<Rightarrow> (int \<times> bool) \<times> smash" where
  "wait_fg k p st = waitpid k p True (interrupts k st)"

subsection \<open>Numbers\<close>

text \<open>\<open>std::stoi(s, &pos)\<close>: the value and the number of characters used; \<^const>\<open>None\<close> when it throws.\<close>

definition stoi :: "string \<Rightarrow> (int \<times> nat) option" where
  "stoi s =
     (let t = dropWhile isspace s;
          neg = (t \<noteq> [] \<and> hd t = CHR ''-'');
          u = (if t \<noteq> [] \<and> (hd t = CHR ''-'' \<or> hd t = CHR ''+'') then tl t else t);
          ds = takeWhile is_digit u;
          v = (if neg then - atoi_digits 0 ds else atoi_digits 0 ds) in
      if ds = [] \<or> \<not> in_int v then None else Some (v, length s - length (dropWhile is_digit u)))"

subsection \<open>Built-in commands\<close>

definition Chprompt_execute :: "Command \<Rightarrow> smash \<Rightarrow> outcome" where
  "Chprompt_execute c st =
     (if num_of_params c = 1 then Returns (st\<lparr>prompt := ''smash> ''\<rparr>)
      else case param (parametrs c) 1 of
        None \<Rightarrow> Undefined st
      | Some s \<Rightarrow> Returns (st\<lparr>prompt := s @ ''> ''\<rparr>))"

definition ShowPidCommand_execute :: "smash \<Rightarrow> outcome" where
  "ShowPidCommand_execute st = Returns (cout (''smash pid is '' @ fmt_d (pid st) @ LF) st)"

definition GetCurrDirCommand_execute :: "kernel \<Rightarrow> smash \<Rightarrow> outcome" where
  "GetCurrDirCommand_execute k st =
     (let (ok, st1) = malloc k st in
      if \<not> ok then Returns (perror ''smash error: malloc failed'' st1)
      else let (buffer, st2) = getcwd k COMMAND_ARGS_MAX_LENGTH st1 in
        case buffer of
          None \<Rightarrow> Returns (perror ''smash error: getcwd failed'' st2)
        | Some s \<Rightarrow> Returns (cout (s @ LF) st2))"

text \<open>The part of \<open>cd\<close> that both cases share, from the allocation of \<open>buffer\<close> on.\<close>

definition cd_to :: "kernel \<Rightarrow> string \<Rightarrow> smash \<Rightarrow> outcome" where
  "cd_to k dir st =
     (let (ok, st1) = malloc k st in
      if \<not> ok then Returns (perror ''smash error: malloc failed'' st1)
      else let (buffer, st2) = getcwd k COMMAND_ARGS_MAX_LENGTH st1 in
        case buffer of
          None \<Rightarrow> Returns (perror ''smash error: getcwd failed'' st2)
        | Some wd \<Rightarrow>
            let (res, st3) = chdir k dir st2 in
            if res = - 1 then Returns (perror ''smash error: chdir failed'' st3)
            else Returns (st3\<lparr>last_working_directory := wd\<rparr>))"

definition ChangeDirCommand_execute :: "kernel \<Rightarrow> Command \<Rightarrow> smash \<Rightarrow> outcome" where
  "ChangeDirCommand_execute k c st =
     (if num_of_params c > 2 then Returns (cerr (''smash error: cd: too many arguments'' @ LF) st)
      else if num_of_params c = 1 then Returns st
      else case param (parametrs c) 1 of
        None \<Rightarrow> Undefined st
      | Some new_wd \<Rightarrow>
          if new_wd = ''-'' then
            (if last_working_directory st = NO_DIR then Returns (cerr (''smash error: cd: OLDPWD not set'' @ LF) st)
             else let (cwd_pointer, st1) = getcwd k COMMAND_ARGS_MAX_LENGTH st in
               if cwd_pointer = None then Returns (perror ''smash error: getcwd failed'' st1)
               else cd_to k (last_working_directory st1) st1)
          else let (cwd_pointer, st1) = getcwd k COMMAND_ARGS_MAX_LENGTH st in
            if cwd_pointer = None then Returns (perror ''smash error: getcwd failed'' st1)
            else cd_to k new_wd st1)"

definition JobsCommand_execute :: "kernel \<Rightarrow> smash \<Rightarrow> outcome" where
  "JobsCommand_execute k st = Returns (printJobsList k st)"

definition QuitCommand_execute :: "kernel \<Rightarrow> Command \<Rightarrow> smash \<Rightarrow> outcome" where
  "QuitCommand_execute k c st =
     (let st1 = (if num_of_params c \<ge> 2 \<and> param (parametrs c) 1 = Some ''kill''
                 then killAllJobs k (cout (''smash: sending SIGKILL signal to '' @ fmt_d (cur_size (jobs st)) @ '' jobs:'' @ LF) st)
                 else st) in
      if delete_Command c = None then Undefined st1 else Exits 0 st1)"

text \<open>Waiting for a job in the foreground, as both cases of \<open>fg\<close> do.\<close>

definition fg_job :: "kernel \<Rightarrow> JobEntry \<Rightarrow> int \<Rightarrow> smash \<Rightarrow> outcome" where
  "fg_job k cur_job job_id st =
     (let st1 = cout (job_cmd cur_job @ '' '' @ fmt_d (jobPid cur_job) @ LF) st;
          st2 = st1\<lparr>foreground_command_pid := jobPid cur_job\<rparr>;
          ((waitRes, ended), st3) = wait_fg k (jobPid cur_job) st2;
          st4 = st3\<lparr>foreground_command_pid := pid st3\<rparr> in
      if waitRes = - 1 then Returns (perror ''smash error: waitpid failed'' st4)
      else if ended then Returns (st4\<lparr>jobs := removeJobById (jobs st4) job_id\<rparr>)
      else Returns st4)"

definition ForegroundCommand_execute :: "kernel \<Rightarrow> Command \<Rightarrow> smash \<Rightarrow> outcome" where
  "ForegroundCommand_execute k c st =
     (let st1 = removeFinishedJobs k st;
          no_job = (\<lambda>i. Returns (cerr (''smash error: fg: job-id '' @ fmt_d i @ '' does not exist'' @ LF) st1));
          invalid = Returns (cerr (''smash error: fg: invalid arguments'' @ LF) st1) in
      if num_of_params c = 1 then
        (let (job_id, cur_job) = getLastJob (jobs st1) in
         case cur_job of
           None \<Rightarrow> Returns (cerr (''smash error: fg: jobs list is empty'' @ LF) st1)
         | Some j \<Rightarrow> fg_job k j job_id st1)
      else case param (parametrs c) 1 of
        None \<Rightarrow> Undefined st1
      | Some s \<Rightarrow>
          (case stoi s of
             None \<Rightarrow> invalid
           | Some (job_id, pos) \<Rightarrow>
               if pos \<noteq> length s then invalid
               else if job_id < 1 \<or> job_id > MAX_JOBS_NUM then no_job job_id
               else if job_id > max_index (jobs st1) then no_job job_id
               else case getJobById (jobs st1) job_id of
                 None \<Rightarrow> no_job job_id
               | Some j \<Rightarrow> if num_of_params c > 2 then invalid else fg_job k j job_id st1))"

definition KillCommand_execute :: "kernel \<Rightarrow> Command \<Rightarrow> smash \<Rightarrow> outcome" where
  "KillCommand_execute k c st =
     (let invalid = Returns (cerr (''smash error: kill: invalid arguments'' @ LF) st) in
      case param (parametrs c) 2 of
        None \<Rightarrow> Undefined st
      | Some s2 \<Rightarrow>
          (case stoi s2 of
             None \<Rightarrow> invalid
           | Some (param_2, _) \<Rightarrow>
               (case getJobById (jobs st) param_2 of
                  None \<Rightarrow> Returns (cerr (''smash error: kill: job-id '' @ s2 @ '' does not exist'' @ LF) st)
                | Some j \<Rightarrow>
                    if num_of_params c < 2 then invalid
                    else case param (parametrs c) 1 of
                      None \<Rightarrow> Undefined st
                    | Some s1 \<Rightarrow>
                        (case stoi s1 of
                           None \<Rightarrow> invalid
                         | Some (neg_sig, pos) \<Rightarrow>
                             if pos \<noteq> length s1 then invalid
                             else if neg_sig \<ge> 0 then invalid
                             else case cint (- neg_sig) of
                               None \<Rightarrow> Undefined st
                             | Some sig \<Rightarrow>
                                 if num_of_params c \<noteq> 3 \<or> sig < 0 \<or> sig > 31 then invalid
                                 else let (res, st1) = kill k (jobPid j) sig st in
                                   if res = - 1 then Returns (perror ''smash error: kill failed'' st1)
                                   else Returns (cout (''signal number '' @ fmt_d sig @ '' was sent to pid ''
                                     @ fmt_d (jobPid j) @ LF) st1)))))"

text \<open>The conversion in \<open>chmod\<close>, with the division of C.\<close>

function octal_loop :: "int \<Rightarrow> int \<Rightarrow> int \<Rightarrow> int" where
  "octal_loop octal_rep pow decimal_rep =
     (if octal_rep = 0 then decimal_rep
      else octal_loop (octal_rep sdiv 8) (pow * 8) (decimal_rep + (octal_rep smod 10) * pow))"
  by auto
termination
proof (relation "measure (\<lambda>(n, _, _). nat \<bar>n\<bar>)", goal_cases)
  case (2 n p d)
  have "\<bar>n\<bar> div 8 < \<bar>n\<bar>" using 2 by simp
  then show ?case using 2 by (simp add: signed_divide_int_def abs_mult)
qed simp

declare octal_loop.simps [simp del]

definition ChmodCommand_execute :: "kernel \<Rightarrow> Command \<Rightarrow> smash \<Rightarrow> outcome" where
  "ChmodCommand_execute k c st =
     (let invalid = Returns (cerr (''smash error: chmod: invalid arguments'' @ LF) st) in
      if num_of_params c \<noteq> 3 then invalid
      else case (param (parametrs c) 1, param (parametrs c) 2) of
        (Some s1, Some file_path) \<Rightarrow>
          (case stoi s1 of
             None \<Rightarrow> invalid
           | Some (octal_rep, pos) \<Rightarrow>
               if pos \<noteq> num_of_params c then invalid
               else let (res, st1) = chmod k file_path (octal_loop octal_rep 1 0) st in
                 if res = - 1 then Returns (perror ''smash error: chmod failed'' st1) else Returns st1)
      | _ \<Rightarrow> Undefined st)"

subsection \<open>External commands\<close>

text \<open>What the forked child does: it replaces itself by a program with these arguments.\<close>

datatype child = Execv string "string list" | Execvp string "string list" | Child_undefined

definition external_child :: "Command \<Rightarrow> bool \<Rightarrow> child" where
  "external_child c isComplex =
     (if isComplex then
        (if length (cmd_line c) > COMMAND_ARGS_MAX_LENGTH then Child_undefined
         else Execv ''/bin/bash'' [''/bin/bash'', ''-c'', cmd_line c])
      else case param (parametrs c) 0 of
        None \<Rightarrow> Child_undefined
      | Some p \<Rightarrow>
          (let argv = map (param (parametrs c)) [1..<num_of_params c] in
           if None \<in> set argv then Child_undefined else Execvp p (p # map the argv)))"

definition ExternalCommand_execute :: "kernel \<Rightarrow> Command \<Rightarrow> bool \<Rightarrow> smash \<Rightarrow> outcome" where
  "ExternalCommand_execute k c isBackground st =
     (let (sonPid, st1) = fork k st in
      if sonPid = - 1 then Returns (perror ''smash error: fork failed'' st1)
      else if isBackground then Returns (addJob k (Some (cmd_line c)) sonPid st1)
      else let st2 = st1\<lparr>foreground_command_pid := sonPid\<rparr>;
               ((res, _), st3) = wait_fg k sonPid st2;
               st4 = st3\<lparr>foreground_command_pid := pid st3\<rparr> in
        if res = - 1 then Returns (perror ''smash error: waitpid failed'' st4) else Returns st4)"

subsection \<open>Pipes\<close>

text \<open>\<open>PipeCommand::execute\<close> in the shell itself.\<close>

definition PipeCommand_execute :: "kernel \<Rightarrow> smash \<Rightarrow> outcome" where
  "PipeCommand_execute k st =
     (let ((rd_end, wr_end), st1) = pipe k st;
          (firstSonPid, st2) = fork k st1;
          (_, st3) = wait_fg k firstSonPid st2;
          (secondSonPid, st4) = fork k st3;
          (_, st5) = close k rd_end st4;
          (_, st6) = close k wr_end st5;
          (_, st7) = wait_fg k secondSonPid st6 in
      Returns st7)"

subsection \<open>Redirection and the dispatcher\<close>

text \<open>\<open>RedirectionCommand::execute\<close> up to the call of \<open>executeCommand\<close>: the saved descriptor.\<close>

definition redirect_start :: "kernel \<Rightarrow> string \<Rightarrow> bool \<Rightarrow> smash \<Rightarrow> int option \<times> smash" where
  "redirect_start k file app st =
     (let (fdt_file, st1) = open_file k file app st in
      if fdt_file = - 1 then (None, perror ''smash error: open failed'' st1)
      else let (og_stdout_fdt, st2) = dup k 1 st1 in
        if og_stdout_fdt = - 1 then
          (let st3 = perror ''smash error: dup failed'' st2; (res, st4) = close k fdt_file st3 in
           (None, if res = - 1 then perror ''smash error: close failed'' st4 else st4))
        else let (res, st3) = dup2 k fdt_file 1 st2 in
          if res = - 1 then (None, perror ''smash error: dup2 failed'' st3)
          else let (res, st4) = close k fdt_file st3 in
            if res = - 1 then (None, perror ''smash error: close failed'' st4)
            else (Some og_stdout_fdt, st4))"

definition redirect_end :: "kernel \<Rightarrow> int \<Rightarrow> smash \<Rightarrow> outcome" where
  "redirect_end k og_stdout_fdt st =
     (let (res, st1) = dup2 k og_stdout_fdt 1 st in
      if res = - 1 then Returns (perror ''smash error: dup2 failed'' st1) else Returns st1)"

text \<open>\<open>execute\<close> of every class but \<open>RedirectionCommand\<close>.\<close>

fun execute_simple :: "kernel \<Rightarrow> cmd \<Rightarrow> smash \<Rightarrow> outcome" where
  "execute_simple k (Chprompt c) st = Chprompt_execute c st"
| "execute_simple k (ShowPidCommand c) st = ShowPidCommand_execute st"
| "execute_simple k (GetCurrDirCommand c) st = GetCurrDirCommand_execute k st"
| "execute_simple k (ChangeDirCommand c) st = ChangeDirCommand_execute k c st"
| "execute_simple k (JobsCommand c) st = JobsCommand_execute k st"
| "execute_simple k (ForegroundCommand c) st = ForegroundCommand_execute k c st"
| "execute_simple k (QuitCommand c) st = QuitCommand_execute k c st"
| "execute_simple k (KillCommand c) st = KillCommand_execute k c st"
| "execute_simple k (ExternalCommand c bg cx) st = ExternalCommand_execute k c bg st"
| "execute_simple k (Pipe p) st = PipeCommand_execute k st"
| "execute_simple k (Redirection r) st = Undefined st"

function executeCommand :: "kernel \<Rightarrow> string \<Rightarrow> smash \<Rightarrow> outcome" where
  "executeCommand k line st =
     (if find_first_not_of WHITESPACE line = None then Returns st
      else let st1 = removeFinishedJobs k st in
        case CreateCommand line of
          None \<Rightarrow> Undefined st1
        | Some (Redirection r) \<Rightarrow>
            (case redirect_start k (file_name r) (isAppend r) st1 of
               (None, st2) \<Rightarrow> Returns st2
             | (Some og, st2) \<Rightarrow> and_then (executeCommand k (cmd_line r) st2) (redirect_end k og))
        | Some c \<Rightarrow> execute_simple k c st1)"
  by auto
termination
  by (relation "measure (\<lambda>(k, line, st). length line)") (auto dest: redirection_shorter(1))

declare executeCommand.simps [simp del]

definition execute :: "kernel \<Rightarrow> cmd \<Rightarrow> smash \<Rightarrow> outcome" where
  "execute k c st =
     (case c of
        Redirection r \<Rightarrow>
          (case redirect_start k (file_name r) (isAppend r) st of
             (None, st2) \<Rightarrow> Returns st2
           | (Some og, st2) \<Rightarrow> and_then (executeCommand k (cmd_line r) st2) (redirect_end k og))
      | _ \<Rightarrow> execute_simple k c st)"

text \<open>
  The children of a pipe: connect one end of it to the descriptor \<open>t\<close>, close both ends and execute the command. When one of the
  calls fails, \<open>execute\<close> returns in the child, which goes on as a second shell. After the
  command the child deletes it and exits. \<open>setpgrp\<close>, which only keeps the signals of the terminal from the child, is
  left out.
\<close>

definition command_of :: "cmd \<Rightarrow> Command" where
  "command_of c =
     (case c of Chprompt x \<Rightarrow> x | ShowPidCommand x \<Rightarrow> x | GetCurrDirCommand x \<Rightarrow> x | ChangeDirCommand x \<Rightarrow> x
      | JobsCommand x \<Rightarrow> x | ForegroundCommand x \<Rightarrow> x | QuitCommand x \<Rightarrow> x | KillCommand x \<Rightarrow> x
      | ExternalCommand x bg cx \<Rightarrow> x
      | Redirection r \<Rightarrow> \<lparr>cmd_line = cmd_line r, parametrs = parametrs r, num_of_params = num_of_params r\<rparr>
      | Pipe p \<Rightarrow> \<lparr>cmd_line = cmd_line p, parametrs = parametrs p, num_of_params = num_of_params p\<rparr>)"

definition pipe_child :: "kernel \<Rightarrow> int \<times> int \<Rightarrow> int \<Rightarrow> int \<Rightarrow> string \<Rightarrow> smash \<Rightarrow> outcome" where
  "pipe_child k fd_arr from t line st =
     (let (res1, st1) = dup2 k from t st in
      if res1 = - 1 then Returns (perror ''smash error: dup2 failed'' st1)
      else let (res1, st2) = close k (fst fd_arr) st1 in
        if res1 = - 1 then Returns (perror ''smash error: close failed'' st2)
        else let (res1, st3) = close k (snd fd_arr) st2 in
          if res1 = - 1 then Returns (perror ''smash error: close failed'' st3)
          else case CreateCommand line of
            None \<Rightarrow> Undefined st3
          | Some c \<Rightarrow>
              and_then (execute k c st3)
                (\<lambda>st4. if delete_Command (command_of c) = None then Undefined st4 else Exits 0 st4))"

definition pipe_first_child :: "kernel \<Rightarrow> PipeCommand \<Rightarrow> int \<times> int \<Rightarrow> smash \<Rightarrow> outcome" where
  "pipe_first_child k p fd_arr st =
     pipe_child k fd_arr (snd fd_arr) (if isPipeWithAmpersand p then 2 else 1) (firstCommand p) st"

definition pipe_second_child :: "kernel \<Rightarrow> PipeCommand \<Rightarrow> int \<times> int \<Rightarrow> smash \<Rightarrow> outcome" where
  "pipe_second_child k p fd_arr st = pipe_child k fd_arr (fst fd_arr) 0 (secondCommand p) st"

subsection \<open>The main loop\<close>

text \<open>
  \<open>n\<close> rounds of the loop of \<open>main\<close>, with the lines of the input. At the end of the input \<open>getline\<close> leaves the
  line empty.
\<close>

fun main_rounds :: "kernel \<Rightarrow> nat \<Rightarrow> string list \<Rightarrow> smash \<Rightarrow> outcome" where
  "main_rounds k 0 input st = Returns st"
| "main_rounds k (Suc n) input st =
     (let st1 = interrupts k (cout (prompt st) st); line = (case input of [] \<Rightarrow> [] | l # _ \<Rightarrow> l) in
      and_then (executeCommand k (cstr line) st1) (main_rounds k n (tl input)))"

subsection \<open>Interrupts\<close>

text \<open>The output of the handler.\<close>

definition got_ctrl_c :: "smash \<Rightarrow> event" where
  "got_ctrl_c st = Out (fds st 1) (''smash: got ctrl-C'' @ LF)"

definition was_killed :: "smash \<Rightarrow> int \<Rightarrow> event" where
  "was_killed st p = Out (fds st 1) (''smash: process '' @ fmt_d p @ '' was killed'' @ LF)"

lemma ctrlCHandler_keeps [simp]:
  "pid (ctrlCHandler k st) = pid st" "jobs (ctrlCHandler k st) = jobs st" "fds (ctrlCHandler k st) = fds st"
  by (simp_all add: ctrlCHandler_def kill_def out_defs Let_def)

lemma ctrlCHandlers_keep [simp]:
  "pid ((ctrlCHandler k ^^ n) st) = pid st" "jobs ((ctrlCHandler k ^^ n) st) = jobs st"
  "fds ((ctrlCHandler k ^^ n) st) = fds st"
  by (induction n) simp_all

lemma interrupts_keeps [simp]:
  "pid (interrupts k st) = pid st" "jobs (interrupts k st) = jobs st" "fds (interrupts k st) = fds st"
  by (simp_all add: interrupts_def)

text \<open>While the shell is in the foreground, the handler only prints.\<close>

lemma ctrlCHandlers_idle:
  "foreground_command_pid st = pid st \<Longrightarrow>
   (ctrlCHandler k ^^ n) st = st\<lparr>trace := trace st @ replicate n (got_ctrl_c st)\<rparr>"
proof (induction n arbitrary: st)
  case (Suc n)
  have "ctrlCHandler k st = st\<lparr>trace := trace st @ [got_ctrl_c st]\<rparr>"
    using Suc.prems by (simp add: ctrlCHandler_def out_defs emit_def got_ctrl_c_def Let_def)
  then show ?case using Suc.IH [of "st\<lparr>trace := trace st @ [got_ctrl_c st]\<rparr>"] Suc.prems
    by (simp add: funpow_Suc_right got_ctrl_c_def del: funpow.simps)
qed simp

text \<open>
  Otherwise the first signal kills the foreground process and makes the shell the foreground process, so that the
  others only print.
\<close>

lemma interrupts_kill:
  assumes "k_sigint k (trace st) = Suc n" "foreground_command_pid st = q" "q \<noteq> pid st"
    "k_kill k (trace st @ [got_ctrl_c st]) q SIGKILL \<noteq> - 1"
  shows "interrupts k st = st\<lparr>foreground_command_pid := pid st, trace := trace st
    @ [got_ctrl_c st, Sys (Kill q SIGKILL), was_killed st q] @ replicate n (got_ctrl_c st)\<rparr>"
proof -
  let ?st = "st\<lparr>foreground_command_pid := pid st, trace := trace st
    @ [got_ctrl_c st, Sys (Kill q SIGKILL), was_killed st q]\<rparr>"
  have "ctrlCHandler k st = ?st" using assms(2-4)
    by (simp add: ctrlCHandler_def kill_def out_defs emit_def got_ctrl_c_def was_killed_def Let_def)
  then show ?thesis using ctrlCHandlers_idle [of ?st n k] assms(1)
    by (simp add: interrupts_def funpow_Suc_right got_ctrl_c_def del: funpow.simps)
qed

lemma interrupts_trace: "\<exists>es. trace (interrupts k st) = trace st @ es"
proof -
  have "\<exists>es. trace ((ctrlCHandler k ^^ n) st) = trace st @ es" for n
  proof (induction n)
    case (Suc n)
    then show ?case by (auto simp: ctrlCHandler_def kill_def out_defs emit_def Let_def)
  qed simp
  then show ?thesis by (simp add: interrupts_def)
qed

lemma interrupts_none: "k_sigint k (trace st) = 0 \<Longrightarrow> interrupts k st = st"
  by (simp add: interrupts_def)

lemma interrupts_idle:
  "foreground_command_pid st = pid st \<Longrightarrow>
   interrupts k st = st\<lparr>trace := trace st @ replicate (k_sigint k (trace st)) (got_ctrl_c st)\<rparr>"
  unfolding interrupts_def by (rule ctrlCHandlers_idle)

subsection \<open>Well-formed states\<close>

text \<open>Between two commands the shell itself is in the foreground and the job list is in order.\<close>

definition well :: "int \<Rightarrow> smash \<Rightarrow> bool" where
  "well p st \<longleftrightarrow> pid st = p \<and> foreground_command_pid st = p \<and> jobs_inv (jobs st)"

lemma well_simps [simp]:
  "well p (emit e st) = well p st" "well p (cout s st) = well p st" "well p (cerr s st) = well p st"
  "well p (perror s st) = well p st" "well p (st\<lparr>fds := d\<rparr>) = well p st" "well p (st\<lparr>prompt := s\<rparr>) = well p st"
  "well p (st\<lparr>last_working_directory := s\<rparr>) = well p st"
  by (simp_all add: well_def out_defs)

lemma well_same: "same_shell st st' \<Longrightarrow> jobs_inv (jobs st') \<Longrightarrow> well p st \<Longrightarrow> well p st'"
  by (simp add: well_def same_shell_def)

lemma well_interrupts: "well p st \<Longrightarrow> well p (interrupts k st)"
  using interrupts_idle [of st k] by (simp add: well_def)

lemma well_jobs:
  assumes "well p st"
  shows "well p (removeFinishedJobs k st)" "well p (printJobsList k st)" "well p (addJob k c q st)" "well p (killAllJobs k st)"
proof -
  have inv: "jobs_inv (jobs st)" using assms by (simp add: well_def)
  show "well p (removeFinishedJobs k st)"
    using well_same [OF removeFinishedJobs_keeps removeFinishedJobs_inv [OF inv] assms] .
  show "well p (printJobsList k st)"
    using well_same [OF printJobsList_keeps(1) _ assms] removeFinishedJobs_inv [OF inv] by (simp add: printJobsList_keeps(2))
  show "well p (addJob k c q st)" using well_same [OF addJob_keeps addJob_inv [OF inv] assms] .
  show "well p (killAllJobs k st)" using well_same [OF killAllJobs_keeps killAllJobs_inv [OF inv] assms] .
qed

lemmas sys_defs = fork_def chdir_def getcwd_def malloc_def open_file_def dup_def dup2_def close_def pipe_def
  chmod_def waitpid_def kill_def wait_fg_def

lemma well_cd_to: "well p st \<Longrightarrow> well p (final_state (cd_to k d st))"
  by (simp add: cd_to_def sys_defs Let_def split: option.splits)

lemma well_cd: "well p st \<Longrightarrow> well p (final_state (ChangeDirCommand_execute k c st))"
  by (simp add: ChangeDirCommand_execute_def sys_defs Let_def well_cd_to split: option.splits)

lemma well_fg_job:
  assumes "well p st" shows "well p (final_state (fg_job k j i st))"
proof -
  have "jobs_inv (removeJobById (jobs st) i)" using assms removeJobById_inv by (simp add: well_def)
  then show ?thesis using assms
    by (auto simp: fg_job_def sys_defs out_defs Let_def well_def split: prod.splits)
qed

text \<open>
  The job \<open>q\<close> in the foreground: \<open>ints\<close> is what the handler does during the wait. When \<open>kill\<close> succeeds, the job is killed
  once, however many signals arrive.
\<close>

definition killed_once :: "kernel \<Rightarrow> smash \<Rightarrow> int \<Rightarrow> event list \<Rightarrow> event list \<Rightarrow> bool" where
  "killed_once k st q tr ints \<longleftrightarrow>
     (k_sigint k tr = 0 \<longrightarrow> ints = [])
     \<and> (\<forall>n. k_sigint k tr = Suc n \<and> q \<noteq> pid st \<and> k_kill k (tr @ [got_ctrl_c st]) q SIGKILL \<noteq> - 1 \<longrightarrow>
          ints = [got_ctrl_c st, Sys (Kill q SIGKILL), was_killed st q] @ replicate n (got_ctrl_c st))"

lemma killed_once_cong: "fds st = fds st' \<Longrightarrow> pid st = pid st' \<Longrightarrow> killed_once k st q tr ints = killed_once k st' q tr ints"
  by (simp add: killed_once_def got_ctrl_c_def was_killed_def)

lemma interrupts_killed_once:
  assumes "trace st = tr" "foreground_command_pid st = q"
  obtains ints where "trace (interrupts k st) = tr @ ints" "killed_once k st q tr ints"
proof -
  obtain ints where ints: "trace (interrupts k st) = tr @ ints" using interrupts_trace [of k st] assms(1) by auto
  have "killed_once k st q tr ints" unfolding killed_once_def
    using ints interrupts_none [of k st] interrupts_kill [of k st _ q] assms by auto
  then show thesis using that ints by blast
qed

lemma fg_job_interrupted:
  assumes "well p st" "tr = trace st @ [Out (fds st 1) (job_cmd j @ '' '' @ fmt_d (jobPid j) @ LF)]"
  obtains st' ints r e where "fg_job k j i st = Returns st'" "foreground_command_pid st' = p"
    "killed_once k st (jobPid j) tr ints" "k_waitpid k (tr @ ints) (jobPid j) True = (r, e)"
    "trace st' = tr @ ints @ [Sys (Waitpid (jobPid j) True)] @ (if r = - 1 then [Perror ''smash error: waitpid failed''] else [])"
    "jobs st' = (if r \<noteq> - 1 \<and> e then removeJobById (jobs st) i else jobs st)"
proof -
  let ?st2 = "st\<lparr>trace := tr, foreground_command_pid := jobPid j\<rparr>"
  obtain ints where ints: "trace (interrupts k ?st2) = tr @ ints" "killed_once k ?st2 (jobPid j) tr ints"
    using interrupts_killed_once [of ?st2 tr "jobPid j" k] by auto
  have ko: "killed_once k st (jobPid j) tr ints" using ints(2) killed_once_cong [of ?st2 st] by simp
  obtain r e where r: "k_waitpid k (tr @ ints) (jobPid j) True = (r, e)" by fastforce
  let ?st4 = "(emit (Sys (Waitpid (jobPid j) True)) (interrupts k ?st2))\<lparr>foreground_command_pid := p\<rparr>"
  have run: "fg_job k j i st = Returns (if r = - 1 then perror ''smash error: waitpid failed'' ?st4
      else if e then ?st4\<lparr>jobs := removeJobById (jobs st) i\<rparr> else ?st4)"
    using assms ints(1) r by (simp add: fg_job_def wait_fg_def waitpid_def out_defs emit_def Let_def well_def)
  show thesis by (rule that [OF run _ ko r]) (use ints(1) in \<open>auto simp: out_defs\<close>)
qed

lemma well_fg: "well p st \<Longrightarrow> well p (final_state (ForegroundCommand_execute k c st))"
  by (simp add: ForegroundCommand_execute_def Let_def well_fg_job well_jobs split: option.splits prod.splits)

lemma well_kill: "well p st \<Longrightarrow> well p (final_state (KillCommand_execute k c st))"
  by (simp add: KillCommand_execute_def sys_defs Let_def split: option.splits prod.splits)

lemma well_external:
  assumes "well p st" shows "well p (final_state (ExternalCommand_execute k c bg st))"
proof -
  have "well p (addJob k (Some (cmd_line c)) q (emit e st))" for q e using assms by (simp add: well_jobs)
  then show ?thesis using assms
    by (auto simp: ExternalCommand_execute_def sys_defs Let_def well_def out_defs split: prod.splits)
qed

lemma well_pipe: "well p st \<Longrightarrow> well p (final_state (PipeCommand_execute k st))"
  by (simp add: PipeCommand_execute_def sys_defs Let_def well_interrupts case_prod_beta)

lemma well_simple: "well p st \<Longrightarrow> well p (final_state (execute_simple k c st))"
  by (cases c)
    (simp_all add: well_cd well_fg well_kill well_external well_pipe well_jobs Chprompt_execute_def ShowPidCommand_execute_def
      GetCurrDirCommand_execute_def JobsCommand_execute_def QuitCommand_execute_def sys_defs Let_def split: option.splits)

lemma well_redirect:
  "well p st \<Longrightarrow> well p (snd (redirect_start k f app st))"
  "well p st \<Longrightarrow> well p (final_state (redirect_end k og st))"
  by (simp_all add: redirect_start_def redirect_end_def sys_defs Let_def)

lemma final_and_then:
  "well p (final_state o1) \<Longrightarrow> (\<And>st. well p st \<Longrightarrow> well p (final_state (f st))) \<Longrightarrow> well p (final_state (and_then o1 f))"
  by (cases o1) auto

lemma executeCommand_eq:
  "executeCommand k line st =
     (if find_first_not_of WHITESPACE line = None then Returns st
      else case CreateCommand line of
        None \<Rightarrow> Undefined (removeFinishedJobs k st)
      | Some c \<Rightarrow> execute k c (removeFinishedJobs k st))"
  by (subst executeCommand.simps) (auto simp: execute_def Let_def split: option.splits cmd.splits prod.splits)

lemma execute_well:
  assumes "well p st" "\<And>r st. c = Redirection r \<Longrightarrow> well p st \<Longrightarrow> well p (final_state (executeCommand k (cmd_line r) st))"
  shows "well p (final_state (execute k c st))"
proof (cases "\<exists>r. c = Redirection r")
  case True
  then obtain r where r: "c = Redirection r" by blast
  obtain og st2 where s: "redirect_start k (file_name r) (isAppend r) st = (og, st2)" by fastforce
  have w2: "well p st2" using well_redirect(1) [OF assms(1), of k "file_name r" "isAppend r"] s by simp
  have "well p (final_state (and_then (executeCommand k (cmd_line r) st2) (redirect_end k x)))" for x
    using assms(2) [OF r w2] well_redirect(2) by (rule final_and_then)
  then show ?thesis using r s w2 by (cases og) (simp_all add: execute_def)
next
  case False
  then have "execute k c st = execute_simple k c st" by (cases c) (simp_all add: execute_def)
  then show ?thesis using well_simple [OF assms(1)] by simp
qed

lemma executeCommand_well: "well p st \<Longrightarrow> well p (final_state (executeCommand k line st))"
proof (induction "length line" arbitrary: line st rule: less_induct)
  case less
  have w1: "well p (removeFinishedJobs k st)" using well_jobs(1) [OF less.prems] .
  have "well p (final_state (execute k c (removeFinishedJobs k st)))" if "CreateCommand line = Some c" for c
    by (rule execute_well [OF w1]) (use that less.hyps redirection_shorter(1) in blast)
  then show ?case using w1 less.prems unfolding executeCommand_eq [of k line] by (auto split: option.splits)
qed

lemma main_rounds_well: "well p st \<Longrightarrow> well p (final_state (main_rounds k n input st))"
proof (induction n arbitrary: input st)
  case (Suc n)
  have "well p (interrupts k (cout (prompt st) st))" using Suc.prems by (simp add: well_interrupts)
  from executeCommand_well [OF this] Suc.IH show ?case by (auto simp: Let_def intro!: final_and_then)
qed simp

lemma start_well: "well p (mk_SmallShell p d)"
  by (simp add: well_def jobs_inv_init) (simp add: mk_SmallShell_def)

subsection \<open>Descriptors\<close>

text \<open>
  A kernel that lets a process have \<open>lim\<close> descriptors: as long as fewer are open, \<open>open\<close> and \<open>dup\<close> succeed and return a number
  that is not open, and \<open>pipe\<close> two such numbers; \<open>dup2\<close> and \<open>close\<close> do not fail. This is said of
  every table of descriptors, so it goes on holding while descriptors are opened and closed.
\<close>

definition fds_ok :: "kernel \<Rightarrow> nat \<Rightarrow> bool" where
  "fds_ok k lim \<longleftrightarrow>
     (\<forall>tr a b. k_dup2 k tr a b \<noteq> - 1) \<and> (\<forall>tr a. k_close k tr a \<noteq> - 1)
     \<and> (\<forall>tr d. finite (dom d) \<and> card (dom d) < lim \<longrightarrow>
          (\<forall>f app. k_open k tr d f app \<notin> insert (- 1) (dom d)) \<and> (\<forall>a. k_dup k tr d a \<notin> insert (- 1) (dom d)))
     \<and> (\<forall>tr d. finite (dom d) \<and> card (dom d) + 1 < lim \<longrightarrow>
          fst (k_pipe k tr d) \<notin> dom d \<and> snd (k_pipe k tr d) \<notin> dom d)"

lemma fds_okD:
  assumes "fds_ok k lim"
  shows "k_dup2 k tr a b \<noteq> - 1" "k_close k tr a \<noteq> - 1"
    and "finite (dom d) \<Longrightarrow> card (dom d) < lim \<Longrightarrow> k_open k tr d f app \<notin> insert (- 1) (dom d)"
    and "finite (dom d) \<Longrightarrow> card (dom d) < lim \<Longrightarrow> k_dup k tr d a \<notin> insert (- 1) (dom d)"
    and "finite (dom d) \<Longrightarrow> card (dom d) + 1 < lim \<Longrightarrow> fst (k_pipe k tr d) \<notin> dom d \<and> snd (k_pipe k tr d) \<notin> dom d"
  using assms unfolding fds_ok_def by blast+

definition pipes_ok :: "kernel \<Rightarrow> (int \<rightharpoonup> target) \<Rightarrow> bool" where
  "pipes_ok k d \<longleftrightarrow> (\<forall>tr a. k_close k tr a \<noteq> - 1) \<and> (\<forall>tr. fst (k_pipe k tr d) \<notin> dom d \<and> snd (k_pipe k tr d) \<notin> dom d)"

lemma fds_ok_pipes: "fds_ok k lim \<Longrightarrow> finite (dom d) \<Longrightarrow> card (dom d) + 1 < lim \<Longrightarrow> pipes_ok k d"
  unfolding pipes_ok_def using fds_okD(2,5) by blast

lemma fds_jobs [simp]:
  "fds (removeFinishedJobs k st) = fds st" "fds (printJobsList k st) = fds st" "fds (addJob k c q st) = fds st"
  "fds (killAllJobs k st) = fds st"
  using removeFinishedJobs_keeps printJobsList_keeps(1) addJob_keeps killAllJobs_keeps by (auto simp: same_shell_def)

lemma fds_out [simp]: "fds (cout s st) = fds st" "fds (cerr s st) = fds st" "fds (perror s st) = fds st"
  by (simp_all add: out_defs)

lemma fds_cd_to: "fds (final_state (cd_to k d st)) = fds st"
  by (simp add: cd_to_def sys_defs Let_def split: option.splits)

lemma fds_fg_job: "fds (final_state (fg_job k j i st)) = fds st"
  by (simp add: fg_job_def sys_defs Let_def split: prod.splits)

lemma fds_pipe_now:
  assumes "k_pipe k (trace st) (fds st) = (r, w)" "r \<notin> dom (fds st)" "w \<notin> dom (fds st)" "\<And>tr a. k_close k tr a \<noteq> - 1"
  shows "fds (final_state (PipeCommand_execute k st)) = fds st"
  using assms by (auto simp: PipeCommand_execute_def sys_defs Let_def fun_eq_iff)

lemma fds_pipe:
  assumes "pipes_ok k (fds st)" shows "fds (final_state (PipeCommand_execute k st)) = fds st"
  using assms fds_pipe_now [of k st "fst (k_pipe k (trace st) (fds st))" "snd (k_pipe k (trace st) (fds st))"] by (simp add: pipes_ok_def)

lemma fds_fg: "fds (final_state (ForegroundCommand_execute k c st)) = fds st"
  by (simp add: ForegroundCommand_execute_def Let_def fds_fg_job split: option.splits prod.splits)

lemma fds_kill: "fds (final_state (KillCommand_execute k c st)) = fds st"
  by (simp add: KillCommand_execute_def sys_defs Let_def split: option.splits prod.splits)

lemma fds_external: "fds (final_state (ExternalCommand_execute k c bg st)) = fds st"
  by (simp add: ExternalCommand_execute_def sys_defs Let_def split: prod.splits)

lemma fds_simple:
  assumes "pipes_ok k (fds st)"
  shows "fds (final_state (execute_simple k c st)) = fds st"
  using fds_pipe [OF assms]
  by (cases c)
    (simp_all add: fds_cd_to fds_fg fds_kill fds_external Chprompt_execute_def ShowPidCommand_execute_def
      GetCurrDirCommand_execute_def ChangeDirCommand_execute_def JobsCommand_execute_def QuitCommand_execute_def
      sys_defs Let_def split: option.splits)

lemma CreateCommand_redirection: "CreateCommand line = Some (Redirection r) \<Longrightarrow> CHR ''>'' \<in> set line"
  using set_trim [of line] by (auto simp: CreateCommand_def Let_def split: bind_splits if_splits)

lemma CreateCommand_blank: "find_first_not_of WHITESPACE line = None \<Longrightarrow> CreateCommand line = None"
  unfolding blank_iff by (simp add: CreateCommand_def isBackgroundComamnd_def Let_def)

lemma fds_executeCommand:
  assumes "CHR ''>'' \<notin> set line" "pipes_ok k (fds st)"
  shows "fds (final_state (executeCommand k line st)) = fds st"
proof -
  have "execute k c st' = execute_simple k c st'" if "CreateCommand line = Some c" for c st'
    using CreateCommand_redirection [of line] assms(1) that by (cases c) (auto simp: execute_def)
  then show ?thesis using fds_simple [of k "removeFinishedJobs k st"] assms(2)
    by (auto simp: executeCommand_eq split: option.splits)
qed

lemma redirect_start_fds:
  assumes "fds_ok k lim" "finite (dom (fds st))" "card (dom (fds st)) + 1 < lim" "fds st 1 = Some t"
  shows "\<exists>og st'. redirect_start k f app st = (Some og, st') \<and> og \<notin> dom (fds st)
    \<and> fds st' = (fds st)(1 \<mapsto> File f, og \<mapsto> t)"
proof -
  let ?fd = "k_open k (trace st) (fds st) f app"
  let ?d = "(fds st)(?fd \<mapsto> File f)"
  let ?og = "k_dup k (trace st @ [Sys (Open f app)]) ?d 1"
  have fd: "?fd \<noteq> - 1" "?fd \<notin> dom (fds st)" using fds_okD(3) [OF assms(1,2), of "trace st" f app] assms(3) by auto
  then have "card (dom ?d) = card (dom (fds st)) + 1" using assms(2) by simp
  then have og: "?og \<noteq> - 1" "?og \<notin> dom ?d"
    using fds_okD(4) [OF assms(1), of ?d "trace st @ [Sys (Open f app)]" 1] assms(2,3) by auto
  have "1 \<in> dom (fds st)" "1 \<in> dom ?d" "?fd \<in> dom ?d" using assms(4) by auto
  then have one: "?fd \<noteq> 1" "?og \<noteq> 1" "?fd \<noteq> ?og" using fd(2) og(2) by metis+
  have "(?d(?og \<mapsto> t, 1 \<mapsto> File f, ?fd := None)) = (fds st)(1 \<mapsto> File f, ?og \<mapsto> t)"
    using fd og one by (auto simp: fun_eq_iff domIff)
  then show ?thesis using fd og one assms(4) fds_okD(1,2) [OF assms(1)]
    by (simp add: redirect_start_def sys_defs Let_def)
qed

subsection \<open>Single commands\<close>

lemma fg_with_id:
  assumes "num_of_params c = 2" "param (parametrs c) 1 = Some s" "stoi s = Some (i, length s)"
  shows "ForegroundCommand_execute k c st =
    (let st1 = removeFinishedJobs k st;
         err = Returns (cerr (''smash error: fg: job-id '' @ fmt_d i @ '' does not exist'' @ LF) st1) in
     if i < 1 \<or> i > MAX_JOBS_NUM \<or> i > max_index (jobs st1) then err
     else case getJobById (jobs st1) i of None \<Rightarrow> err | Some j \<Rightarrow> fg_job k j i st1)"
  using assms by (simp add: ForegroundCommand_execute_def Let_def split: option.splits)

text \<open>
  A successful \<open>cd\<close> remembers the directory it left, so that the next \<open>cd -\<close> changes back to it: it calls
  \<open>chdir\<close> with what \<open>getcwd\<close> returned before the first change.
\<close>

lemma cd_remembers:
  assumes "cd_to k dir st = Returns st'" "k_malloc k (trace st)"
    "k_getcwd k (trace st @ [Sys Malloc]) COMMAND_ARGS_MAX_LENGTH = Some wd"
    "k_chdir k (trace st @ [Sys Malloc, Sys (Getcwd COMMAND_ARGS_MAX_LENGTH)]) dir \<noteq> - 1"
  shows "last_working_directory st' = wd \<and> trace st' = trace st
    @ [Sys Malloc, Sys (Getcwd COMMAND_ARGS_MAX_LENGTH), Sys (Chdir dir)]"
  using assms by (auto simp: cd_to_def sys_defs Let_def)

lemma cd_dash:
  assumes "num_of_params c = 2" "param (parametrs c) 1 = Some ''-''" "last_working_directory st \<noteq> NO_DIR"
    "k_getcwd k (trace st) COMMAND_ARGS_MAX_LENGTH \<noteq> None"
  shows "ChangeDirCommand_execute k c st
    = cd_to k (last_working_directory st) (emit (Sys (Getcwd COMMAND_ARGS_MAX_LENGTH)) st)"
  using assms by (auto simp: ChangeDirCommand_execute_def sys_defs Let_def)

text \<open>\<open>kill\<close> uses its second parameter before it counts the parameters.\<close>

lemma kill_missing_parameter:
  assumes "mk_Command line = Some c" "num_of_params c < 3"
  shows "KillCommand_execute k c st = Undefined st"
  using param_word(2) [OF assms(1), of 2] assms(2) by (simp add: KillCommand_execute_def Let_def)

text \<open>\<open>quit\<close> always runs the destructor, which reads past the array of parameters.\<close>

lemma quit_undefined: "mk_Command line = Some c \<Longrightarrow> \<exists>st'. QuitCommand_execute k c st = Undefined st'"
  by (simp add: QuitCommand_execute_def delete_Command_undefined Let_def)

text \<open>\<open>chmod 777\<close> would set the mode 1277 (octal); the octal number 777 is 511.\<close>

lemma chmod_777: "octal_loop 777 1 0 = 703"
  by (simp add: octal_loop.simps signed_divide_int_def signed_modulo_int_def)

text \<open>A pipe without a command on one side: its child indexes an empty string.\<close>

lemma pipe_child_blank:
  assumes "find_first_not_of WHITESPACE line = None" "\<And>tr a b. k_dup2 k tr a b \<noteq> - 1" "\<And>tr a. k_close k tr a \<noteq> - 1"
  shows "\<exists>st'. pipe_child k fd_arr from t line st = Undefined st'"
  using assms CreateCommand_blank [OF assms(1)] by (simp add: pipe_child_def sys_defs Let_def)

lemma kill_amp_external:
  "map_option (\<lambda>c. case c of ExternalCommand _ bg _ \<Rightarrow> bg | _ \<Rightarrow> False) (CreateCommand ''kill& -9 1&'') = Some True"
  by code_simp

text \<open>
  Ctrl-C during a foreground command kills it, once. A pipe does not tell the shell which processes are in the
  foreground, and its children are in process groups of their own: ctrl-C does not end it.
\<close>

lemma external_interrupted:
  assumes "well p st" "k_fork k (trace st) = q" "q \<noteq> - 1"
  shows "\<exists>st' ints rest. ExternalCommand_execute k c False st = Returns st' \<and> foreground_command_pid st' = p
    \<and> killed_once k st q (trace st @ [Sys Fork]) ints
    \<and> trace st' = trace st @ [Sys Fork] @ ints @ [Sys (Waitpid q True)] @ rest"
proof -
  let ?st2 = "(emit (Sys Fork) st)\<lparr>foreground_command_pid := q\<rparr>"
  obtain ints where ints: "trace (interrupts k ?st2) = (trace st @ [Sys Fork]) @ ints" "killed_once k ?st2 q (trace st @ [Sys Fork]) ints"
    using interrupts_killed_once [of ?st2 "trace st @ [Sys Fork]" q k] by (auto simp: emit_def)
  have "killed_once k st q (trace st @ [Sys Fork]) ints" using ints(2) killed_once_cong [of ?st2 st] by simp
  moreover obtain r e where "k_waitpid k (trace st @ Sys Fork # ints) q True = (r, e)" by fastforce
  ultimately show ?thesis using ints(1) assms
    by (auto simp: ExternalCommand_execute_def fork_def wait_fg_def waitpid_def out_defs Let_def well_def)
qed

lemma pipe_ignores_ctrl_c:
  assumes "well p st" "PipeCommand_execute k st = Returns st'" "Sys (Kill q sig) \<in> set (trace st')"
  shows "Sys (Kill q sig) \<in> set (trace st)"
proof -
  have i: "set (trace (interrupts k st2)) \<subseteq> insert (got_ctrl_c st2) (set (trace st2))" if "well p st2" for st2
    using interrupts_idle [of st2 k] that by (auto simp: well_def)
  define st1 where "st1 = emit (Sys Fork) (snd (pipe k st))"
  have w1: "well p st1" using assms(1) by (simp add: st1_def pipe_def Let_def case_prod_beta)
  define st2 where "st2 = snd (close k (snd (fst (pipe k st))) (snd (close k (fst (fst (pipe k st)))
    (emit (Sys Fork) (emit (Sys (Waitpid (k_fork k (trace (snd (pipe k st)))) True)) (interrupts k st1))))))"
  have w2: "well p st2" using well_interrupts [OF w1] by (simp add: st2_def close_def Let_def)
  have "trace st' = trace (interrupts k st2) @ [Sys (Waitpid (k_fork k (trace (interrupts k st1)
      @ [Sys (Waitpid (k_fork k (trace (snd (pipe k st)))) True)])) True)]"
    using assms(2) by (auto simp: PipeCommand_execute_def fork_def wait_fg_def waitpid_def Let_def case_prod_beta st1_def st2_def)
  then have "Sys (Kill q sig) \<in> set (trace st2)" using assms(3) i [OF w2] by (auto simp: got_ctrl_c_def)
  then have "Sys (Kill q sig) \<in> set (trace (interrupts k st1))" by (auto simp: st2_def close_def Let_def split: if_splits)
  then have "Sys (Kill q sig) \<in> set (trace st1)" using i [OF w1] by (auto simp: got_ctrl_c_def)
  then show ?thesis by (simp add: st1_def pipe_def Let_def case_prod_beta)
qed

subsection \<open>Properties\<close>

text \<open>
  C37. The state of smash between commands. After any number of rounds of the main loop on any input, for every behaviour of
  the kernel and also when the last round exits or is undefined, the process id is the one it started with, the
  shell itself is in the foreground and the job list satisfies its invariant. So a ctrl-C that arrives
  between commands kills nothing.
\<close>

theorem smash_state_ok:
  "let st = final_state (main_rounds k n input (mk_SmallShell p d)) in
   pid st = p \<and> foreground_command_pid st = p \<and> jobs_inv (jobs st)
   \<and> ctrlCHandler k' st = cout (''smash: got ctrl-C'' @ LF) st"
proof -
  have "well p (final_state (main_rounds k n input (mk_SmallShell p d)))"
    by (rule main_rounds_well [OF start_well])
  then show ?thesis by (simp add: well_def ctrlCHandler_def cout_def Let_def)
qed

text \<open>
  C38. Redirection. When the calls on descriptors succeed (the kernel gives out numbers that are not open, and fewer are open than it allows), the
  command before the arrows runs with descriptor 1 referring to the file, and when it returns, descriptor 1 refers to the old
  output again. The saved descriptor is never closed: afterwards exactly one more descriptor is open than before. As the condition is
  on every table, this can be applied to each redirection in turn, until the limit is reached.
\<close>

theorem redirection_restores_stdout:
  assumes "CreateCommand line = Some (Redirection r)" "fds st 1 = Some t" "fds_ok k lim"
    "finite (dom (fds st))" "card (dom (fds st)) + 2 < lim"
  shows "\<exists>og st2. og \<notin> dom (fds st) \<and> fds st2 = (fds st)(1 \<mapsto> File (file_name r), og \<mapsto> t)
    \<and> (case executeCommand k (cmd_line r) st2 of
         Returns st3 \<Rightarrow> \<exists>st4. executeCommand k line st = Returns st4 \<and> fds st4 = (fds st)(og \<mapsto> t)
           \<and> card (dom (fds st4)) = card (dom (fds st)) + 1
       | out \<Rightarrow> executeCommand k line st = out)"
proof -
  let ?st1 = "removeFinishedJobs k st"
  obtain og st2 where s: "redirect_start k (file_name r) (isAppend r) ?st1 = (Some og, st2)" "og \<notin> dom (fds st)"
      "fds st2 = (fds st)(1 \<mapsto> File (file_name r), og \<mapsto> t)"
    using redirect_start_fds [of k lim ?st1 t "file_name r" "isAppend r"] assms(2-5) by auto
  have og1: "og \<noteq> 1" using assms(2) s(2) by auto
  have D: "dom (fds st2) = insert og (dom (fds st))" unfolding s(3) using assms(2) by auto
  have "pipes_ok k (fds st2)"
    by (rule fds_ok_pipes [OF assms(3)]) (use assms(4,5) s(2) in \<open>simp_all add: D\<close>)
  from fds_executeCommand [OF redirection_shorter(2) [OF assms(1)] this]
  have inner: "fds st3 = fds st2" if "executeCommand k (cmd_line r) st2 = Returns st3" for st3 using that by simp
  have nb: "find_first_not_of WHITESPACE line \<noteq> None"
    using assms(1) CreateCommand_blank [of line] by auto
  have run: "executeCommand k line st = and_then (executeCommand k (cmd_line r) st2) (redirect_end k og)"
    using nb assms(1) s(1) by (auto simp: executeCommand_eq [of k line] execute_def)
  have "\<exists>st4. redirect_end k og st3 = Returns st4 \<and> fds st4 = (fds st)(og \<mapsto> t)
      \<and> card (dom (fds st4)) = card (dom (fds st)) + 1" if "fds st3 = fds st2" for st3
  proof -
    have "redirect_end k og st3 = Returns ((emit (Sys (Dup2 og 1)) st3)\<lparr>fds := (fds st3)(1 := fds st3 og)\<rparr>)"
      using fds_okD(1) [OF assms(3)] by (simp add: redirect_end_def dup2_def Let_def)
    moreover have "(fds st3)(1 := fds st3 og) = (fds st)(og \<mapsto> t)"
      using that s(3) og1 assms(2) by (auto simp: fun_eq_iff)
    moreover have "card (dom ((fds st)(og \<mapsto> t))) = card (dom (fds st)) + 1" using assms(4) s(2) by simp
    ultimately show ?thesis by simp
  qed
  then show ?thesis using s(2,3) run inner
    by (intro exI [of _ og] exI [of _ st2]) (auto split: outcome.splits)
qed

text \<open>
  C39. \<open>fg\<close> with a job id. A listed job with an id of at most 100 is printed, waited for and, if it ended, removed from the list, the others
  staying; afterwards the shell is in the foreground again. When ctrl-C arrives during the wait, the handler sends SIGKILL
  to the job, once, however many signals follow. Any other id gives an error message and nothing else
  changes. This refuses also a job that is listed under an id above 100.
\<close>

theorem fg_correct:
  assumes "well p st" "num_of_params c = 2" "param (parametrs c) 1 = Some s" "stoi s = Some (i, length s)"
  shows "let st1 = removeFinishedJobs k st; jl = jobs st1 in
    case find (\<lambda>j. jobId j = i) (jobs_list jl) of
      None \<Rightarrow> ForegroundCommand_execute k c st
        = Returns (cerr (''smash error: fg: job-id '' @ fmt_d i @ '' does not exist'' @ LF) st1)
    | Some j \<Rightarrow>
        if 100 < i then ForegroundCommand_execute k c st
          = Returns (cerr (''smash error: fg: job-id '' @ fmt_d i @ '' does not exist'' @ LF) st1)
        else \<exists>st' tr ints. ForegroundCommand_execute k c st = Returns st' \<and> foreground_command_pid st' = p
          \<and> tr = trace st1 @ [Out (fds st 1) (job_cmd j @ '' '' @ fmt_d (jobPid j) @ LF)]
          \<and> killed_once k st (jobPid j) tr ints
          \<and> (let (r, ended) = k_waitpid k (tr @ ints) (jobPid j) True in
             trace st' = tr @ ints @ [Sys (Waitpid (jobPid j) True)]
               @ (if r = - 1 then [Perror ''smash error: waitpid failed''] else [])
             \<and> jobs_list (jobs st')
               = (if r \<noteq> - 1 \<and> ended then filter (\<lambda>x. jobId x \<noteq> i) (jobs_list jl) else jobs_list jl))"
proof -
  let ?st1 = "removeFinishedJobs k st"
  let ?line = "\<lambda>j. Out (fds ?st1 1) (job_cmd j @ '' '' @ fmt_d (jobPid j) @ LF)"
  have w: "well p ?st1" using well_jobs(1) [OF assms(1)] .
  then have inv: "jobs_inv (jobs ?st1)" and pid: "pid ?st1 = p" by (simp_all add: well_def)
  note unfold = fg_with_id [OF assms(2-4), of k st]
  show ?thesis
  proof (cases "find (\<lambda>j. jobId j = i) (jobs_list (jobs ?st1))")
    case None
    then show ?thesis using unfold by (simp add: getJobById_def Let_def)
  next
    case (Some j)
    then have j: "j \<in> set (jobs_list (jobs ?st1))" "jobId j = i" "getJobById (jobs ?st1) i = Some j"
      using getJobById_Some [of "jobs ?st1" i j] by (simp_all add: getJobById_def)
    then have range: "1 \<le> i" "i < max_index (jobs ?st1)" using inv by (auto simp: jobs_inv_def)
    have rem: "jobs_list (removeJobById (jobs ?st1) i) = filter (\<lambda>x. jobId x \<noteq> i) (jobs_list (jobs ?st1))"
      using removeJobById_eq [OF inv] j(1,2) by auto
    show ?thesis
    proof (cases "100 < i")
      case True
      then show ?thesis using unfold Some by (simp add: MAX_JOBS_NUM_def Let_def)
    next
      case False
      then have "ForegroundCommand_execute k c st = fg_job k j i ?st1"
        using unfold range j(3) by (simp add: MAX_JOBS_NUM_def Let_def)
      moreover obtain st' ints r e where "fg_job k j i ?st1 = Returns st'" "foreground_command_pid st' = p"
          "killed_once k ?st1 (jobPid j) (trace ?st1 @ [?line j]) ints" "k_waitpid k ((trace ?st1 @ [?line j]) @ ints) (jobPid j) True = (r, e)"
          "trace st' = (trace ?st1 @ [?line j]) @ ints @ [Sys (Waitpid (jobPid j) True)]
            @ (if r = - 1 then [Perror ''smash error: waitpid failed''] else [])"
          "jobs st' = (if r \<noteq> - 1 \<and> e then removeJobById (jobs ?st1) i else jobs ?st1)"
        using fg_job_interrupted [OF w refl] .
      moreover have "killed_once k ?st1 (jobPid j) (trace ?st1 @ [?line j]) ints = killed_once k st (jobPid j) (trace ?st1 @ [?line j]) ints"
        using pid assms(1) by (intro killed_once_cong) (simp_all add: well_def)
      ultimately show ?thesis using rem unfolding Let_def Some option.case if_not_P [OF False]
        by (intro exI [of _ st'] exI [of _ "trace ?st1 @ [?line j]"] exI [of _ ints]) simp
    qed
  qed
qed

text \<open>
  The end of the input. \<open>main\<close> does not look at the result of \<open>getline\<close>: when the input has ended every further round (without a ctrl-C)
  prints the prompt and does nothing else, and the program never terminates.
\<close>

theorem smash_ignores_eof:
  assumes "\<And>tr. k_sigint k tr = 0"
  shows "main_rounds k n [] st
   = Returns (st\<lparr>trace := trace st @ replicate n (Out (fds st 1) (prompt st))\<rparr>)"
proof (induction n arbitrary: st)
  case (Suc n)
  have "executeCommand k (cstr []) st' = Returns st'" for st' by (simp add: executeCommand.simps cstr_def)
  then show ?case using Suc [of "cout (prompt st) st"] assms by (simp add: interrupts_none cout_def emit_def)
qed simp

subsection \<open>Witnesses\<close>

definition ex_shell :: smash where "ex_shell = mk_SmallShell 5 [1 \<mapsto> Terminal]"

definition ex_fds_kernel :: kernel where "ex_fds_kernel = ex_kernel\<lparr>k_dup2 := (\<lambda>_ _ _. 1)\<rparr>"

lemma lowest_free:
  assumes "finite (dom d)" "card (dom d) < 10" shows "lowest d \<notin> insert (- 1) (dom d)"
proof -
  have "\<not> {0..9} \<subseteq> dom d" using assms card_mono [of "dom d" "{0..9 :: int}"] by auto
  then show ?thesis by (auto simp: lowest_def find_None_iff find_Some_iff domIff split: option.splits)
qed

lemma ex_fds_ok: "fds_ok ex_fds_kernel 10"
proof -
  have "lowest (d(lowest d \<mapsto> Pipe_read)) \<notin> dom d" if "finite (dom d)" "card (dom d) + 1 < 10" for d
    using lowest_free [of d] lowest_free [of "d(lowest d \<mapsto> Pipe_read)"] that by auto
  then show ?thesis using lowest_free unfolding fds_ok_def ex_fds_kernel_def ex_kernel_def by auto
qed

lemma ex_redirection:
  "map_option (\<lambda>c. case c of Redirection r \<Rightarrow> (cmd_line r, file_name r, isAppend r) | _ \<Rightarrow> ([], [], False))
     (CreateCommand ''pwd >> f'') = Some (''pwd'', ''f'', True)"
  by code_simp

lemma ex_fg: "map_option (\<lambda>c. (num_of_params c, param (parametrs c) 1)) (mk_Command ''fg 1'') = Some (2, Some ''1'')"
  by code_simp

lemma ex_stoi: "stoi ''1'' = Some (1, 1)"
  by code_simp

lemma ex_pwd: "map_option (\<lambda>c. case c of GetCurrDirCommand x \<Rightarrow> True | _ \<Rightarrow> False) (CreateCommand ''pwd'') = Some True"
  by code_simp

lemma ex_pwd_returns: "\<exists>st'. executeCommand ex_fds_kernel ''pwd'' st = Returns st'"
proof (cases "CreateCommand ''pwd''")
  case (Some c)
  then obtain x where "c = GetCurrDirCommand x" using ex_pwd by (cases c) auto
  moreover have "find_first_not_of WHITESPACE ''pwd'' \<noteq> None" using CreateCommand_blank [of "''pwd''"] Some by auto
  ultimately show ?thesis using Some
    by (auto simp: executeCommand_eq execute_def GetCurrDirCommand_execute_def malloc_def getcwd_def Let_def
        ex_fds_kernel_def ex_kernel_def)
qed (use ex_pwd in simp)

text \<open>Two redirections, one after the other.\<close>

theorem redirection_restores_stdout_witness:
  "\<exists>st4 st5. executeCommand ex_fds_kernel ''pwd >> f'' ex_shell = Returns st4
    \<and> executeCommand ex_fds_kernel ''pwd >> f'' st4 = Returns st5
    \<and> fds st5 1 = Some Terminal \<and> card (dom (fds st5)) = card (dom (fds ex_shell)) + 2"
proof -
  obtain r where r: "CreateCommand ''pwd >> f'' = Some (Redirection r)" "cmd_line r = ''pwd''"
  proof (cases "CreateCommand ''pwd >> f''")
    case (Some c)
    then show ?thesis using ex_redirection that by (cases c) auto
  qed (use ex_redirection in simp)
  have step: "\<exists>st4. executeCommand ex_fds_kernel ''pwd >> f'' st = Returns st4 \<and> fds st4 1 = Some Terminal
      \<and> finite (dom (fds st4)) \<and> card (dom (fds st4)) = card (dom (fds st)) + 1"
    if "fds st 1 = Some Terminal" "finite (dom (fds st))" "card (dom (fds st)) + 2 < 10" for st
  proof -
    from redirection_restores_stdout [OF r(1) that(1) ex_fds_ok that(2,3)] obtain og st2 where
      "og \<notin> dom (fds st)" "case executeCommand ex_fds_kernel ''pwd'' st2 of
         Returns st3 \<Rightarrow> \<exists>st4. executeCommand ex_fds_kernel ''pwd >> f'' st = Returns st4 \<and> fds st4 = (fds st)(og \<mapsto> Terminal)
           \<and> card (dom (fds st4)) = card (dom (fds st)) + 1
       | out \<Rightarrow> executeCommand ex_fds_kernel ''pwd >> f'' st = out"
      unfolding r(2) by blast
    then show ?thesis using ex_pwd_returns [of st2] that by auto
  qed
  have d: "fds ex_shell = [1 \<mapsto> Terminal]" by (simp add: ex_shell_def mk_SmallShell_def)
  then obtain st4 where "executeCommand ex_fds_kernel ''pwd >> f'' ex_shell = Returns st4" "fds st4 1 = Some Terminal"
      "finite (dom (fds st4))" "card (dom (fds st4)) = card (dom (fds ex_shell)) + 1"
    using step [of ex_shell] by auto
  then show ?thesis using step [of st4] d by auto
qed

definition ex_int_kernel :: kernel where "ex_int_kernel = ex_kernel\<lparr>k_sigint := (\<lambda>_. 2)\<rparr>"

theorem fg_correct_witness:
  "\<exists>c. mk_Command ''fg 1'' = Some c \<and>
     (\<exists>st'. ForegroundCommand_execute ex_int_kernel c ex_jobs = Returns st' \<and> foreground_command_pid st' = 5
        \<and> Sys (Kill 10 SIGKILL) \<in> set (trace st') \<and> jobs_list (jobs st') = [])"
proof -
  obtain c where c: "mk_Command ''fg 1'' = Some c" "num_of_params c = 2" "param (parametrs c) 1 = Some ''1''"
    using ex_fg by auto
  have w: "well 5 ex_jobs" unfolding ex_jobs_def by (intro well_jobs start_well)
  then have "pid ex_jobs = 5" by (simp add: well_def)
  moreover have s: "stoi ''1'' = Some (1, length ''1'')" using ex_stoi by simp
  moreover have js: "jobs_list (jobs (removeFinishedJobs ex_int_kernel ex_jobs))
      = [\<lparr>job_cmd = ''a&'', jobPid = 10, jobId = 1, indexInList = 0\<rparr>]"
    by (simp add: removeFinishedJobs_def ex_jobs_list ex_int_kernel_def ex_kernel_def waitpid_def Let_def)
  ultimately show ?thesis using fg_correct [OF w c(2,3) s, of ex_int_kernel] c(1)
    by (auto simp: Let_def ex_int_kernel_def ex_kernel_def killed_once_def)
qed

end
