(* ===== verification/Processes.thy ===== *)
theory Processes
  imports Shell
begin

section \<open>What smash does to other processes (OS_HW1/Commands.cpp)\<close>

text \<open>
  Pipes, \<open>kill\<close> and \<open>quit\<close>: which descriptors the two commands of a pipe run with, in which order the shell
  starts them and waits for them, and which signals are sent to which jobs.
\<close>

subsection \<open>Pipes\<close>

text \<open>The destructor is undefined for every command (it reads past the array of parameters).\<close>

lemma delete_created:
  assumes "CreateCommand line = Some c" shows "delete_Command (command_of c) = None"
proof -
  have d: "delete_Command \<lparr>cmd_line = x, parametrs = parametrs y, num_of_params = n\<rparr> = None"
    if "mk_Command line = Some y" for x y n
    using delete_Command_undefined [OF that] by (simp add: delete_Command_def)
  show ?thesis using assms delete_Command_undefined [of line] d
    by (auto simp: CreateCommand_def mk_RedirectionCommand_def mk_PipeCommand_def Let_def command_of_def
        split: if_splits bind_splits option.splits)
qed

lemma pipe_child_runs:
  assumes "\<And>tr a b. k_dup2 k tr a b \<noteq> - 1" "\<And>tr a. k_close k tr a \<noteq> - 1"
  shows "\<exists>u. fds u = (fds ch)(t := fds ch from, r := None, w := None)
    \<and> (\<forall>c. CreateCommand line = Some c \<longrightarrow> pipe_child k (r, w) from t line ch = and_then (execute k c u) Undefined)"
proof -
  let ?u1 = "(emit (Sys (Dup2 from t)) ch)\<lparr>fds := (fds ch)(t := fds ch from)\<rparr>"
  let ?u2 = "(emit (Sys (Close r)) ?u1)\<lparr>fds := (fds ?u1)(r := None)\<rparr>"
  let ?u3 = "(emit (Sys (Close w)) ?u2)\<lparr>fds := (fds ?u2)(w := None)\<rparr>"
  have "pipe_child k (r, w) from t line ch = and_then (execute k c ?u3) Undefined" if "CreateCommand line = Some c" for c
    using assms that delete_created [OF that] by (simp add: pipe_child_def dup2_def close_def Let_def)
  then show ?thesis by (intro exI [of _ ?u3]) simp
qed

lemma find_char_first: "c \<notin> set a \<Longrightarrow> find_char c (a @ c # b) 0 = Some (length a)"
  unfolding find_char_Some by (auto simp: nth_append)

text \<open>How the line is divided.\<close>

lemma pipe_parts:
  assumes "CreateCommand line = Some (Pipe p)" "line = a @ CHR ''|'' # b" "CHR ''|'' \<notin> set a"
  shows "firstCommand p = trim a" "isPipeWithAmpersand p = (b \<noteq> [] \<and> hd b = CHR ''&'')"
    "secondCommand p = trim (if isPipeWithAmpersand p then tl b else b)"
proof -
  have "mk_PipeCommand line = Some p"
    using assms(1) by (auto simp: CreateCommand_def Let_def split: if_splits bind_splits)
  moreover have "pipe_position line = length a" using find_char_first [OF assms(3)] assms(2) by (simp add: pipe_position_def)
  ultimately show "firstCommand p = trim a" "isPipeWithAmpersand p = (b \<noteq> [] \<and> hd b = CHR ''&'')"
    "secondCommand p = trim (if isPipeWithAmpersand p then tl b else b)"
    using assms(2)
    by (cases b; auto simp: mk_PipeCommand_def Let_def char_at_def NUL_def nth_append split: bind_splits if_splits)+
qed


text \<open>Waiting while the shell is in the foreground: ctrl-C only prints.\<close>

lemma wait_idle:
  assumes "well q st"
  shows "\<exists>n. wait_fg k p st = (k_waitpid k (trace st @ replicate n (got_ctrl_c st)) p True,
    st\<lparr>trace := trace st @ replicate n (got_ctrl_c st) @ [Sys (Waitpid p True)]\<rparr>)"
  using interrupts_idle [of st k] assms by (auto simp: wait_fg_def waitpid_def emit_def well_def)

text \<open>What \<open>PipeCommand::execute\<close> does in the shell, in this order.\<close>

lemma pipe_order:
  assumes w: "well q st" and p: "k_pipe k (trace st) (fds st) = (r, w)" and f: "1 \<noteq> r" "1 \<noteq> w" and c: "\<And>tr a. k_close k tr a \<noteq> - 1"
  shows "\<exists>st' n1 n2 p2. PipeCommand_execute k st = Returns st'
    \<and> trace st' = trace st @ [Sys Pipe_sys, Sys Fork] @ replicate n1 (got_ctrl_c st)
        @ [Sys (Waitpid (k_fork k (trace st @ [Sys Pipe_sys])) True), Sys Fork, Sys (Close r), Sys (Close w)]
        @ replicate n2 (got_ctrl_c st) @ [Sys (Waitpid p2 True)]"
proof -
  let ?d = "(fds st)(r \<mapsto> Pipe_read, w \<mapsto> Pipe_write)" and ?p1 = "k_fork k (trace st @ [Sys Pipe_sys])"
  let ?st2 = "st\<lparr>fds := ?d, trace := trace st @ [Sys Pipe_sys, Sys Fork]\<rparr>"
  have "well q ?st2" using w by (simp add: well_def)
  from wait_idle [OF this, of k ?p1] obtain n1 x where
    w1: "wait_fg k ?p1 ?st2 = (x, ?st2\<lparr>trace := trace ?st2 @ replicate n1 (got_ctrl_c ?st2) @ [Sys (Waitpid ?p1 True)]\<rparr>)"
    by blast
  let ?tr3 = "trace ?st2 @ replicate n1 (got_ctrl_c ?st2) @ [Sys (Waitpid ?p1 True)]"
  let ?st6 = "st\<lparr>trace := ?tr3 @ [Sys Fork, Sys (Close r), Sys (Close w)], fds := ?d(r := None, w := None)\<rparr>"
  have "well q ?st6" using w by (simp add: well_def)
  from wait_idle [OF this, of k "k_fork k ?tr3"] obtain n2 y where
    w2: "wait_fg k (k_fork k ?tr3) ?st6
      = (y, ?st6\<lparr>trace := trace ?st6 @ replicate n2 (got_ctrl_c ?st6) @ [Sys (Waitpid (k_fork k ?tr3) True)]\<rparr>)"
    by blast
  have "PipeCommand_execute k st = Returns (snd (wait_fg k (k_fork k ?tr3) ?st6))"
    using p c w1 by (simp add: PipeCommand_execute_def pipe_def fork_def close_def emit_def Let_def case_prod_beta)
  then show ?thesis using w2 f by (simp add: got_ctrl_c_def) blast
qed

subsection \<open>Signals\<close>

text \<open>What \<open>killAllJobs\<close> prints and does for one job.\<close>

definition kill_events :: "target option \<Rightarrow> JobEntry \<Rightarrow> event list" where
  "kill_events out j = [Out out (fmt_d (jobPid j) @ '': '' @ job_cmd j @ LF), Sys (Kill (jobPid j) SIGKILL)]"

text \<open>
  The loop sends the signal to the jobs in their order and ends at the first call that fails: \<open>as\<close> are the jobs before it, \<open>bs\<close> the
  rest, empty when no call fails.
\<close>

definition kill_result :: "kernel \<Rightarrow> event list \<Rightarrow> target option \<Rightarrow> JobEntry list \<Rightarrow> nat \<Rightarrow> int" where
  "kill_result k tr out js i =
     k_kill k (tr @ concat (map (kill_events out) (take i js)) @ [hd (kill_events out (js ! i))]) (jobPid (js ! i)) SIGKILL"

lemma kill_result_0: "kill_result k tr out (j # js) 0 = k_kill k (tr @ [hd (kill_events out j)]) (jobPid j) SIGKILL"
  by (simp add: kill_result_def)

lemma kill_result_Suc: "kill_result k tr out (j # js) (Suc i) = kill_result k (tr @ kill_events out j) out js i"
  by (simp add: kill_result_def)

lemma kill_loop_split:
  "\<exists>as bs. js = as @ bs
    \<and> kill_loop k js st = (bs = [], st\<lparr>trace := trace st @ concat (map (kill_events (fds st 1)) as)
        @ (if bs = [] then [] else kill_events (fds st 1) (hd bs) @ [Perror ''smash error: kill failed''])\<rparr>)
    \<and> (\<forall>i < length as. kill_result k (trace st) (fds st 1) js i \<noteq> - 1)
    \<and> (bs \<noteq> [] \<longrightarrow> kill_result k (trace st) (fds st 1) js (length as) = - 1)"
proof (induction js arbitrary: st)
  case (Cons j js)
  let ?E = "kill_events (fds st 1)"
  let ?st = "st\<lparr>trace := trace st @ ?E j\<rparr>"
  show ?case
  proof (cases "kill_result k (trace st) (fds st 1) (j # js) 0 = - 1")
    case True
    then have "kill_loop k (j # js) st = (False, st\<lparr>trace := trace st @ ?E j @ [Perror ''smash error: kill failed'']\<rparr>)"
      by (simp add: kill_result_0 kill_def cout_def perror_def emit_def kill_events_def Let_def)
    then show ?thesis using True by (intro exI [of _ "[]"] exI [of _ "j # js"]) simp
  next
    case False
    then have "kill_loop k (j # js) st = kill_loop k js ?st"
      by (simp add: kill_result_0 kill_def cout_def emit_def kill_events_def Let_def)
    moreover obtain as bs where "js = as @ bs"
      "kill_loop k js ?st = (bs = [], ?st\<lparr>trace := trace ?st @ concat (map (kill_events (fds ?st 1)) as)
        @ (if bs = [] then [] else kill_events (fds ?st 1) (hd bs) @ [Perror ''smash error: kill failed''])\<rparr>)"
      "\<forall>i < length as. kill_result k (trace ?st) (fds ?st 1) js i \<noteq> - 1"
      "bs \<noteq> [] \<longrightarrow> kill_result k (trace ?st) (fds ?st 1) js (length as) = - 1"
      using Cons.IH [of ?st] by blast
    ultimately show ?thesis using False
      by (intro exI [of _ "j # as"] exI [of _ bs]) (auto simp: less_Suc_eq_0_disj kill_result_Suc)
  qed
qed simp

lemma killAllJobs_split:
  "\<exists>as bs. jobs_list (jobs st) = as @ bs
    \<and> trace (killAllJobs k st) = trace st @ concat (map (kill_events (fds st 1)) as)
        @ (if bs = [] then [] else kill_events (fds st 1) (hd bs) @ [Perror ''smash error: kill failed''])
    \<and> jobs_list (jobs (killAllJobs k st)) = (if bs = [] then [] else jobs_list (jobs st))
    \<and> (\<forall>i < length as. kill_result k (trace st) (fds st 1) (jobs_list (jobs st)) i \<noteq> - 1)
    \<and> (bs \<noteq> [] \<longrightarrow> kill_result k (trace st) (fds st 1) (jobs_list (jobs st)) (length as) = - 1)"
proof -
  let ?js = "jobs_list (jobs st)"
  obtain as bs where s: "?js = as @ bs"
    "kill_loop k ?js st = (bs = [], st\<lparr>trace := trace st @ concat (map (kill_events (fds st 1)) as)
        @ (if bs = [] then [] else kill_events (fds st 1) (hd bs) @ [Perror ''smash error: kill failed''])\<rparr>)"
    "\<forall>i < length as. kill_result k (trace st) (fds st 1) ?js i \<noteq> - 1"
    "bs \<noteq> [] \<longrightarrow> kill_result k (trace st) (fds st 1) ?js (length as) = - 1"
    using kill_loop_split [of ?js k st] by blast
  then show ?thesis unfolding killAllJobs_def by (intro exI [of _ as] exI [of _ bs]) simp
qed

subsection \<open>Properties\<close>

text \<open>
  C23. Pipes. The line is divided at its first bar. When the calls on descriptors succeed, the command before the bar runs in a
  child whose output (after \<open>|&\<close> the error output) is the writing end of the pipe, and the one behind it in a child whose input is
  the reading end; both have no other descriptor of the pipe, so that the reader sees the end of
  the data. (After the command the child runs the destructor, which is undefined.) The shell starts the second child only after it
  has waited for the first, ctrl-C kills neither of them, and it ends with its own descriptors as before.
\<close>

theorem pipe_connects:
  assumes "CreateCommand line = Some (Pipe p)" "line = a @ CHR ''|'' # b" "CHR ''|'' \<notin> set a"
    and "well q st" "{0, 1, 2} \<subseteq> dom (fds st)" "k_pipe k (trace st) (fds st) = (r, w)" "r \<notin> dom (fds st)" "w \<notin> dom (fds st)" "r \<noteq> w"
    and "\<And>tr x y. k_dup2 k tr x y \<noteq> - 1" "\<And>tr x. k_close k tr x \<noteq> - 1"
    and "amp = (b \<noteq> [] \<and> hd b = CHR ''&'')" "fds ch = (fds st)(r \<mapsto> Pipe_read, w \<mapsto> Pipe_write)"
  shows "(\<exists>u. fds u = (fds st)((if amp then 2 else 1) \<mapsto> Pipe_write)
      \<and> (\<forall>c. CreateCommand (trim a) = Some c \<longrightarrow> pipe_first_child k p (r, w) ch = and_then (execute k c u) Undefined))
    \<and> (\<exists>u. fds u = (fds st)(0 \<mapsto> Pipe_read)
      \<and> (\<forall>c. CreateCommand (trim (if amp then tl b else b)) = Some c \<longrightarrow>
           pipe_second_child k p (r, w) ch = and_then (execute k c u) Undefined))
    \<and> (\<exists>st' n1 n2 p2. PipeCommand_execute k st = Returns st' \<and> fds st' = fds st
      \<and> trace st' = trace st @ [Sys Pipe_sys, Sys Fork] @ replicate n1 (got_ctrl_c st)
          @ [Sys (Waitpid (k_fork k (trace st @ [Sys Pipe_sys])) True), Sys Fork, Sys (Close r), Sys (Close w)]
          @ replicate n2 (got_ctrl_c st) @ [Sys (Waitpid p2 True)])"
proof -
  have n: "r \<noteq> 0" "r \<noteq> 1" "r \<noteq> 2" "w \<noteq> 0" "w \<noteq> 1" "w \<noteq> 2" using assms(5,7,8) by auto
  have z: "fds st r = None" "fds st w = None" using assms(7,8) by auto
  note parts = pipe_parts [OF assms(1-3)]
  have amp: "isPipeWithAmpersand p = amp" using parts(2) assms(12) by simp
  let ?t = "if amp then 2 else 1 :: int"
  have d1: "(fds ch)(?t := fds ch w, r := None, w := None) = (fds st)(?t \<mapsto> Pipe_write)"
    and d2: "(fds ch)(0 := fds ch r, r := None, w := None) = (fds st)(0 \<mapsto> Pipe_read)"
    unfolding assms(13) using n z assms(9) by (auto simp: fun_eq_iff)
  have c1: "pipe_first_child k p (r, w) ch = pipe_child k (r, w) w ?t (trim a) ch"
    by (simp add: pipe_first_child_def amp parts(1))
  have c2: "pipe_second_child k p (r, w) ch = pipe_child k (r, w) r 0 (trim (if amp then tl b else b)) ch"
    by (simp add: pipe_second_child_def amp parts(3))
  obtain st' n1 n2 p2 where s: "PipeCommand_execute k st = Returns st'"
    "trace st' = trace st @ [Sys Pipe_sys, Sys Fork] @ replicate n1 (got_ctrl_c st)
        @ [Sys (Waitpid (k_fork k (trace st @ [Sys Pipe_sys])) True), Sys Fork, Sys (Close r), Sys (Close w)]
        @ replicate n2 (got_ctrl_c st) @ [Sys (Waitpid p2 True)]"
    using pipe_order [OF assms(4,6) _ _ assms(11)] n(2,5) by blast
  have "fds st' = fds st" using fds_pipe_now [of k st r w] assms(6-8,11) s(1) by simp
  then show ?thesis using s pipe_child_runs [OF assms(10,11), of ch ?t w r w "trim a"]
      pipe_child_runs [OF assms(10,11), of ch 0 r r w "trim (if amp then tl b else b)"]
    unfolding c1 c2 d1 d2 by blast
qed


text \<open>
  C18. \<open>kill\<close>. With a number as its second parameter and a number as its first, the command sends exactly one signal, the
  absolute value of the first, to the job with the id of the second, and only if the first is a whole number between -31 and -1; it then
  prints the message of success or of failure. The job list stays as it is, also when the signal kills the job. When the id is
  not listed, the error message quotes it as it was typed, and this is checked before the signal. Other numbers are refused, but
  for the smallest \<open>int\<close>, whose absolute value is undefined.
\<close>

theorem kill_correct:
  assumes "num_of_params c = 3" "param (parametrs c) 1 = Some s1" "param (parametrs c) 2 = Some s2"
    and "stoi s1 = Some (v, m)" "stoi s2 = Some (i, n)"
  shows "KillCommand_execute k c st =
    (case find (\<lambda>j. jobId j = i) (jobs_list (jobs st)) of
       None \<Rightarrow> Returns (cerr (''smash error: kill: job-id '' @ s2 @ '' does not exist'' @ LF) st)
     | Some j \<Rightarrow>
         if m = length s1 \<and> - 31 \<le> v \<and> v \<le> - 1
         then Returns (st\<lparr>trace := trace st @ [Sys (Kill (jobPid j) (- v)),
           if k_kill k (trace st) (jobPid j) (- v) = - 1 then Perror ''smash error: kill failed''
           else Out (fds st 1) (''signal number '' @ fmt_d (- v) @ '' was sent to pid '' @ fmt_d (jobPid j) @ LF)]\<rparr>)
         else if m = length s1 \<and> v = - (2 ^ 31) then Undefined st
         else Returns (cerr (''smash error: kill: invalid arguments'' @ LF) st))"
proof -
  have v: "in_int v" using assms(4) by (auto simp: stoi_def Let_def split: if_splits)
  have r: "cint (- v) = (if v = - (2 ^ 31) then None else Some (- v))" if "v < 0"
    using v that by (auto simp: cint_def in_int_def INT_MAX_def)
  show ?thesis
  proof (cases "find (\<lambda>j. jobId j = i) (jobs_list (jobs st))")
    case None
    then show ?thesis using assms by (simp add: KillCommand_execute_def getJobById_def)
  next
    case (Some j)
    then have g: "getJobById (jobs st) i = Some j" by (simp add: getJobById_def)
    show ?thesis unfolding Some using assms g r
      by (auto simp: KillCommand_execute_def kill_def cout_def perror_def emit_def Let_def)
  qed
qed

text \<open>
  C17. \<open>quit kill\<close>. The first line has the number of the jobs; then every listed job in its order is printed and gets SIGKILL, until a call of
  \<open>kill\<close> fails, which ends the loop with a message. The list is cleared only when no call failed. In each case the destructor
  runs before \<open>exit\<close> and its behaviour is undefined.
\<close>

theorem quit_kills:
  assumes "mk_Command line = Some c" "num_of_params c \<ge> 2" "param (parametrs c) 1 = Some ''kill''"
  shows "\<exists>as bs st'. jobs_list (jobs st) = as @ bs \<and> QuitCommand_execute k c st = Undefined st'
    \<and> (let out = fds st 1; js = jobs_list (jobs st);
           tr = trace st @ [Out out (''smash: sending SIGKILL signal to '' @ fmt_d (cur_size (jobs st)) @ '' jobs:'' @ LF)] in
       trace st' = tr @ concat (map (kill_events out) as)
         @ (if bs = [] then [] else kill_events out (hd bs) @ [Perror ''smash error: kill failed''])
       \<and> jobs_list (jobs st') = (if bs = [] then [] else js)
       \<and> (\<forall>i < length as. kill_result k tr out js i \<noteq> - 1)
       \<and> (bs \<noteq> [] \<longrightarrow> kill_result k tr out js (length as) = - 1))"
proof -
  let ?st = "cout (''smash: sending SIGKILL signal to '' @ fmt_d (cur_size (jobs st)) @ '' jobs:'' @ LF) st"
  have q: "QuitCommand_execute k c st = Undefined (killAllJobs k ?st)"
    using assms delete_Command_undefined [OF assms(1)] by (simp add: QuitCommand_execute_def)
  have "jobs ?st = jobs st" "fds ?st = fds st"
    "trace ?st = trace st @ [Out (fds st 1) (''smash: sending SIGKILL signal to '' @ fmt_d (cur_size (jobs st)) @ '' jobs:'' @ LF)]"
    by (simp_all add: cout_def emit_def)
  then show ?thesis using killAllJobs_split [of ?st k] q unfolding Let_def by metis
qed


subsection \<open>Witnesses\<close>

definition ex_terminal :: smash where "ex_terminal = mk_SmallShell 5 [0 \<mapsto> Terminal, 1 \<mapsto> Terminal, 2 \<mapsto> Terminal]"

definition ex_pipe_fds :: smash where "ex_pipe_fds = ex_terminal\<lparr>fds := (fds ex_terminal)(3 \<mapsto> Pipe_read, 4 \<mapsto> Pipe_write)\<rparr>"

lemma ex_pipe: "map_option (\<lambda>c. case c of Pipe p \<Rightarrow> True | _ \<Rightarrow> False) (CreateCommand ''pwd|&jobs'') = Some True"
  by code_simp

lemma ex_pipe_parts:
  "map_option (\<lambda>c. case c of GetCurrDirCommand x \<Rightarrow> True | _ \<Rightarrow> False) (CreateCommand (trim ''pwd'')) = Some True"
  "map_option (\<lambda>c. case c of JobsCommand x \<Rightarrow> True | _ \<Rightarrow> False) (CreateCommand (trim ''jobs'')) = Some True"
  by code_simp+

lemma cmd_cases:
  "(case c of Pipe p \<Rightarrow> True | _ \<Rightarrow> False) = (\<exists>p. c = Pipe p)"
  "(case c of GetCurrDirCommand x \<Rightarrow> True | _ \<Rightarrow> False) = (\<exists>x. c = GetCurrDirCommand x)"
  "(case c of JobsCommand x \<Rightarrow> True | _ \<Rightarrow> False) = (\<exists>x. c = JobsCommand x)"
  by (cases c; simp)+

theorem pipe_connects_witness:
  "\<exists>p. CreateCommand ''pwd|&jobs'' = Some (Pipe p)
    \<and> (\<exists>u. fds u = (fds ex_terminal)(2 \<mapsto> Pipe_write)
         \<and> pipe_first_child ex_fds_kernel p (3, 4) ex_pipe_fds = and_then (GetCurrDirCommand_execute ex_fds_kernel u) Undefined)
    \<and> (\<exists>u. fds u = (fds ex_terminal)(0 \<mapsto> Pipe_read)
         \<and> pipe_second_child ex_fds_kernel p (3, 4) ex_pipe_fds = and_then (JobsCommand_execute ex_fds_kernel u) Undefined)
    \<and> (\<exists>st'. PipeCommand_execute ex_fds_kernel ex_terminal = Returns st' \<and> fds st' = fds ex_terminal)"
proof -
  obtain p where p: "CreateCommand ''pwd|&jobs'' = Some (Pipe p)"
    using ex_pipe by (auto simp: cmd_cases)
  obtain x where x: "CreateCommand (trim ''pwd'') = Some (GetCurrDirCommand x)"
    using ex_pipe_parts(1) by (auto simp: cmd_cases)
  obtain y where y: "CreateCommand (trim ''jobs'') = Some (JobsCommand y)"
    using ex_pipe_parts(2) by (auto simp: cmd_cases)
  have d: "fds ex_terminal = [0 \<mapsto> Terminal, 1 \<mapsto> Terminal, 2 \<mapsto> Terminal]" by (simp add: ex_terminal_def mk_SmallShell_def)
  have k: "k_pipe ex_fds_kernel tr (fds ex_terminal) = (3, 4)" "k_dup2 ex_fds_kernel tr a b \<noteq> - 1" "k_close ex_fds_kernel tr a \<noteq> - 1" for tr a b
    by (simp_all add: ex_fds_kernel_def ex_kernel_def d lowest_def upto.simps)
  have w: "well 5 ex_terminal" unfolding ex_terminal_def by (rule start_well)
  have "''pwd|&jobs'' = ''pwd'' @ CHR ''|'' # ''&jobs''" by simp
  from pipe_connects [OF p this _ w _ k(1) _ _ _ k(2,3) refl, of ex_pipe_fds]
  show ?thesis using p x y by (auto simp: d ex_pipe_fds_def execute_def)
qed

lemma ex_kill:
  "map_option (\<lambda>c. (num_of_params c, param (parametrs c) 1, param (parametrs c) 2)) (mk_Command ''kill -9 2'') = Some (3, Some ''-9'', Some ''2'')"
  "map_option (\<lambda>c. (num_of_params c, param (parametrs c) 1)) (mk_Command ''quit kill'') = Some (2, Some ''kill'')"
  "stoi ''-9'' = Some (- 9, 2)" "stoi ''2'' = Some (2, 1)"
  by code_simp+

theorem kill_correct_witness:
  "\<exists>c. mk_Command ''kill -9 2'' = Some c
    \<and> KillCommand_execute ex_kernel c ex_jobs = Returns (ex_jobs\<lparr>trace := trace ex_jobs
        @ [Sys (Kill 11 9), Out (fds ex_jobs 1) (''signal number '' @ fmt_d 9 @ '' was sent to pid '' @ fmt_d 11 @ LF)]\<rparr>)"
proof -
  obtain c where c: "mk_Command ''kill -9 2'' = Some c" "num_of_params c = 3" "param (parametrs c) 1 = Some ''-9''"
      "param (parametrs c) 2 = Some ''2''"
    using ex_kill(1) by auto
  from kill_correct [OF c(2-4) ex_kill(3,4), of ex_kernel ex_jobs] show ?thesis
    using c(1) by (simp add: ex_jobs_list ex_kernel_def)
qed

text \<open>The second of two jobs cannot be killed.\<close>

definition ex_kill_kernel :: kernel where "ex_kill_kernel = ex_kernel\<lparr>k_kill := (\<lambda>_ p _. if p = 11 then - 1 else 0)\<rparr>"

theorem quit_kills_witness:
  "\<exists>c st'. mk_Command ''quit kill'' = Some c \<and> QuitCommand_execute ex_kill_kernel c ex_jobs = Undefined st'
    \<and> trace st' = trace ex_jobs @ [Out (fds ex_jobs 1) (''smash: sending SIGKILL signal to '' @ fmt_d 2 @ '' jobs:'' @ LF),
        Out (fds ex_jobs 1) (fmt_d 10 @ '': a&'' @ LF), Sys (Kill 10 SIGKILL),
        Out (fds ex_jobs 1) (fmt_d 11 @ '': b&'' @ LF), Sys (Kill 11 SIGKILL), Perror ''smash error: kill failed'']
    \<and> jobs_list (jobs st') = jobs_list (jobs ex_jobs)"
proof -
  obtain c where c: "mk_Command ''quit kill'' = Some c" "num_of_params c = 2" "param (parametrs c) 1 = Some ''kill''"
    using ex_kill(2) by auto
  have r: "kill_result ex_kill_kernel tr out js i = (if jobPid (js ! i) = 11 then - 1 else 0)" for tr out js i
    by (simp add: kill_result_def ex_kill_kernel_def)
  from quit_kills [OF c(1) _ c(3), of ex_jobs ex_kill_kernel] c(1,2) show ?thesis
    unfolding Let_def r by (auto simp: ex_jobs_list kill_events_def Cons_eq_append_conv)
qed

end
