(* ===== verification/Spec2Isabelle.thy ===== *)
theory Spec2Isabelle
  imports Http Microsecond Drain Weight Malloc2 Realloc3 Processes
begin

text \<open>
  A verification development of the four programs of the repository, the homework of an operating
  systems course. They do not call each other; within each of them the components interact as follows.

  \<^bold>\<open>The shell\<close> (\<open>src/OS_HW1_234123\<close>). \<open>smash.cpp\<close> reads lines and passes them to
  \<open>SmallShell::executeCommand\<close> (\<open>Commands.cpp\<close>), which removes the finished jobs, lets \<open>CreateCommand\<close>
  build an object of one of the command classes and calls its \<open>execute\<close>; \<open>signals.cpp\<close> handles ctrl-C.
  \<^item> \<open>Cmdline\<close>: trimming and splitting (\<open>ltrim\<close>, \<open>rtrim\<close>, \<open>trim\<close>, \<open>words\<close> for \<open>_ltrim\<close>, \<open>_rtrim\<close>, \<open>_trim\<close>
    and the stream of \<open>_parseCommandLine\<close>), the array of parameters with its uninitialised and NULL entries, the
    constructors \<open>mk_Command\<close>, \<open>mk_RedirectionCommand\<close>, \<open>mk_PipeCommand\<close>, the destructor and \<open>CreateCommand\<close>. The
    lemmas show that the loops amount to splitting the line without its ampersands (C33), that splitting undoes joining, that every
    line that is not blank and has fewer than 20 words gives a command, and that the command
    before an arrow is shorter than the line, which makes \<open>executeCommand\<close> total.
  \<^item> \<open>Jobs\<close>: the state \<open>smash\<close> (the singleton \<open>SmallShell\<close>, the descriptor table, the trace of outputs and system calls)
    and every operation of \<open>JobsList\<close>. Answers of the kernel are functions of the trace (and, for new
    descriptors, of the table of open ones), so that they are arbitrary. Invariant and functional behaviour: C35, C36.
  \<^item> \<open>Shell\<close>: \<open>execute\<close> of every class, \<open>executeCommand\<close>, the children of pipes and of external commands,
    \<open>ctrlCHandler\<close>, which may run any number of times during every wait (\<open>interrupts\<close>), and the main loop (C37 to C39).
    The theorem on redirections relies on the kernel giving out numbers that are not open (\<open>fds_ok\<close>);
    \<open>smash_ignores_eof\<close> shows that the loop does not notice the end of the input.
  \<^item> \<open>Processes\<close>: what the commands do to other processes: the descriptors and the order of the two sides of a pipe (C23), the
    signals of \<open>kill\<close> (C18) and of \<open>quit kill\<close> (C17).

  \<^bold>\<open>The system calls\<close> (\<open>src/OS_HW2_234123\<close>). \<open>Weight\<close>: the calls of \<open>kernel/hw2.c\<close> over a table of tasks
  with the fields they use and the initial value of the added one, their numbers, the wrappers of the user library
  (C20 to C22, with the special cases of \<open>init\<close> and of weight 0) and the test program.

  \<^bold>\<open>The web server\<close> (\<open>src/OS_HW3_234123\<close>). \<open>server.c\<close> has a listener and worker threads that share two queues
  (\<open>reqQ.c\<close>) under a mutex; a worker answers a request with \<open>requestHandle\<close> (\<open>request.c\<close>), which reads and
  writes with the robust I/O package (\<open>segel.c\<close>); for dynamic content it runs a program such as \<open>output.c\<close> in a child
  process. \<open>client.c\<close> sends a request and prints the response.
  \<^item> \<open>ReqQ\<close>: the doubly linked list on a heap, pointer by pointer, refined to a bounded FIFO (C1). The locale
    \<open>fifo_queue\<close> states what the server relies on; it is interpreted on a single queue here and on
    the two queues that share one heap in \<open>Server\<close> (\<open>pend\<close>, \<open>busy\<close>).
  \<^item> \<open>Segel\<close>: the Rio functions over scripts of what the kernel does, and all wrappers (C3, C5).
  \<^item> \<open>Request\<close>: \<open>requestHandle\<close> and what it calls (C6 to C9, C11, C12; \<open>requestHandle_static_ok\<close> for a file). The arrays have their
    sizes: C7 and C11 say which requests overrun \<open>filename\<close> and the \<open>body\<close> of the error page.
  \<^item> \<open>Server\<close>: one function per critical section, a step relation for the threads, invariants of all
    reachable states (C13 to C16, \<open>server_statistics\<close>), the unknown policy (\<open>unknown_policy_leaks\<close>) and the command line. \<open>Microsecond\<close> has the one function of \<open>server.c\<close> that computes with \<open>double\<close>s.
  \<^item> \<open>Drain\<close>: the steps of the server without new connections. There are finitely many, and when none is left everything accepted
    has been answered and closed (C10).
  \<^item> \<open>Client\<close>: \<open>clientSend\<close>, \<open>clientPrint\<close> (\<open>clientPrint_correct\<close>) and \<open>main\<close>. \<open>printed\<close> is what \<open>printf("%s")\<close> shows of a body,
    line by line: all of it when there is no NUL byte.
  \<^item> \<open>Doubles\<close>: the \<open>double\<close> of C as a rational number rounded to 53 bits, with bounds on the error of an operation.
  \<^item> \<open>Cgi\<close>: \<open>output.c\<close>, its argument read by \<open>atof\<close>, the elapsed time and the page (C4).
  \<^item> \<open>Http\<close>: the composition. What \<open>client_main\<close> prints when the bytes it sends are those \<open>requestHandle\<close> reads and the
    other way round, for a file (C2) and for the program of \<open>output.c\<close> (C19).

  \<^bold>\<open>The allocators\<close> (\<open>src/OS_HW4_234123\<close>).
  \<^item> \<open>Allocator\<close>: the locale \<open>allocator\<close>, what an allocator promises about the blocks in use, with its consequences. It is
    interpreted on \<open>malloc_2\<close> (\<open>m2\<close> in \<open>Malloc2\<close>) and on \<open>malloc_3\<close> (\<open>m3\<close> in \<open>Buddy\<close>).
  \<^item> \<open>Malloc2\<close>: \<open>malloc_1.cpp\<close>, and \<open>malloc_2.cpp\<close> with its metadata list, statistics and bytes, refined to first
    fit on a list of blocks and a program break (C24, C26). Sizes are 64-bit words. \<open>sbrk\<close> moves the break by the amount the code asks
    for; that it fails, or that other code has raised the break before, is an argument. A sequence of calls is
    undefined when the specification is: for pointers that are not the allocator's and for
    reallocations that copy onto themselves.
  \<^item> \<open>Malloc3\<close>: \<open>malloc_3.cpp\<close>: the ordered lists of metadata, splitting, merging, mappings, statistics, \<open>srealloc\<close>. The predicate
    \<open>buddy_rep\<close> relates the state to the blocks and mappings behind it, \<open>tiling\<close> says that the
    blocks divide the arena; there is a lemma for every operation. What \<open>sbrk\<close> and \<open>mmap\<close> answer depends on the amount asked for;
    the end of the memory obtained is part of the state.
  \<^item> \<open>Buddy\<close>: what \<open>smalloc\<close>, \<open>scalloc\<close>, \<open>sfree\<close>, the statistics and the first call do to the abstract heap (C27 to C32). \<open>kernel_ok\<close>
    is what is relied on of \<open>mmap\<close>: a region of the length asked for that overlaps nothing in use. \<open>sfree\<close> is
    right as long as no free buddy it meets is smaller (\<open>merge_safe\<close>); C31 shows what happens otherwise, and \<open>bug_run\<close> reaches such a
    heap from the initial state.
  \<^item> \<open>Realloc3\<close>: \<open>srealloc\<close> of \<open>malloc_3\<close>: moving a block (C25), growing it in place and running out of free buddies
    (C34), and the upper half that grows beyond its end (C40).

  \<open>OS_Prelude\<close> has what the components share: undefined behaviour as \<^const>\<open>None\<close> or \<open>Fault\<close>, heaps, machine
  integers, C strings and formatted output.

  \<^bold>\<open>Bounds and termination.\<close> Loops along pointers and loops that wait for input are partial functions into
  \<open>option\<close>; where they return, this is proved. The other loops are total functions with a measure. The
  only counters of rounds are those of the source (orders, array lengths) and the \<open>n\<close> of \<open>main_rounds\<close>, over
  which the theorems quantify because the loop of \<open>main\<close> never ends. Addresses are natural numbers; where
  a \<open>size_t\<close> or an \<open>int\<close> can wrap, the reduction is written out or words are used. The job ids of the shell are
  unbounded integers.

  \<^bold>\<open>Not modelled.\<close> The rest of the Linux headers \<open>sched.h\<close>, \<open>syscalls.h\<close> and \<open>init_task.h\<close> (declarations of code that is not
  in the repository), commented-out code, the page and icon of the server, the buffering of \<open>cout\<close>, failing
  allocations inside the constructors of the shell, a ctrl-C at a moment when the shell does not wait, and the
  \<open>alarmHandler\<close> of the shell (empty and never installed). \<open>srealloc\<close> of \<open>malloc_3\<close> on a mapping, which
  its comment excludes, is modelled and has no theorem.
\<close>

end
